(* ===== verification/Prelude.thy ===== *)
theory Prelude
  imports Main "HOL-Library.List_Lexorder" "HOL-Library.Char_ord"
begin

text \<open>
  Vocabulary the whole development shares: Go byte strings, Go errors as values, the result
  type of a Go function that returns an error, decimal rendering (\<open>fmt.Sprintf("%d", n)\<close>),
  and generic list facts.  The collections \<open>go_map_simps\<close>, \<open>go_defs\<close> and \<open>inv_intros\<close>
  gather the rewrite rules and introduction rules that carry the component proofs.
\<close>

named_theorems go_map_simps \<open>lookup and update laws of Go maps\<close>
named_theorems go_defs \<open>definitions of small source functions, unfolded in component proofs\<close>
named_theorems inv_intros \<open>preservation lemmas of component invariants\<close>

section \<open>Strings and numbers\<close>

text \<open>A Go string or byte slice is the list of its bytes; a character is a byte.\<close>

type_synonym bytes = string

abbreviation byte_val :: "char \<Rightarrow> nat" where
  "byte_val c \<equiv> of_char c"

abbreviation NL :: char where
  "NL \<equiv> CHR 0x0A"

abbreviation CR :: char where
  "CR \<equiv> CHR 0x0D"

text \<open>Decimal digits of a natural number and of an integer, as \<open>fmt\<close> prints them.\<close>

definition digit_char :: "nat \<Rightarrow> char" where
  "digit_char d = char_of (48 + d)"

fun show_nat :: "nat \<Rightarrow> string" where
  "show_nat n = (if n < 10 then [digit_char n] else show_nat (n div 10) @ [digit_char (n mod 10)])"

declare show_nat.simps [simp del]

definition show_int :: "int \<Rightarrow> string" where
  "show_int i = (if i < 0 then CHR ''-'' # show_nat (nat (- i)) else show_nat (nat i))"

lemma show_nat_less_10: "n < 10 \<Longrightarrow> show_nat n = [digit_char n]"
  and show_nat_ge_10: "\<not> n < 10 \<Longrightarrow> show_nat n = show_nat (n div 10) @ [digit_char (n mod 10)]"
  by (simp_all add: show_nat.simps [of n])

text \<open>Reading decimal digits back; a left inverse of \<open>show_nat\<close>, so that rendering is injective.\<close>

definition read_nat :: "string \<Rightarrow> nat" where
  "read_nat s = foldl (\<lambda>acc c. 10 * acc + (byte_val c - 48)) 0 s"

lemma byte_val_digit_char: "d < 10 \<Longrightarrow> byte_val (digit_char d) = 48 + d"
  by (simp add: digit_char_def)

lemma read_show_nat: "read_nat (show_nat n) = n"
proof (induction n rule: show_nat.induct)
  case (1 n)
  show ?case
  proof (cases "n < 10")
    case True
    then show ?thesis by (simp add: show_nat.simps [of n] read_nat_def byte_val_digit_char)
  next
    case False
    with 1 have "read_nat (show_nat (n div 10)) = n div 10" by simp
    with False show ?thesis
      by (simp add: show_nat.simps [of n] read_nat_def byte_val_digit_char)
  qed
qed

lemma show_nat_inject [simp]: "show_nat m = show_nat n \<longleftrightarrow> m = n"
  by (metis read_show_nat)

lemma show_nat_digits: "c \<in> set (show_nat n) \<Longrightarrow> 48 \<le> byte_val c \<and> byte_val c < 58"
proof (induction n rule: show_nat.induct)
  case (1 n)
  show ?case
  proof (cases "n < 10")
    case True
    with 1 show ?thesis by (simp add: show_nat.simps [of n] byte_val_digit_char)
  next
    case False
    with 1 show ?thesis by (auto simp: show_nat.simps [of n] byte_val_digit_char)
  qed
qed

lemma show_int_bytes: "c \<in> set (show_int i) \<Longrightarrow> 32 \<le> byte_val c"
  by (auto simp: show_int_def dest: show_nat_digits split: if_splits)

section \<open>Errors and results\<close>

text \<open>
  Go errors: the two context errors, a plain message, and \<open>fmt.Errorf("prefix: %w", err)\<close>,
  which keeps the wrapped error for \<open>errors.Is\<close>.
\<close>

datatype go_error =
    CtxCanceled
  | CtxDeadline
  | ErrText string
  | ErrWrap string go_error

fun err_msg :: "go_error \<Rightarrow> string" where
  "err_msg CtxCanceled = ''context canceled''"
| "err_msg CtxDeadline = ''context deadline exceeded''"
| "err_msg (ErrText s) = s"
| "err_msg (ErrWrap p e) = p @ err_msg e"

text \<open>\<open>errors.Is (err, context.Canceled)\<close>.\<close>

fun is_canceled :: "go_error \<Rightarrow> bool" where
  "is_canceled CtxCanceled = True"
| "is_canceled CtxDeadline = False"
| "is_canceled (ErrText s) = False"
| "is_canceled (ErrWrap p e) = is_canceled e"

text \<open>The value and error pair of a Go function: exactly one of them is meaningful.\<close>

type_synonym 'a result = "go_error + 'a"

text \<open>Sequencing two fallible calls: \<open>if err != nil { return err }\<close>.\<close>

definition bind_res :: "'a result \<Rightarrow> ('a \<Rightarrow> 'b result) \<Rightarrow> 'b result" where
  "bind_res r f = (case r of Inl e \<Rightarrow> Inl e | Inr a \<Rightarrow> f a)"

lemma bind_res_simps [simp]:
  "bind_res (Inl e) f = Inl e"
  "bind_res (Inr a) f = f a"
  by (simp_all add: bind_res_def)

lemma bind_res_eq_Inr: "bind_res r f = Inr b \<longleftrightarrow> (\<exists>a. r = Inr a \<and> f a = Inr b)"
  by (cases r) auto

text \<open>A validation step returns no value.\<close>

type_synonym check = "unit result"

abbreviation ok :: check where
  "ok \<equiv> Inr ()"

abbreviation failing :: "string \<Rightarrow> 'a result" where
  "failing s \<equiv> Inl (ErrText s)"

text \<open>Running a list of checks in order; the first failure wins.\<close>

fun first_error :: "check list \<Rightarrow> check" where
  "first_error [] = ok"
| "first_error (c # cs) = (case c of Inl e \<Rightarrow> Inl e | Inr u \<Rightarrow> first_error cs)"

lemma first_error_ok_iff: "first_error cs = ok \<longleftrightarrow> (\<forall>c \<in> set cs. c = ok)"
  by (induction cs) (auto split: sum.splits)

lemma isl_cases: "(case r of Inl e \<Rightarrow> P e | Inr x \<Rightarrow> Q x) \<longleftrightarrow>
    (\<forall>e. r = Inl e \<longrightarrow> P e) \<and> (\<forall>x. r = Inr x \<longrightarrow> Q x)"
  by (cases r) auto

section \<open>Joining and splitting strings\<close>

text \<open>\<open>strings.Join (parts, sep)\<close> and \<open>bytes.Join\<close>.\<close>

fun go_join :: "bytes \<Rightarrow> bytes list \<Rightarrow> bytes" where
  "go_join sep [] = []"
| "go_join sep [p] = p"
| "go_join sep (p # q # ps) = p @ sep @ go_join sep (q # ps)"

lemma go_join_Cons: "ps \<noteq> [] \<Longrightarrow> go_join sep (p # ps) = p @ sep @ go_join sep ps"
  by (cases ps) auto

lemma go_join_snoc: "ps \<noteq> [] \<Longrightarrow> go_join sep (ps @ [p]) = go_join sep ps @ sep @ p"
  by (induction sep ps rule: go_join.induct) (auto simp: go_join_Cons)

lemma go_join_set: "c \<in> set (go_join sep ps) \<Longrightarrow> c \<in> set sep \<or> (\<exists>p \<in> set ps. c \<in> set p)"
  by (induction sep ps rule: go_join.induct) auto

lemma go_join_length:
  "length (go_join sep ps) = sum_list (map length ps) + (length ps - 1) * length sep"
  by (induction sep ps rule: go_join.induct) auto

text \<open>
  \<open>strings.Split (s, sep)\<close> with a non-empty separator: cut at every leftmost occurrence.
  \<open>go_split\<close> carries the part read so far.
\<close>

definition has_prefix :: "bytes \<Rightarrow> bytes \<Rightarrow> bool" where
  "has_prefix s p \<longleftrightarrow> take (length p) s = p"

fun split_from :: "bytes \<Rightarrow> bytes \<Rightarrow> bytes \<Rightarrow> bytes list" where
  "split_from sep acc [] = [acc]"
| "split_from sep acc (c # s) =
     (if sep \<noteq> [] \<and> has_prefix (c # s) sep then acc # split_from sep [] (drop (length sep - 1) s)
      else split_from sep (acc @ [c]) s)"

definition go_split :: "bytes \<Rightarrow> bytes \<Rightarrow> bytes list" where
  "go_split s sep = split_from sep [] s"

lemma split_from_nonempty: "split_from sep acc s \<noteq> []"
  by (induction sep acc s rule: split_from.induct) auto

lemma has_prefix_append: "has_prefix s p \<Longrightarrow> s = p @ drop (length p) s"
  unfolding has_prefix_def by (metis append_take_drop_id)

lemma join_split_from: "go_join sep (split_from sep acc s) = acc @ s"
proof (induction sep acc s rule: split_from.induct)
  case (1 sep acc)
  then show ?case by simp
next
  case (2 sep acc c s)
  show ?case
  proof (cases "sep \<noteq> [] \<and> has_prefix (c # s) sep")
    case True
    then have "c # s = sep @ drop (length sep - 1) s"
      using has_prefix_append [of "c # s" sep] by (cases sep) auto
    then have "sep @ drop (length sep - 1) s = c # s" by simp
    with True 2 show ?thesis by (simp add: go_join_Cons split_from_nonempty)
  next
    case False
    with 2 show ?thesis by auto
  qed
qed

lemma join_split: "go_join sep (go_split s sep) = s"
  by (simp add: go_split_def join_split_from)

lemma go_split_nonempty [simp]: "go_split s sep \<noteq> []"
  by (simp add: go_split_def split_from_nonempty)

text \<open>For a one-byte separator the parts do not contain it, and splitting inverts joining.\<close>

lemma split_from_single:
  "split_from [c] acc s = (acc @ takeWhile (\<lambda>x. x \<noteq> c) s) #
     (case dropWhile (\<lambda>x. x \<noteq> c) s of [] \<Rightarrow> [] | d # t \<Rightarrow> split_from [c] [] t)"
  by (induction s arbitrary: acc) (auto simp: has_prefix_def)

lemma split_from_join:
  assumes "\<forall>p \<in> set ps. c \<notin> set p" "ps \<noteq> []"
  shows "split_from [c] [] (go_join [c] ps) = ps"
  using assms
proof (induction "[c]" ps rule: go_join.induct)
  case 1
  then show ?case by simp
next
  case (2 p)
  then have "takeWhile (\<lambda>x. x \<noteq> c) p = p" "dropWhile (\<lambda>x. x \<noteq> c) p = []"
    by (auto simp: takeWhile_eq_all_conv dropWhile_eq_Nil_conv)
  then show ?case by (simp add: split_from_single [of c "[]" p] del: dropWhile_eq_Nil_conv)
next
  case (3 p q ps)
  then have "takeWhile (\<lambda>x. x \<noteq> c) (p @ c # r) = p" "dropWhile (\<lambda>x. x \<noteq> c) (p @ c # r) = c # r" for r
    by (auto simp: takeWhile_append dropWhile_append)
  with 3 show ?case by (simp add: split_from_single [of c "[]" "p @ c # _"])
qed

lemma go_split_join:
  "\<lbrakk>\<forall>p \<in> set ps. c \<notin> set p; ps \<noteq> []\<rbrakk> \<Longrightarrow> go_split (go_join [c] ps) [c] = ps"
  by (simp add: go_split_def split_from_join)

text \<open>\<open>strings.Contains\<close>, \<open>strings.HasSuffix\<close> and \<open>strings.TrimSuffix\<close>.\<close>

fun contains :: "string \<Rightarrow> string \<Rightarrow> bool" where
  "contains [] sub = (sub = [])"
| "contains (c # s) sub = (if has_prefix (c # s) sub then True else contains s sub)"

definition has_suffix :: "string \<Rightarrow> string \<Rightarrow> bool" where
  "has_suffix s suf \<longleftrightarrow> has_prefix (rev s) (rev suf)"

definition trim_suffix :: "string \<Rightarrow> string \<Rightarrow> string" where
  "trim_suffix s suf = (if has_suffix s suf then take (length s - length suf) s else s)"

lemma has_suffix_append [simp]: "has_suffix (s @ suf) suf"
  by (simp add: has_suffix_def has_prefix_def)

lemma trim_suffix_append [simp]: "trim_suffix (s @ suf) suf = s"
  by (simp add: trim_suffix_def)

text \<open>
  The \<open>%q\<close> verb of \<open>fmt\<close> on a text of printable characters that needs no escape; it only occurs in
  the text of errors.
\<close>

definition quoted :: "string \<Rightarrow> string" where
  "quoted s = CHR 0x22 # s @ [CHR 0x22]"

text \<open>The names of a registry in an error, in the order in which Go ranges over it, as \<open>%v\<close> prints a slice.\<close>

definition registered :: "string list \<Rightarrow> string" where
  "registered names = '' (registered: ['' @ go_join '' '' names @ ''])''"

section \<open>List facts\<close>

lemma takeWhile_dropWhile_length:
  "length (takeWhile P xs) + length (dropWhile P xs) = length xs"
  by (metis length_append takeWhile_dropWhile_id)

lemma dropWhile_Nil_iff: "dropWhile P xs = [] \<longleftrightarrow> (\<forall>x \<in> set xs. P x)"
  by (rule dropWhile_eq_Nil_conv)

lemma in_set_concat_map: "y \<in> set (concat (map f xs)) \<longleftrightarrow> (\<exists>x \<in> set xs. y \<in> set (f x))"
  by auto

lemma sum_list_take_mono:
  fixes f :: "'a \<Rightarrow> nat"
  assumes "i \<le> j"
  shows "sum_list (map f (take i xs)) \<le> sum_list (map f (take j xs))"
proof -
  have "take j xs = take i xs @ take (j - i) (drop i xs)"
    using assms by (metis le_add_diff_inverse take_add)
  then show ?thesis by simp
qed

end
