(* ===== verification/GoMap.thy ===== *)
theory GoMap
  imports Prelude
begin

text \<open>
  Go's \<open>map[string]V\<close>.  A map is kept as the association list of its entries in increasing key
  order: the list determines the map, and it is the order in which \<open>encoding/json\<close> writes the
  keys.  Go's own iteration order is unspecified; where the program ranges over a map and the
  order can be observed, the model takes the order as an argument instead of using this one.
  The interface is the locale \<open>go_map\<close>; its interpretation \<open>gm\<close> discharges the laws here, and
  every component that stores a Go map (records, watermarks, parser buffers, tailed files)
  reasons through the facts of that interpretation.
\<close>

type_synonym 'v gomap = "(string \<times> 'v) list"

definition gm_empty :: "'v gomap" where
  "gm_empty = []"

definition gm_get :: "'v gomap \<Rightarrow> string \<Rightarrow> 'v option" where
  "gm_get m k = map_of m k"

fun gm_put :: "'v gomap \<Rightarrow> string \<Rightarrow> 'v \<Rightarrow> 'v gomap" where
  "gm_put [] k v = [(k, v)]"
| "gm_put (e # m) k v =
     (if k = fst e then (k, v) # m
      else if k < fst e then (k, v) # e # m
      else e # gm_put m k v)"

definition gm_del :: "'v gomap \<Rightarrow> string \<Rightarrow> 'v gomap" where
  "gm_del m k = filter (\<lambda>e. fst e \<noteq> k) m"

definition gm_keys :: "'v gomap \<Rightarrow> string list" where
  "gm_keys m = map fst m"

text \<open>The representation invariant: keys strictly increasing, so none occurs twice.\<close>

definition gm_ok :: "'v gomap \<Rightarrow> bool" where
  "gm_ok m \<longleftrightarrow> sorted_wrt (<) (gm_keys m)"

section \<open>The interface of a Go map\<close>

locale go_map =
  fixes empty :: "'m"
    and get :: "'m \<Rightarrow> string \<Rightarrow> 'v option"
    and put :: "'m \<Rightarrow> string \<Rightarrow> 'v \<Rightarrow> 'm"
    and del :: "'m \<Rightarrow> string \<Rightarrow> 'm"
  assumes get_empty: "get empty k = None"
    and get_put: "get (put m k v) k' = (if k' = k then Some v else get m k')"
    and get_del: "get (del m k) k' = (if k' = k then None else get m k')"
begin

lemma get_put_same: "get (put m k v) k = Some v"
  by (simp add: get_put)

lemma get_put_other: "k' \<noteq> k \<Longrightarrow> get (put m k v) k' = get m k'"
  by (simp add: get_put)

text \<open>A loop that stores a list of bindings: the last binding of a key wins.\<close>

lemma get_put_loop:
  "get (foldl (\<lambda>m e. put m (key e) (val e)) m es) k =
    (case map_of (rev (map (\<lambda>e. (key e, val e)) es)) k of
       None \<Rightarrow> get m k | Some v \<Rightarrow> Some v)"
proof (induction es arbitrary: m)
  case Nil
  then show ?case by simp
next
  case (Cons e es)
  then show ?case by (simp add: get_put map_add_def split: option.splits)
qed

lemma get_put_loop_absent:
  "k \<notin> key ` set es \<Longrightarrow> get (foldl (\<lambda>m e. put m (key e) (val e)) m es) k = get m k"
  by (induction es arbitrary: m) (simp_all add: get_put)

lemma get_put_loop_last:
  "get (foldl (\<lambda>m e. put m (key e) (val e)) m (es @ [e])) (key e) = Some (val e)"
  by (simp add: get_put)

end

lemma gm_get_put: "gm_get (gm_put m k v) k' = (if k' = k then Some v else gm_get m k')"
  by (induction m k v rule: gm_put.induct) (auto simp: gm_get_def)

lemma gm_get_del: "gm_get (gm_del m k) k' = (if k' = k then None else gm_get m k')"
  by (induction m) (auto simp: gm_get_def gm_del_def)

lemma gm_get_empty: "gm_get gm_empty k = None"
  by (simp add: gm_get_def gm_empty_def)

interpretation gm: go_map gm_empty gm_get gm_put gm_del
  by unfold_locales (simp_all add: gm_get_empty gm_get_put gm_get_del)

declare gm.get_empty [simp, go_map_simps] gm.get_put [go_map_simps] gm.get_del [go_map_simps]
  gm.get_put_same [simp] gm.get_put_other [simp]

section \<open>Key order\<close>

lemma gm_keys_put: "set (gm_keys (gm_put m k v)) = insert k (set (gm_keys m))"
  by (induction m k v rule: gm_put.induct) (auto simp: gm_keys_def)

lemma gm_keys_get: "k \<in> set (gm_keys m) \<longleftrightarrow> gm_get m k \<noteq> None"
  by (simp add: gm_keys_def gm_get_def map_of_eq_None_iff)

lemma gm_ok_empty [inv_intros, simp]: "gm_ok gm_empty"
  by (simp add: gm_ok_def gm_empty_def gm_keys_def)

lemma gm_ok_put [inv_intros]: "gm_ok m \<Longrightarrow> gm_ok (gm_put m k v)"
proof (induction m)
  case Nil
  then show ?case by (simp add: gm_ok_def gm_keys_def)
next
  case (Cons e m)
  have e: "\<forall>x \<in> set (gm_keys m). fst e < x" and ok: "gm_ok m"
    using Cons.prems by (auto simp: gm_ok_def gm_keys_def)
  show ?case
  proof (cases "k = fst e \<or> k < fst e")
    case True
    with e ok show ?thesis by (auto simp: gm_ok_def gm_keys_def dest: less_trans)
  next
    case False
    then have "fst e < k" by (auto simp: not_less_iff_gr_or_eq)
    with False e Cons.IH [OF ok] gm_keys_put [of m k v] show ?thesis
      by (auto simp: gm_ok_def gm_keys_def)
  qed
qed

lemma gm_ok_del [inv_intros]: "gm_ok m \<Longrightarrow> gm_ok (gm_del m k)"
  by (induction m) (auto simp: gm_ok_def gm_keys_def gm_del_def)

lemma gm_ok_distinct: "gm_ok m \<Longrightarrow> distinct (gm_keys m)"
  unfolding gm_ok_def by (metis sorted_wrt_iff_nth_less distinct_conv_nth linorder_neqE_nat less_irrefl)

lemma gm_get_mem: "gm_ok m \<Longrightarrow> gm_get m k = Some v \<longleftrightarrow> (k, v) \<in> set m"
  by (metis gm_get_def gm_keys_def gm_ok_distinct map_of_eq_Some_iff)

text \<open>Two well-formed maps with the same bindings are the same list.\<close>

lemma gm_ext:
  assumes "gm_ok m" "gm_ok n" "\<And>k. gm_get m k = gm_get n k"
  shows "m = n"
proof -
  have keys: "set (gm_keys m) = set (gm_keys n)"
    using assms(3) by (auto simp: gm_keys_get)
  have "gm_keys m = gm_keys n"
    using assms(1,2) keys unfolding gm_ok_def
    by (simp add: strict_sorted_equal)
  moreover have "map snd m = map snd n"
  proof (rule nth_equalityI)
    show len: "length (map snd m) = length (map snd n)"
      using calculation unfolding gm_keys_def by (metis length_map)
    fix i assume i: "i < length (map snd m)"
    have "gm_get m (fst (m ! i)) = Some (snd (m ! i))" "gm_get n (fst (n ! i)) = Some (snd (n ! i))"
      using i len assms(1,2) by (auto simp: gm_get_mem)
    moreover have "fst (m ! i) = fst (n ! i)"
      using \<open>gm_keys m = gm_keys n\<close> i len unfolding gm_keys_def by (metis length_map nth_map)
    ultimately show "map snd m ! i = map snd n ! i"
      using i len assms(3) by simp
  qed
  ultimately show ?thesis
    unfolding gm_keys_def by (metis zip_map_fst_snd)
qed

end
