(* ===== verification/Utf8.thy ===== *)
theory Utf8
  imports Prelude
begin

text \<open>
  The part of Go's \<open>unicode/utf8\<close> and string conversions the program rests on: \<open>[]rune(s)\<close>
  decodes a byte string (an invalid byte becomes U+FFFD and consumes one byte), \<open>string(runes)\<close>
  encodes it back, and \<open>unicode.IsSpace\<close> decides what \<open>TrimSpace\<close> removes.  A decoded piece of
  the input is a segment: the rune and the bytes it came from.
\<close>

type_synonym rune = nat

definition rune_error :: rune where
  "rune_error = 0xFFFD"

definition valid_rune :: "rune \<Rightarrow> bool" where
  "valid_rune r \<longleftrightarrow> r < 0xD800 \<or> 0xDFFF < r \<and> r \<le> 0x10FFFF"

text \<open>\<open>utf8.EncodeRune\<close>: surrogates and out-of-range values are written as U+FFFD.\<close>

definition encode_rune :: "rune \<Rightarrow> bytes" where
  "encode_rune r0 = (let r = (if valid_rune r0 then r0 else rune_error) in
     if r < 0x80 then [char_of r]
     else if r < 0x800 then [char_of (0xC0 + r div 64), char_of (0x80 + r mod 64)]
     else if r < 0x10000 then
       [char_of (0xE0 + r div 4096), char_of (0x80 + r div 64 mod 64), char_of (0x80 + r mod 64)]
     else
       [char_of (0xF0 + r div 262144), char_of (0x80 + r div 4096 mod 64),
        char_of (0x80 + r div 64 mod 64), char_of (0x80 + r mod 64)])"

text \<open>A continuation byte, and the range the second byte must lie in after a given first byte.\<close>

definition cont_byte :: "nat \<Rightarrow> bool" where
  "cont_byte b \<longleftrightarrow> 0x80 \<le> b \<and> b \<le> 0xBF"

definition second_ok :: "nat \<Rightarrow> nat \<Rightarrow> bool" where
  "second_ok b0 b1 \<longleftrightarrow>
     (if b0 = 0xE0 then 0xA0 else if b0 = 0xF0 then 0x90 else 0x80) \<le> b1 \<and>
     b1 \<le> (if b0 = 0xED then 0x9F else if b0 = 0xF4 then 0x8F else 0xBF)"

text \<open>\<open>utf8.DecodeRune\<close>: the first rune of a non-empty string and its size in bytes.\<close>

definition decode2 :: "nat \<Rightarrow> nat list \<Rightarrow> rune \<times> nat" where
  "decode2 b0 bs = (case bs of
      b1 # _ \<Rightarrow> if second_ok b0 b1 then ((b0 - 0xC0) * 64 + (b1 - 0x80), 2) else (rune_error, 1)
    | [] \<Rightarrow> (rune_error, 1))"

definition decode3 :: "nat \<Rightarrow> nat list \<Rightarrow> rune \<times> nat" where
  "decode3 b0 bs = (case bs of
      b1 # b2 # _ \<Rightarrow>
        if second_ok b0 b1 \<and> cont_byte b2
        then ((b0 - 0xE0) * 4096 + (b1 - 0x80) * 64 + (b2 - 0x80), 3) else (rune_error, 1)
    | _ \<Rightarrow> (rune_error, 1))"

definition decode4 :: "nat \<Rightarrow> nat list \<Rightarrow> rune \<times> nat" where
  "decode4 b0 bs = (case bs of
      b1 # b2 # b3 # _ \<Rightarrow>
        if second_ok b0 b1 \<and> cont_byte b2 \<and> cont_byte b3
        then ((b0 - 0xF0) * 262144 + (b1 - 0x80) * 4096 + (b2 - 0x80) * 64 + (b3 - 0x80), 4)
        else (rune_error, 1)
    | _ \<Rightarrow> (rune_error, 1))"

definition decode_bytes :: "nat list \<Rightarrow> rune \<times> nat" where
  "decode_bytes bytes = (case bytes of
      [] \<Rightarrow> (rune_error, 0)
    | b0 # bs \<Rightarrow>
        if b0 < 0x80 then (b0, 1)
        else if 0xC2 \<le> b0 \<and> b0 \<le> 0xDF then decode2 b0 bs
        else if 0xE0 \<le> b0 \<and> b0 \<le> 0xEF then decode3 b0 bs
        else if 0xF0 \<le> b0 \<and> b0 \<le> 0xF4 then decode4 b0 bs
        else (rune_error, 1))"

definition decode_rune :: "bytes \<Rightarrow> rune \<times> nat" where
  "decode_rune s = decode_bytes (map byte_val (take 4 s))"

lemma decode2_size: "snd (decode2 b0 bs) \<in> {1, 2}" "snd (decode2 b0 bs) \<le> Suc (length bs)"
  by (auto simp: decode2_def split: list.splits)

lemma decode3_size: "snd (decode3 b0 bs) \<in> {1, 3}" "snd (decode3 b0 bs) \<le> Suc (length bs)"
  by (auto simp: decode3_def split: list.splits)

lemma decode4_size: "snd (decode4 b0 bs) \<in> {1, 4}" "snd (decode4 b0 bs) \<le> Suc (length bs)"
  by (auto simp: decode4_def split: list.splits)

lemma decode_bytes_size:
  assumes "bs \<noteq> []"
  shows "0 < snd (decode_bytes bs)" "snd (decode_bytes bs) \<le> length bs"
proof -
  obtain b0 bs' where bs: "bs = b0 # bs'" using assms by (cases bs) auto
  show "0 < snd (decode_bytes bs)" "snd (decode_bytes bs) \<le> length bs"
    using decode2_size [of b0 bs'] decode3_size [of b0 bs'] decode4_size [of b0 bs']
    by (auto simp: bs decode_bytes_def)
qed

lemma decode_rune_size:
  assumes "s \<noteq> []"
  shows "0 < snd (decode_rune s)" "snd (decode_rune s) \<le> length s"
  using decode_bytes_size [of "map byte_val (take 4 s)"] assms by (auto simp: decode_rune_def)

text \<open>The segments of a byte string, left to right.\<close>

function decode_segs :: "bytes \<Rightarrow> (rune \<times> bytes) list" where
  "decode_segs s =
     (if s = [] then []
      else let (r, n) = decode_rune s in (r, take n s) # decode_segs (drop n s))"
  by pat_completeness auto
termination
proof (relation "measure length")
  fix s :: bytes and x r n
  assume "s \<noteq> []" "x = decode_rune s" "(r, n) = x"
  then have "0 < n" "s \<noteq> []" using decode_rune_size(1) [of s] by (metis snd_conv)+
  then show "(drop n s, s) \<in> measure length" by simp
qed simp

declare decode_segs.simps [simp del]

lemma decode_segs_Nil [simp]: "decode_segs [] = []"
  by (simp add: decode_segs.simps)

text \<open>\<open>[]rune(s)\<close> and \<open>string(runes)\<close>.\<close>

definition runes_of :: "bytes \<Rightarrow> rune list" where
  "runes_of s = map fst (decode_segs s)"

definition string_of_runes :: "rune list \<Rightarrow> bytes" where
  "string_of_runes rs = concat (map encode_rune rs)"

text \<open>\<open>unicode.IsSpace\<close>.\<close>

definition is_space_rune :: "rune \<Rightarrow> bool" where
  "is_space_rune r \<longleftrightarrow>
     r \<in> {0x09, 0x0A, 0x0B, 0x0C, 0x0D, 0x20, 0x85, 0xA0, 0x1680, 0x2028, 0x2029, 0x202F, 0x205F, 0x3000}
     \<or> 0x2000 \<le> r \<and> r \<le> 0x200A"

section \<open>Decoding inverts encoding\<close>

lemma byte_val_char_of: "n < 256 \<Longrightarrow> byte_val (char_of n) = n"
  by simp

lemma encode_rune_nonempty: "encode_rune r \<noteq> []"
  by (simp add: encode_rune_def Let_def)

lemma valid_rune_error [simp]: "valid_rune rune_error"
  by (simp add: valid_rune_def rune_error_def)

lemma decode_encode_1: "r < 0x80 \<Longrightarrow> decode_rune (encode_rune r @ t) = (r, 1)"
  by (simp add: encode_rune_def decode_rune_def decode_bytes_def valid_rune_def)

lemma decode_encode_2:
  assumes "0x80 \<le> r" "r < 0x800"
  shows "decode_rune (encode_rune r @ t) = (r, 2)"
proof -
  define a b where "a = r div 64" and "b = r mod 64"
  have r: "r = a * 64 + b"
    unfolding a_def b_def by presburger
  have bounds: "2 \<le> a" "a < 32" "b < 64"
    using assms by (auto simp: a_def b_def)
  have enc: "encode_rune r = [char_of (0xC0 + a), char_of (0x80 + b)]"
    using assms by (simp add: encode_rune_def valid_rune_def a_def b_def)
  show ?thesis
    using bounds r unfolding enc decode_rune_def
    by (simp add: decode_bytes_def decode2_def second_ok_def)
qed

lemma decode_encode_3:
  assumes "0x800 \<le> r" "r < 0x10000" "valid_rune r"
  shows "decode_rune (encode_rune r @ t) = (r, 3)"
proof -
  define a b c where "a = r div 4096" and "b = r div 64 mod 64" and "c = r mod 64"
  have "r div 64 div 64 = a" by (simp add: a_def flip: div_mult2_eq)
  then have r: "r = a * 4096 + b * 64 + c"
    using div_mult_mod_eq [of r 64] div_mult_mod_eq [of "r div 64" 64]
    unfolding b_def c_def by linarith
  have bounds: "a < 16" "b < 64" "c < 64"
    using assms by (auto simp: a_def b_def c_def)
  have low: "a = 0 \<Longrightarrow> 32 \<le> b" and sur: "a = 13 \<Longrightarrow> b < 32"
    using r assms bounds by (auto simp: valid_rune_def)
  have enc: "encode_rune r = [char_of (0xE0 + a), char_of (0x80 + b), char_of (0x80 + c)]"
    using assms by (simp add: encode_rune_def a_def b_def c_def)
  have "second_ok (0xE0 + a) (0x80 + b)"
    using bounds low sur by (auto simp: second_ok_def)
  then show ?thesis
    using bounds r unfolding enc decode_rune_def
    by (simp add: decode_bytes_def decode3_def cont_byte_def)
qed

lemma decode_encode_4:
  assumes "0x10000 \<le> r" "valid_rune r"
  shows "decode_rune (encode_rune r @ t) = (r, 4)"
proof -
  define a b c d where "a = r div 262144" and "b = r div 4096 mod 64"
    and "c = r div 64 mod 64" and "d = r mod 64"
  have "r div 64 div 64 = r div 4096" "r div 4096 div 64 = a"
    by (simp_all add: a_def flip: div_mult2_eq)
  then have r: "r = a * 262144 + b * 4096 + c * 64 + d"
    using div_mult_mod_eq [of r 64] div_mult_mod_eq [of "r div 64" 64]
      div_mult_mod_eq [of "r div 4096" 64]
    unfolding b_def c_def d_def by linarith
  have bounds: "a < 5" "b < 64" "c < 64" "d < 64"
    using assms by (auto simp: a_def b_def c_def d_def valid_rune_def)
  have low: "a = 0 \<Longrightarrow> 16 \<le> b" and high: "a = 4 \<Longrightarrow> b < 16"
    using r assms bounds by (auto simp: valid_rune_def)
  have enc: "encode_rune r =
      [char_of (0xF0 + a), char_of (0x80 + b), char_of (0x80 + c), char_of (0x80 + d)]"
    using assms by (simp add: encode_rune_def a_def b_def c_def d_def)
  have "second_ok (0xF0 + a) (0x80 + b)"
    using bounds low high by (auto simp: second_ok_def)
  then show ?thesis
    using bounds r unfolding enc decode_rune_def
    by (simp add: decode_bytes_def decode4_def cont_byte_def)
qed

lemma decode_encode:
  assumes "valid_rune r"
  shows "decode_rune (encode_rune r @ t) = (r, length (encode_rune r))"
proof -
  consider "r < 0x80" | "0x80 \<le> r" "r < 0x800" | "0x800 \<le> r" "r < 0x10000" | "0x10000 \<le> r"
    by linarith
  then show ?thesis
  proof cases
    case 1
    then have "length (encode_rune r) = 1" using assms by (simp add: encode_rune_def valid_rune_def)
    then show ?thesis using 1 assms by (simp add: decode_encode_1)
  next
    case 2
    then have "length (encode_rune r) = 2" using assms by (simp add: encode_rune_def valid_rune_def)
    then show ?thesis using 2 assms by (simp add: decode_encode_2)
  next
    case 3
    then have "length (encode_rune r) = 3" using assms by (simp add: encode_rune_def valid_rune_def)
    then show ?thesis using 3 assms by (simp add: decode_encode_3)
  next
    case 4
    then have "length (encode_rune r) = 4" using assms by (simp add: encode_rune_def valid_rune_def)
    then show ?thesis using 4 assms by (simp add: decode_encode_4)
  qed
qed

lemma decode_segs_encode:
  assumes "valid_rune r"
  shows "decode_segs (encode_rune r @ t) = (r, encode_rune r) # decode_segs t"
  using assms
  by (subst decode_segs.simps) (simp add: decode_encode encode_rune_nonempty)

lemma decode_segs_string_of_runes:
  assumes "\<forall>r \<in> set rs. valid_rune r"
  shows "decode_segs (string_of_runes rs @ t) = map (\<lambda>r. (r, encode_rune r)) rs @ decode_segs t"
  using assms
proof (induction rs)
  case Nil
  then show ?case by (simp add: string_of_runes_def)
next
  case (Cons r rs)
  then show ?case
    using decode_segs_encode [of r "string_of_runes rs @ t"] by (simp add: string_of_runes_def)
qed

text \<open>ASCII bytes decode to themselves; these two rules evaluate concrete strings.\<close>

lemma decode_rune_ascii: "byte_val c < 0x80 \<Longrightarrow> decode_rune (c # s) = (byte_val c, 1)"
  by (simp add: decode_rune_def decode_bytes_def)

lemma decode_segs_ascii [simp]:
  "byte_val c < 0x80 \<Longrightarrow> decode_segs (c # s) = (byte_val c, [c]) # decode_segs s"
  by (simp add: decode_segs.simps [of "c # s"] decode_rune_ascii)

lemma decode_segs_replicate: "byte_val c < 0x80 \<Longrightarrow> decode_segs (replicate n c) = replicate n (byte_val c, [c])"
  by (induction n) simp_all

lemma encode_rune_ascii [simp]: "r < 0x80 \<Longrightarrow> encode_rune r = [char_of r]"
  by (simp add: encode_rune_def valid_rune_def)

section \<open>What decoding yields\<close>

lemma second_ok_cont: "second_ok b0 b1 \<Longrightarrow> 0x80 \<le> b1 \<and> b1 \<le> 0xBF"
  by (auto simp: second_ok_def split: if_splits)

lemma decode2_valid: "0xC2 \<le> b0 \<Longrightarrow> b0 \<le> 0xDF \<Longrightarrow> valid_rune (fst (decode2 b0 bs))"
  by (auto simp: decode2_def valid_rune_def second_ok_def rune_error_def split: list.splits)

lemma decode3_valid:
  assumes "0xE0 \<le> b0" "b0 \<le> 0xEF"
  shows "valid_rune (fst (decode3 b0 bs))"
proof -
  have "valid_rune ((b0 - 0xE0) * 4096 + (b1 - 0x80) * 64 + (b2 - 0x80))"
    if "second_ok b0 b1" "cont_byte b2" for b1 b2
  proof -
    consider "b0 = 0xED" | "b0 < 0xED" | "0xED < b0" by linarith
    then show ?thesis
      using assms that second_ok_cont [OF that(1)]
      by cases (auto simp: valid_rune_def second_ok_def cont_byte_def)
  qed
  then show ?thesis by (auto simp: decode3_def split: list.splits)
qed

lemma decode4_valid:
  assumes "0xF0 \<le> b0" "b0 \<le> 0xF4"
  shows "valid_rune (fst (decode4 b0 bs))"
proof -
  have "valid_rune ((b0 - 0xF0) * 262144 + (b1 - 0x80) * 4096 + (b2 - 0x80) * 64 + (b3 - 0x80))"
    if "second_ok b0 b1" "cont_byte b2" "cont_byte b3" for b1 b2 b3
  proof -
    consider "b0 = 0xF0" | "b0 = 0xF4" | "0xF1 \<le> b0" "b0 \<le> 0xF3" using assms by linarith
    then show ?thesis
      using assms that second_ok_cont [OF that(1)]
      by cases (auto simp: valid_rune_def second_ok_def cont_byte_def)
  qed
  then show ?thesis by (auto simp: decode4_def split: list.splits)
qed

text \<open>A rune of more than one byte is made of bytes outside ASCII only.\<close>

lemma decode_bytes_multi:
  assumes "decode_bytes bs = (r, n)" "bs \<noteq> []" "n \<noteq> 1"
  shows "n \<le> 4 \<and> (\<forall>b \<in> set (take n bs). 0x80 \<le> b)"
  using assms
  by (auto simp: decode_bytes_def decode2_def decode3_def decode4_def cont_byte_def
      dest!: second_ok_cont split: list.splits if_splits)

lemma decode_rune_multi:
  assumes "decode_rune s = (r, n)" "s \<noteq> []" "n \<noteq> 1"
  shows "\<forall>c \<in> set (take n s). 0x80 \<le> byte_val c"
proof -
  have "n \<le> 4 \<and> (\<forall>b \<in> set (take n (map byte_val (take 4 s))). 0x80 \<le> b)"
    using assms by (intro decode_bytes_multi [of _ r]) (auto simp: decode_rune_def)
  then show ?thesis by (simp add: take_map min_def)
qed

lemma decode_rune_valid: "valid_rune (fst (decode_rune s))"
  by (auto simp: decode_rune_def decode_bytes_def decode2_valid decode3_valid decode4_valid
      split: list.splits) (simp add: valid_rune_def)

lemma decode_segs_valid: "seg \<in> set (decode_segs s) \<Longrightarrow> valid_rune (fst seg)"
proof (induction s rule: decode_segs.induct)
  case (1 s)
  show ?case
  proof (cases "s = []")
    case True
    with "1.prems" show ?thesis by simp
  next
    case False
    then have "seg = (fst (decode_rune s), take (snd (decode_rune s)) s)
        \<or> seg \<in> set (decode_segs (drop (snd (decode_rune s)) s))"
      using "1.prems" by (simp add: decode_segs.simps [of s] split_beta Let_def)
    then show ?thesis
      using "1.IH" [OF False refl prod.collapse] decode_rune_valid by auto
  qed
qed

lemma runes_of_valid: "\<forall>r \<in> set (runes_of s). valid_rune r"
  by (auto simp: runes_of_def dest: decode_segs_valid)

text \<open>The segments are a partition of the input.\<close>

lemma concat_decode_segs: "concat (map snd (decode_segs s)) = s"
proof (induction s rule: decode_segs.induct)
  case (1 s)
  then show ?case by (subst decode_segs.simps) (auto split: prod.splits)
qed

lemma runes_of_string_of_runes:
  assumes "\<forall>r \<in> set rs. valid_rune r"
  shows "runes_of (string_of_runes rs) = rs"
  using decode_segs_string_of_runes [OF assms, of "[]"] by (simp add: runes_of_def comp_def)

end
