(* ===== verification/Json.thy ===== *)
theory Json
  imports GoMap Utf8
begin

text \<open>
  Records (\<open>transform.Record\<close>, a \<open>map[string]any\<close>) and what \<open>encoding/json\<close> writes for them:
  keys in increasing order, strings quoted rune by rune with the HTML-safe escapes, an invalid
  UTF-8 byte written as the escape of U+FFFD.  The facts the pipeline rests on: a marshalled
  record contains no control byte (so no newline, which is what makes one record one JSONL
  line), and the size of a quoted string is the sum of the sizes of its quoted runes.
\<close>

section \<open>Values and records\<close>

text \<open>
  The dynamic types the program itself stores in a record are strings, booleans and integers.
  \<open>VOther\<close> is any other value, which only a registered extension can put there: it is known by
  what \<open>json.Marshal\<close> makes of it (\<open>None\<close> when the type is unsupported) and by its
  \<open>fmt.Sprint\<close> text.
\<close>

datatype gval =
    VStr bytes
  | VBool bool
  | VInt int
  | VOther "bytes option" bytes

type_synonym go_record = "gval gomap"

definition as_string :: "gval \<Rightarrow> bytes option" where
  "as_string v = (case v of VStr s \<Rightarrow> Some s | _ \<Rightarrow> None)"

lemma as_string_simps [simp]:
  "as_string (VStr s) = Some s" "as_string (VBool b) = None"
  "as_string (VInt i) = None" "as_string (VOther j t) = None"
  by (simp_all add: as_string_def)

lemma as_string_Some: "as_string v = Some s \<longleftrightarrow> v = VStr s"
  by (cases v) auto

section \<open>Quoting strings\<close>

definition hex_digit :: "nat \<Rightarrow> char" where
  "hex_digit d = (if d < 10 then char_of (48 + d) else char_of (87 + d))"

abbreviation BSLASH :: char where
  "BSLASH \<equiv> CHR 0x5C"

abbreviation DQUOTE :: char where
  "DQUOTE \<equiv> CHR 0x22"

text \<open>An ASCII byte: unchanged when it is in the HTML-safe set, escaped otherwise.\<close>

definition html_safe :: "nat \<Rightarrow> bool" where
  "html_safe b \<longleftrightarrow> 0x20 \<le> b \<and> b < 0x80 \<and> b \<notin> {0x22, 0x26, 0x3C, 0x3E, 0x5C}"

definition quote_ascii :: "char \<Rightarrow> bytes" where
  "quote_ascii c = (let b = byte_val c in
     if html_safe b then [c]
     else if b = 0x22 \<or> b = 0x5C then [BSLASH, c]
     else if b = 0x08 then [BSLASH, CHR ''b'']
     else if b = 0x0C then [BSLASH, CHR ''f'']
     else if b = 0x0A then [BSLASH, CHR ''n'']
     else if b = 0x0D then [BSLASH, CHR ''r'']
     else if b = 0x09 then [BSLASH, CHR ''t'']
     else [BSLASH, CHR ''u'', CHR ''0'', CHR ''0'', hex_digit (b div 16), hex_digit (b mod 16)])"

definition quote_seg :: "rune \<times> bytes \<Rightarrow> bytes" where
  "quote_seg seg = (case seg of (r, raw) \<Rightarrow>
     (case raw of
        [c] \<Rightarrow> if byte_val c < 0x80 then quote_ascii c
               else [BSLASH, CHR ''u'', CHR ''f'', CHR ''f'', CHR ''f'', CHR ''d'']
      | _ \<Rightarrow> if r = 0x2028 \<or> r = 0x2029
             then [BSLASH, CHR ''u'', CHR ''2'', CHR ''0'', CHR ''2'', hex_digit (r mod 16)]
             else raw))"

definition json_string :: "bytes \<Rightarrow> bytes" where
  "json_string s = DQUOTE # concat (map quote_seg (decode_segs s)) @ [DQUOTE]"

section \<open>Marshalling records\<close>

definition json_value :: "gval \<Rightarrow> bytes result" where
  "json_value v = (case v of
      VStr s \<Rightarrow> Inr (json_string s)
    | VBool b \<Rightarrow> Inr (if b then ''true'' else ''false'')
    | VInt i \<Rightarrow> Inr (show_int i)
    | VOther (Some j) t \<Rightarrow> Inr j
    | VOther None t \<Rightarrow> failing ''json: unsupported type'')"

fun json_fields :: "go_record \<Rightarrow> bytes list result" where
  "json_fields [] = Inr []"
| "json_fields ((k, v) # m) =
     bind_res (json_value v) (\<lambda>j.
     bind_res (json_fields m) (\<lambda>js.
       Inr ((json_string k @ CHR '':'' # j) # js)))"

definition json_marshal :: "go_record \<Rightarrow> bytes result" where
  "json_marshal m = bind_res (json_fields m) (\<lambda>js.
     Inr (CHR ''{'' # go_join '','' js @ ''}''))"

section \<open>No control bytes in the output\<close>

definition no_ctrl :: "bytes \<Rightarrow> bool" where
  "no_ctrl s \<longleftrightarrow> (\<forall>c \<in> set s. 0x20 \<le> byte_val c)"

lemma no_ctrl_simps [simp]:
  "no_ctrl []" "no_ctrl (c # s) \<longleftrightarrow> 0x20 \<le> byte_val c \<and> no_ctrl s"
  "no_ctrl (s @ t) \<longleftrightarrow> no_ctrl s \<and> no_ctrl t"
  by (auto simp: no_ctrl_def)

lemma no_ctrl_no_newline: "no_ctrl s \<Longrightarrow> NL \<notin> set s"
  by (auto simp: no_ctrl_def)

lemma no_ctrl_concat: "(\<And>x. x \<in> set xs \<Longrightarrow> no_ctrl x) \<Longrightarrow> no_ctrl (concat xs)"
  by (auto simp: no_ctrl_def)

lemma hex_digit_ctrl: "d < 16 \<Longrightarrow> 0x20 \<le> byte_val (hex_digit d)"
  by (auto simp: hex_digit_def)

lemma no_ctrl_quote_ascii: "no_ctrl (quote_ascii c)"
proof -
  have "byte_val c div 16 < 16" "byte_val c mod 16 < 16"
    using nat_of_char_less_256 [of c] by linarith+
  then show ?thesis
    by (auto simp: quote_ascii_def Let_def html_safe_def hex_digit_ctrl)
qed

text \<open>A segment of two or more bytes has no ASCII byte.\<close>

lemma decode_segs_raw:
  assumes "(r, raw) \<in> set (decode_segs s)"
  shows "raw \<noteq> [] \<and> (length raw = 1 \<or> (\<forall>c \<in> set raw. 0x80 \<le> byte_val c))"
  using assms
proof (induction s rule: decode_segs.induct)
  case (1 s)
  obtain q n where q: "decode_rune s = (q, n)" by force
  show ?case
  proof (cases "s = []")
    case True
    with "1.prems" show ?thesis by simp
  next
    case False
    have head: "take n s \<noteq> [] \<and> (length (take n s) = 1 \<or> (\<forall>c \<in> set (take n s). 0x80 \<le> byte_val c))"
      using False decode_rune_multi [OF q False] decode_rune_size [OF False]
      by (cases "n = 1") (auto simp: q neq_Nil_conv)
    from "1.prems" False q consider "raw = take n s" | "(r, raw) \<in> set (decode_segs (drop n s))"
      by (auto simp: decode_segs.simps [of s])
    then show ?thesis
      using head "1.IH" [OF False refl q [symmetric]] by cases auto
  qed
qed

lemma no_ctrl_quote_seg:
  assumes "seg \<in> set (decode_segs s)"
  shows "no_ctrl (quote_seg seg)"
proof -
  obtain r raw where seg: "seg = (r, raw)" by force
  note raw = decode_segs_raw [OF assms [unfolded seg]]
  show ?thesis
  proof (cases "\<exists>c. raw = [c]")
    case True
    then show ?thesis by (auto simp: seg quote_seg_def no_ctrl_quote_ascii)
  next
    case False
    then have "\<forall>c \<in> set raw. 0x20 \<le> byte_val c"
      using raw by (auto simp: length_Suc_conv)
    with False show ?thesis
      by (auto simp: seg quote_seg_def no_ctrl_def hex_digit_ctrl split: list.splits)
  qed
qed

lemma no_ctrl_json_string: "no_ctrl (json_string s)"
  by (auto simp: json_string_def intro!: no_ctrl_concat no_ctrl_quote_seg)

text \<open>What extension values must satisfy for the claim: their JSON is compact, as \<open>json.Marshal\<close> makes it.\<close>

definition compact_values :: "go_record \<Rightarrow> bool" where
  "compact_values m \<longleftrightarrow> (\<forall>(k, v) \<in> set m. case v of VOther (Some j) t \<Rightarrow> no_ctrl j | _ \<Rightarrow> True)"

lemma no_ctrl_json_value:
  assumes "json_value v = Inr j" "case v of VOther (Some j) t \<Rightarrow> no_ctrl j | _ \<Rightarrow> True"
  shows "no_ctrl j"
  using assms show_int_bytes
  by (auto simp: json_value_def no_ctrl_json_string split: gval.splits option.splits if_splits)
     (auto simp: no_ctrl_def)

lemma no_ctrl_json_fields:
  "\<lbrakk>json_fields m = Inr js; compact_values m\<rbrakk> \<Longrightarrow> \<forall>f \<in> set js. no_ctrl f"
proof (induction m arbitrary: js)
  case Nil
  then show ?case by simp
next
  case (Cons e m)
  obtain k v where e: "e = (k, v)" by force
  from Cons.prems obtain j js' where j: "json_value v = Inr j" "json_fields m = Inr js'"
      and js: "js = (json_string k @ CHR '':'' # j) # js'"
    by (auto simp: e bind_res_eq_Inr)
  have "no_ctrl j" "compact_values m"
    using Cons.prems no_ctrl_json_value [OF j(1)] by (auto simp: e compact_values_def)
  then show ?case
    using Cons.IH [OF j(2)] no_ctrl_json_string by (simp add: js)
qed

lemma no_ctrl_json_marshal:
  assumes "json_marshal m = Inr p" "compact_values m"
  shows "no_ctrl p"
proof -
  obtain js where js: "json_fields m = Inr js" and p: "p = CHR ''{'' # go_join '','' js @ ''}''"
    using assms(1) by (auto simp: json_marshal_def bind_res_eq_Inr)
  have "no_ctrl (go_join '','' js)"
    using no_ctrl_json_fields [OF js assms(2)] go_join_set [of _ "'',''" js]
    by (fastforce simp: no_ctrl_def)
  then show ?thesis by (simp add: p)
qed

section \<open>Sizes\<close>

text \<open>Quoting a text of valid runes followed by a suffix quotes the two parts separately.\<close>

lemma json_string_runes_append:
  assumes "\<forall>r \<in> set rs. valid_rune r"
  shows "length (json_string (string_of_runes rs @ t)) =
     sum_list (map (\<lambda>r. length (quote_seg (r, encode_rune r))) rs) + length (json_string t)"
  using decode_segs_string_of_runes [OF assms, of t]
  by (simp add: json_string_def length_concat comp_def)

text \<open>The size of a record with one value exchanged for another.\<close>

definition value_size :: "gval \<Rightarrow> nat option" where
  "value_size v = (case json_value v of Inl e \<Rightarrow> None | Inr j \<Rightarrow> Some (length j))"

lemma json_fields_append:
  "json_fields (m @ n) = bind_res (json_fields m) (\<lambda>js. bind_res (json_fields n) (\<lambda>ks. Inr (js @ ks)))"
proof (induction m)
  case Nil
  then show ?case by (cases "json_fields n") auto
next
  case (Cons e m)
  then show ?case
    by (cases e; cases "json_value (snd e)"; cases "json_fields m"; cases "json_fields n") auto
qed

lemma json_marshal_hole:
  "json_marshal (pre @ (k, v) # post) =
     bind_res (json_fields pre) (\<lambda>js. bind_res (json_value v) (\<lambda>j. bind_res (json_fields post) (\<lambda>ks.
       Inr (CHR ''{'' # go_join '','' (js @ (json_string k @ CHR '':'' # j) # ks) @ ''}''))))"
  by (cases "json_fields pre"; cases "json_value v"; cases "json_fields post")
     (auto simp: json_marshal_def json_fields_append)

lemma json_marshal_hole_size:
  assumes "json_marshal (pre @ (k, VStr s) # post) = Inr p"
  shows "\<exists>p'. json_marshal (pre @ (k, VStr s') # post) = Inr p' \<and>
     length p + length (json_string s') = length p' + length (json_string s)"
  using assms by (auto simp: json_marshal_hole json_value_def bind_res_eq_Inr go_join_length)

lemma json_marshal_hole_error:
  "json_marshal (pre @ (k, VStr s) # post) = Inl e \<Longrightarrow> json_marshal (pre @ (k, VStr s') # post) = Inl e"
  by (cases "json_fields pre"; cases "json_fields post")
     (auto simp: json_marshal_hole json_value_def)

section \<open>Which records can be marshalled\<close>

definition supported :: "go_record \<Rightarrow> bool" where
  "supported m \<longleftrightarrow> (\<forall>e \<in> set m. \<forall>t. snd e \<noteq> VOther None t)"

lemma json_value_supported: "(\<exists>j. json_value v = Inr j) \<longleftrightarrow> (\<forall>t. v \<noteq> VOther None t)"
  by (auto simp: json_value_def split: gval.splits option.splits)

lemma json_fields_supported: "(\<exists>js. json_fields m = Inr js) \<longleftrightarrow> supported m"
proof (induction m)
  case Nil
  then show ?case by (simp add: supported_def)
next
  case (Cons e m)
  then show ?case
    using json_value_supported [of "snd e"]
    by (cases e) (auto simp: supported_def bind_res_eq_Inr)
qed

lemma json_marshal_supported: "(\<exists>p. json_marshal m = Inr p) \<longleftrightarrow> supported m"
  using json_fields_supported [of m] by (auto simp: json_marshal_def bind_res_eq_Inr)

text \<open>Rules that evaluate the JSON of a concrete record.\<close>

lemmas eval_json = json_marshal_def json_string_def json_value_def quote_seg_def quote_ascii_def
  html_safe_def show_int_def show_nat_less_10 show_nat_ge_10 Let_def

end
