(* ===== verification/Truncate.thy ===== *)
theory Truncate
  imports Json
begin

text \<open>
  \<open>internal/pipeline/truncate.go\<close>: fitting a record into \<open>max_publish_bytes\<close> by shortening one
  string field.  The cut is found by binary search over the number of runes kept; the lemmas show
  that the size of the trial record grows with the cut, hence that the search returns the longest
  prefix that fits and that the code after the loop never changes the outcome.
\<close>

section \<open>Trial records\<close>

text \<open>\<open>cloneRecord\<close> copies the map; the model's maps are values, so the copy is the map itself.\<close>

definition clone_record :: "go_record \<Rightarrow> go_record" where
  "clone_record r = r"

definition set_truncation_metadata :: "go_record \<Rightarrow> bytes \<Rightarrow> nat \<Rightarrow> go_record" where
  "set_truncation_metadata r field original_bytes =
     gm_put (gm_put (gm_put r ''publish_truncated'' (VBool True))
       (field @ ''_truncated'') (VBool True))
       (field @ ''_original_bytes'') (VInt (int original_bytes))"

text \<open>The record with the field cut to its first \<open>mid\<close> runes, and its JSON.\<close>

definition trial_record :: "go_record \<Rightarrow> bytes \<Rightarrow> bytes \<Rightarrow> bytes \<Rightarrow> nat \<Rightarrow> go_record" where
  "trial_record r field suffix original mid =
     set_truncation_metadata
       (gm_put (clone_record r) field (VStr (string_of_runes (take mid (runes_of original)) @ suffix)))
       field (length original)"

definition marshal_truncated :: "go_record \<Rightarrow> bytes result" where
  "marshal_truncated trial = (case json_marshal trial of
      Inl e \<Rightarrow> Inl (ErrWrap ''marshal truncated record: '' e)
    | Inr p \<Rightarrow> Inr p)"

lemma marshal_truncated_Inr: "marshal_truncated t = Inr p \<longleftrightarrow> json_marshal t = Inr p"
  by (simp add: marshal_truncated_def split: sum.splits)

section \<open>The search\<close>

text \<open>
  The loop \<open>for low <= high\<close>: \<open>mk mid\<close> is the payload of the trial with \<open>mid\<close> runes.  Go's \<open>/\<close>
  truncates towards zero, which is \<open>div\<close> here because the loop only divides sums that are not negative.
\<close>

function trunc_search ::
    "(nat \<Rightarrow> bytes result) \<Rightarrow> int \<Rightarrow> int \<Rightarrow> int \<Rightarrow> bytes option \<Rightarrow> bytes option result" where
  "trunc_search mk max_bytes low high best =
     (if low \<le> high then
        let mid = (low + high) div 2 in
        (case mk (nat mid) of
           Inl e \<Rightarrow> Inl e
         | Inr p \<Rightarrow>
             if int (length p) \<le> max_bytes then trunc_search mk max_bytes (mid + 1) high (Some p)
             else trunc_search mk max_bytes low (mid - 1) best)
      else Inr best)"
  by pat_completeness auto
termination
  by (relation "measure (\<lambda>(mk, mb, low, high, best). nat (high + 1 - low))") auto

declare trunc_search.simps [simp del]

definition truncate_string_field ::
    "go_record \<Rightarrow> int \<Rightarrow> bytes \<Rightarrow> bytes \<Rightarrow> bytes option result" where
  "truncate_string_field r max_bytes field suffix =
     (case gm_get r field of
        None \<Rightarrow> Inr None
      | Some val \<Rightarrow>
          (case as_string val of
             None \<Rightarrow> Inr None
           | Some original \<Rightarrow>
               let n = length (runes_of original);
                   mk = (\<lambda>mid. marshal_truncated (trial_record r field suffix original mid)) in
               bind_res (trunc_search mk max_bytes 0 (int n) None) (\<lambda>best.
                 case best of
                   Some p \<Rightarrow> Inr (Some p)
                 | None \<Rightarrow>
                     bind_res (marshal_truncated
                       (set_truncation_metadata (gm_put (clone_record r) field (VStr suffix))
                          field (length original))) (\<lambda>p.
                     if int (length p) \<le> max_bytes then Inr (Some p) else Inr None))))"

text \<open>
  \<open>largestStringField\<close> ranges over the map, so which of several longest fields wins depends on
  Go's iteration order: \<open>visit\<close> is that order, a listing of the record's entries.
\<close>

definition largest_step :: "bytes list \<Rightarrow> bytes \<times> nat \<Rightarrow> bytes \<times> gval \<Rightarrow> bytes \<times> nat" where
  "largest_step skip acc e = (case acc of (best_key, best_len) \<Rightarrow>
     if fst e \<in> set skip then acc
     else (case as_string (snd e) of
             None \<Rightarrow> acc
           | Some s \<Rightarrow> if best_len < length s then (fst e, length s) else acc))"

definition largest_string_field :: "(bytes \<times> gval) list \<Rightarrow> bytes list \<Rightarrow> bytes" where
  "largest_string_field visit skip = fst (foldl (largest_step skip) ([], 0) visit)"

fun truncate_fields :: "go_record \<Rightarrow> int \<Rightarrow> bytes \<Rightarrow> bytes list \<Rightarrow> bytes option result" where
  "truncate_fields r max_bytes suffix [] = Inr None"
| "truncate_fields r max_bytes suffix (field # fields) =
     (if field = [] then truncate_fields r max_bytes suffix fields
      else bind_res (truncate_string_field r max_bytes field suffix) (\<lambda>res.
        case res of
          Some p \<Rightarrow> Inr (Some p)
        | None \<Rightarrow> truncate_fields r max_bytes suffix fields))"

definition candidate_fields :: "go_record \<Rightarrow> (bytes \<times> gval) list \<Rightarrow> bytes \<Rightarrow> bytes list" where
  "candidate_fields r visit primary =
     (let use_raw = gm_get r ''_raw'' \<noteq> None \<and> primary \<noteq> ''_raw'';
          fields = (if use_raw then [primary, ''_raw''] else [primary]);
          largest = largest_string_field visit fields in
      if largest \<noteq> [] then fields @ [largest] else fields)"

definition marshal_publish_payload ::
    "go_record \<Rightarrow> (bytes \<times> gval) list \<Rightarrow> int \<Rightarrow> bytes \<Rightarrow> bytes \<Rightarrow> (bytes \<times> bool) result" where
  "marshal_publish_payload r visit max_bytes primary suffix =
     (case json_marshal r of
        Inl e \<Rightarrow> Inl (ErrWrap ''marshal record: '' e)
      | Inr payload \<Rightarrow>
          if max_bytes \<le> 0 \<or> int (length payload) \<le> max_bytes then Inr (payload, False)
          else bind_res (truncate_fields r max_bytes suffix (candidate_fields r visit primary)) (\<lambda>res.
            case res of
              Some p \<Rightarrow> Inr (p, True)
            | None \<Rightarrow> failing (''record exceeds max publish size '' @ show_int max_bytes
                        @ '' bytes after truncation'')))"

section \<open>The trial grows with the cut\<close>

text \<open>
  A family of records is a hole at \<open>k\<close> when the members differ only in the value stored at one
  place.  Storing a value gives a hole, storing another key keeps it.
\<close>

definition hole_at :: "bytes \<Rightarrow> (gval \<Rightarrow> go_record) \<Rightarrow> bool" where
  "hole_at k F \<longleftrightarrow> (\<exists>pre post. \<forall>v. F v = pre @ (k, v) # post)"

lemma hole_put: "hole_at k (gm_put m k)"
proof (induction m)
  case Nil
  show ?case by (auto simp: hole_at_def intro: exI [of _ "[]"])
next
  case (Cons e m)
  show ?case
  proof (cases "k = fst e \<or> k < fst e")
    case True
    then have "\<exists>post. \<forall>v. gm_put (e # m) k v = [] @ (k, v) # post" by auto
    then show ?thesis unfolding hole_at_def by blast
  next
    case False
    obtain pre post where "\<forall>v. gm_put m k v = pre @ (k, v) # post"
      using Cons by (auto simp: hole_at_def)
    with False have "\<forall>v. gm_put (e # m) k v = (e # pre) @ (k, v) # post" by auto
    then show ?thesis unfolding hole_at_def by blast
  qed
qed

lemma hole_put_other_list:
  assumes "k' \<noteq> k"
  shows "\<exists>pre' post'. \<forall>v. gm_put (pre @ (k, v) # post) k' w = pre' @ (k, v) # post'"
proof (induction pre)
  case Nil
  show ?case
  proof (cases "k' < k")
    case True
    with assms have "\<forall>v. gm_put ([] @ (k, v) # post) k' w = [(k', w)] @ (k, v) # post" by simp
    then show ?thesis by blast
  next
    case False
    with assms have "\<forall>v. gm_put ([] @ (k, v) # post) k' w = [] @ (k, v) # gm_put post k' w" by simp
    then show ?thesis by blast
  qed
next
  case (Cons e pre)
  show ?case
  proof (cases "k' = fst e \<or> k' < fst e")
    case True
    then have "\<exists>pre'. \<forall>v. gm_put ((e # pre) @ (k, v) # post) k' w = pre' @ (k, v) # post"
      by (cases "k' = fst e") (auto intro: exI [of _ "(k', w) # pre"] exI [of _ "(k', w) # e # pre"])
    then show ?thesis by blast
  next
    case False
    obtain pre' post' where "\<forall>v. gm_put (pre @ (k, v) # post) k' w = pre' @ (k, v) # post'"
      using Cons by blast
    with False have "\<forall>v. gm_put ((e # pre) @ (k, v) # post) k' w = (e # pre') @ (k, v) # post'" by simp
    then show ?thesis by blast
  qed
qed

lemma hole_put_other: "\<lbrakk>hole_at k F; k' \<noteq> k\<rbrakk> \<Longrightarrow> hole_at k (\<lambda>v. gm_put (F v) k' w)"
  unfolding hole_at_def using hole_put_other_list [of k' k] by metis

lemma gm_put_put_same: "gm_put (gm_put m k v) k w = gm_put m k w"
  by (induction m k v rule: gm_put.induct) auto

lemma hole_size:
  assumes "hole_at k F" "json_marshal (F (VStr s)) = Inr p"
  shows "\<exists>p'. json_marshal (F (VStr s')) = Inr p' \<and>
     length p + length (json_string s') = length p' + length (json_string s)"
  using assms json_marshal_hole_size unfolding hole_at_def by metis

lemma hole_error:
  assumes "hole_at k F" "json_marshal (F (VStr s)) = Inl e"
  shows "json_marshal (F (VStr s')) = Inl e"
  using assms json_marshal_hole_error unfolding hole_at_def by metis

text \<open>The quoted text of a cut is no longer than that of a later cut.\<close>

lemma cut_size_mono:
  assumes "i \<le> j"
  shows "length (json_string (string_of_runes (take i (runes_of s)) @ t))
       \<le> length (json_string (string_of_runes (take j (runes_of s)) @ t))"
proof -
  have "\<forall>r \<in> set (take n (runes_of s)). valid_rune r" for n
    using runes_of_valid [of s] by (meson in_set_takeD)
  then show ?thesis
    using sum_list_take_mono [OF assms, of "\<lambda>r. length (quote_seg (r, encode_rune r))"]
    by (simp add: json_string_runes_append)
qed

definition mk_trial :: "go_record \<Rightarrow> bytes \<Rightarrow> bytes \<Rightarrow> bytes \<Rightarrow> nat \<Rightarrow> bytes result" where
  "mk_trial r field suffix original mid = marshal_truncated (trial_record r field suffix original mid)"

text \<open>Either no trial can be marshalled, or all can and their sizes grow with the cut.\<close>

definition growing :: "(nat \<Rightarrow> bytes result) \<Rightarrow> bool" where
  "growing mk \<longleftrightarrow> (\<forall>i p. mk i = Inr p \<longrightarrow> (\<forall>j. \<exists>p'. mk j = Inr p' \<and> (i \<le> j \<longrightarrow> length p \<le> length p')))"

lemma trial_growing: "growing (mk_trial r field suffix original)"
proof (cases "field = ''publish_truncated''")
  case True
  then have "trial_record r field suffix original i = trial_record r field suffix original j" for i j
    by (simp add: trial_record_def set_truncation_metadata_def gm_put_put_same)
  then have "mk_trial r field suffix original i = mk_trial r field suffix original j" for i j
    unfolding mk_trial_def by metis
  then show ?thesis unfolding growing_def by (metis order_refl)
next
  case False
  define F where "F = (\<lambda>v. set_truncation_metadata (gm_put r field v) field (length original))"
  have hole: "hole_at field F"
    unfolding F_def set_truncation_metadata_def
    using False by (intro hole_put_other hole_put) auto
  have trial: "trial_record r field suffix original i =
      F (VStr (string_of_runes (take i (runes_of original)) @ suffix))" for i
    by (simp add: F_def trial_record_def clone_record_def)
  show ?thesis
    unfolding growing_def
  proof (intro allI impI)
    fix i p j
    assume "mk_trial r field suffix original i = Inr p"
    then have "json_marshal (trial_record r field suffix original i) = Inr p"
      by (auto simp: mk_trial_def marshal_truncated_def split: sum.splits)
    then obtain p' where p': "json_marshal (trial_record r field suffix original j) = Inr p'"
      and len: "length p + length (json_string (string_of_runes (take j (runes_of original)) @ suffix))
        = length p' + length (json_string (string_of_runes (take i (runes_of original)) @ suffix))"
      using hole_size [OF hole] unfolding trial by blast
    have "i \<le> j \<longrightarrow> length p \<le> length p'"
      using len cut_size_mono [of i j original suffix] by linarith
    with p' show "\<exists>p'. mk_trial r field suffix original j = Inr p' \<and> (i \<le> j \<longrightarrow> length p \<le> length p')"
      by (simp add: mk_trial_def marshal_truncated_def)
  qed
qed

section \<open>The search finds the longest cut that fits\<close>

definition fits :: "(nat \<Rightarrow> bytes result) \<Rightarrow> int \<Rightarrow> nat \<Rightarrow> bool" where
  "fits mk max_bytes i \<longleftrightarrow> (\<exists>p. mk i = Inr p \<and> int (length p) \<le> max_bytes)"

lemma fits_down: "\<lbrakk>growing mk; fits mk mb j; i \<le> j\<rbrakk> \<Longrightarrow> fits mk mb i"
  unfolding growing_def fits_def
  by (metis (no_types, opaque_lifting) nat_int_comparison(3) order_trans sum.inject(2))

text \<open>
  Loop invariant: everything below \<open>low\<close> fits, nothing above \<open>high\<close> does, and \<open>best\<close> is the
  payload of \<open>low - 1\<close> (none yet when \<open>low\<close> is 0).
\<close>

definition search_inv :: "(nat \<Rightarrow> bytes result) \<Rightarrow> int \<Rightarrow> nat \<Rightarrow> int \<Rightarrow> int \<Rightarrow> bytes option \<Rightarrow> bool" where
  "search_inv mk mb n low high best \<longleftrightarrow>
     0 \<le> low \<and> low \<le> high + 1 \<and> high \<le> int n \<and>
     (\<forall>i \<le> n. high < int i \<longrightarrow> \<not> fits mk mb i) \<and>
     (case best of
        None \<Rightarrow> low = 0
      | Some p \<Rightarrow> 0 < low \<and> mk (nat (low - 1)) = Inr p \<and> int (length p) \<le> mb)"

lemma trunc_search_spec:
  assumes "growing mk" "search_inv mk mb n low high best" "trunc_search mk mb low high best = Inr res"
  shows "case res of
      None \<Rightarrow> \<forall>i \<le> n. \<not> fits mk mb i
    | Some p \<Rightarrow> \<exists>k \<le> n. mk k = Inr p \<and> int (length p) \<le> mb \<and> (\<forall>i \<le> n. k < i \<longrightarrow> \<not> fits mk mb i)"
  using assms
proof (induction mk mb low high best rule: trunc_search.induct)
  case (1 mk mb low high best)
  define mid where "mid = (low + high) div 2"
  show ?case
  proof (cases "low \<le> high")
    case False
    with "1.prems" have "res = best" and eq: "high = low - 1"
      by (auto simp: trunc_search.simps [of mk mb low high best] search_inv_def)
    then show ?thesis
    proof (cases best)
      case None
      with \<open>res = best\<close> eq "1.prems"(2) show ?thesis by (auto simp: search_inv_def)
    next
      case (Some p)
      with \<open>res = best\<close> eq "1.prems"(2) show ?thesis
        by (auto simp: search_inv_def intro!: exI [of _ "nat (low - 1)"])
    qed
  next
    case True
    have mid: "low \<le> mid" "mid \<le> high" using True by (auto simp: mid_def)
    have nonneg: "0 \<le> low" "high \<le> int n" using "1.prems"(2) by (auto simp: search_inv_def)
    obtain p where p: "mk (nat mid) = Inr p"
      using "1.prems"(3) True
      by (auto simp: trunc_search.simps [of mk mb low high best] mid_def Let_def split: sum.splits)
    show ?thesis
    proof (cases "int (length p) \<le> mb")
      case fit: True
      have "search_inv mk mb n (mid + 1) high (Some p)"
        using "1.prems"(2) mid nonneg p fit by (auto simp: search_inv_def)
      moreover have "trunc_search mk mb (mid + 1) high (Some p) = Inr res"
        using "1.prems"(3) True p fit
        by (simp add: trunc_search.simps [of mk mb low high best] mid_def Let_def)
      ultimately show ?thesis
        using "1.IH"(1) [OF True mid_def p fit "1.prems"(1)] by simp
    next
      case nofit: False
      have "\<not> fits mk mb (nat mid)" using p nofit by (auto simp: fits_def)
      then have "\<forall>i \<le> n. mid - 1 < int i \<longrightarrow> \<not> fits mk mb i"
        using fits_down [OF "1.prems"(1)] by (metis nat_le_iff zle_diff1_eq not_le)
      then have "search_inv mk mb n low (mid - 1) best"
        using "1.prems"(2) mid nonneg by (auto simp: search_inv_def)
      moreover have "trunc_search mk mb low (mid - 1) best = Inr res"
        using "1.prems"(3) True p nofit
        by (simp add: trunc_search.simps [of mk mb low high best] mid_def Let_def)
      ultimately show ?thesis
        using "1.IH"(2) [OF True mid_def p nofit "1.prems"(1)] by simp
    qed
  qed
qed

section \<open>The outcome of truncating one field\<close>

text \<open>The record the code tries after the loop is the trial with no rune kept.\<close>

lemma fallback_is_trial_0:
  "marshal_truncated (set_truncation_metadata (gm_put (clone_record r) field (VStr suffix))
     field (length original)) = mk_trial r field suffix original 0"
  by (simp add: mk_trial_def trial_record_def string_of_runes_def)

lemma search_start: "search_inv mk mb n 0 (int n) None"
  by (auto simp: search_inv_def)

lemma truncate_string_field_eq:
  assumes "gm_get r field = Some (VStr s)"
  shows "truncate_string_field r mb field suffix =
    trunc_search (mk_trial r field suffix s) mb 0 (int (length (runes_of s))) None"
proof -
  let ?mk = "mk_trial r field suffix s" and ?n = "length (runes_of s)"
  have spec: "\<forall>i \<le> ?n. \<not> fits ?mk mb i" if "trunc_search ?mk mb 0 (int ?n) None = Inr None"
    using trunc_search_spec [OF trial_growing search_start that] by simp
  have mk: "(\<lambda>mid. marshal_truncated (trial_record r field suffix s mid)) = ?mk"
    by (simp add: mk_trial_def fun_eq_iff)
  show ?thesis
  proof (cases "trunc_search ?mk mb 0 (int ?n) None")
    case (Inl e)
    then show ?thesis using assms by (simp add: truncate_string_field_def mk Let_def)
  next
    case (Inr best)
    show ?thesis
    proof (cases best)
      case (Some p)
      with Inr assms show ?thesis by (simp add: truncate_string_field_def mk Let_def)
    next
      case None
      have "trunc_search ?mk mb 0 (int ?n) None = Inr None" using Inr None by simp
      moreover from this obtain p where "?mk (nat ((0 + int ?n) div 2)) = Inr p"
        by (cases "?mk (nat ((0 + int ?n) div 2))") (simp_all add: trunc_search.simps [of ?mk mb 0] Let_def)
      then obtain q where "?mk 0 = Inr q"
        using trial_growing [of r field suffix s] unfolding growing_def by blast
      ultimately show ?thesis
        using assms spec
        by (auto simp: truncate_string_field_def mk Let_def fallback_is_trial_0 fits_def)
    qed
  qed
qed

lemma truncate_string_field_cases:
  assumes "truncate_string_field r mb field suffix = Inr (Some p)"
  obtains s where "gm_get r field = Some (VStr s)"
  using assms unfolding truncate_string_field_def
  by (auto simp: as_string_Some split: option.splits)

lemma truncate_string_field_fits:
  assumes "truncate_string_field r mb field suffix = Inr (Some p)"
  shows "\<exists>s k. gm_get r field = Some (VStr s) \<and> k \<le> length (runes_of s) \<and>
     json_marshal (trial_record r field suffix s k) = Inr p \<and> int (length p) \<le> mb"
proof -
  obtain s where s: "gm_get r field = Some (VStr s)"
    using truncate_string_field_cases [OF assms] by blast
  show ?thesis
    using trunc_search_spec [OF trial_growing search_start assms [unfolded truncate_string_field_eq [OF s]]] s
    by (auto simp: mk_trial_def marshal_truncated_Inr)
qed

lemma truncate_fields_fits:
  assumes "truncate_fields r mb suffix fields = Inr (Some p)"
  shows "\<exists>field \<in> set fields. \<exists>s k. gm_get r field = Some (VStr s) \<and>
     json_marshal (trial_record r field suffix s k) = Inr p \<and> int (length p) \<le> mb"
  using assms
proof (induction r mb suffix fields rule: truncate_fields.induct)
  case (1 r mb suffix)
  then show ?case by simp
next
  case (2 r mb suffix field fields)
  show ?case
  proof (cases "field = []")
    case True
    with 2 show ?thesis by auto
  next
    case False
    then obtain res where res: "truncate_string_field r mb field suffix = Inr res"
      using "2.prems" by (auto simp: bind_res_eq_Inr)
    show ?thesis
    proof (cases res)
      case None
      with 2 False res show ?thesis by auto
    next
      case (Some q)
      with False res "2.prems" have "q = p" by simp
      with Some res truncate_string_field_fits [of r mb field suffix p] show ?thesis by auto
    qed
  qed
qed

lemma marshal_publish_cases:
  assumes "marshal_publish_payload r visit mb primary suffix = Inr (p, t)"
  obtains (whole) "\<not> t" "json_marshal r = Inr p" "mb \<le> 0 \<or> int (length p) \<le> mb"
    | (cut) field s k where "t" "gm_get r field = Some (VStr s)"
        "json_marshal (trial_record r field suffix s k) = Inr p" "int (length p) \<le> mb"
proof -
  obtain q where q: "json_marshal r = Inr q"
    using assms by (cases "json_marshal r") (auto simp: marshal_publish_payload_def)
  show ?thesis
  proof (cases "mb \<le> 0 \<or> int (length q) \<le> mb")
    case True
    then show ?thesis using assms q whole by (auto simp: marshal_publish_payload_def)
  next
    case False
    then have "t" "truncate_fields r mb suffix (candidate_fields r visit primary) = Inr (Some p)"
      using assms q
      by (auto simp: marshal_publish_payload_def bind_res_eq_Inr split: option.splits)
    then show ?thesis using truncate_fields_fits cut by blast
  qed
qed

text \<open>Marshalling a trial fails only if marshalling the record fails, so the search always ends well.\<close>

lemma trunc_search_total:
  assumes "growing mk" "mk i = Inr q"
  shows "\<exists>res. trunc_search mk mb low high best = Inr res"
  using assms
proof (induction mk mb low high best rule: trunc_search.induct)
  case (1 mk mb low high best)
  obtain p where p: "mk (nat ((low + high) div 2)) = Inr p"
    using "1.prems" unfolding growing_def by blast
  show ?case
  proof (cases "low \<le> high")
    case True
    with p "1.IH"(1) [OF True refl p _ "1.prems"] "1.IH"(2) [OF True refl p _ "1.prems"]
    show ?thesis by (simp add: trunc_search.simps [of mk mb low high best] Let_def)
  next
    case False
    then show ?thesis by (simp add: trunc_search.simps [of mk mb low high best])
  qed
qed

section \<open>What a trial record holds\<close>

lemma trial_record_get:
  "gm_get (trial_record r field suffix s k) key =
    (if key = field @ ''_original_bytes'' then Some (VInt (int (length s)))
     else if key = field @ ''_truncated'' \<or> key = ''publish_truncated'' then Some (VBool True)
     else if key = field then Some (VStr (string_of_runes (take k (runes_of s)) @ suffix))
     else gm_get r key)"
  by (simp add: trial_record_def set_truncation_metadata_def clone_record_def go_map_simps)

lemma gm_put_set: "set (gm_put m k v) \<subseteq> insert (k, v) (set m)"
  by (induction m k v rule: gm_put.induct) auto

lemma compact_put:
  "\<lbrakk>compact_values m; \<forall>j t. v \<noteq> VOther (Some j) t\<rbrakk> \<Longrightarrow> compact_values (gm_put m k v)"
  using gm_put_set [of m k v]
  by (fastforce simp: compact_values_def split: gval.splits option.splits)

lemma compact_trial: "compact_values r \<Longrightarrow> compact_values (trial_record r field suffix s k)"
  by (simp add: trial_record_def set_truncation_metadata_def clone_record_def compact_put)

section \<open>When truncation succeeds\<close>

definition suffix_fits :: "go_record \<Rightarrow> int \<Rightarrow> bytes \<Rightarrow> bytes \<Rightarrow> bool" where
  "suffix_fits r mb suffix field \<longleftrightarrow> (\<exists>s q0. gm_get r field = Some (VStr s) \<and>
     json_marshal (trial_record r field suffix s 0) = Inr q0 \<and> int (length q0) \<le> mb)"

lemma supported_put: "\<lbrakk>supported m; \<forall>t. v \<noteq> VOther None t\<rbrakk> \<Longrightarrow> supported (gm_put m k v)"
  using gm_put_set [of m k v] by (fastforce simp: supported_def)

lemma trial_total: "supported r \<Longrightarrow> \<exists>p. mk_trial r field suffix s k = Inr p"
  unfolding mk_trial_def marshal_truncated_Inr json_marshal_supported
  by (simp add: trial_record_def set_truncation_metadata_def clone_record_def supported_put)

lemma truncate_string_field_iff:
  assumes "supported r"
  shows "\<exists>res. truncate_string_field r mb field suffix = Inr res \<and> (res \<noteq> None \<longleftrightarrow> suffix_fits r mb suffix field)"
proof (cases "\<exists>s. gm_get r field = Some (VStr s)")
  case False
  then have "truncate_string_field r mb field suffix = Inr None"
    by (auto simp: truncate_string_field_def as_string_def split: option.splits gval.splits)
  with False show ?thesis by (auto simp: suffix_fits_def)
next
  case True
  then obtain s where s: "gm_get r field = Some (VStr s)" by blast
  let ?mk = "mk_trial r field suffix s" and ?n = "length (runes_of s)"
  obtain q where q: "?mk 0 = Inr q" using trial_total [OF assms] by blast
  obtain res where res: "trunc_search ?mk mb 0 (int ?n) None = Inr res"
    using trunc_search_total [OF trial_growing q] by blast
  note spec = trunc_search_spec [OF trial_growing search_start res]
  have "res \<noteq> None \<longleftrightarrow> fits ?mk mb 0"
  proof (cases res)
    case None
    with spec show ?thesis by simp
  next
    case (Some p)
    with spec obtain k where "fits ?mk mb k" by (auto simp: fits_def)
    with Some fits_down [OF trial_growing] show ?thesis by blast
  qed
  moreover have "fits ?mk mb 0 \<longleftrightarrow> suffix_fits r mb suffix field"
    using s by (simp add: fits_def suffix_fits_def mk_trial_def marshal_truncated_Inr)
  ultimately show ?thesis
    using res truncate_string_field_eq [OF s] by simp
qed

lemma truncate_fields_iff:
  assumes "supported r"
  shows "(\<exists>p. truncate_fields r mb suffix fields = Inr (Some p)) \<longleftrightarrow>
     (\<exists>field \<in> set fields. field \<noteq> [] \<and> suffix_fits r mb suffix field)"
proof (induction fields)
  case Nil
  then show ?case by simp
next
  case (Cons field fields)
  obtain res where res: "truncate_string_field r mb field suffix = Inr res"
      "res \<noteq> None \<longleftrightarrow> suffix_fits r mb suffix field"
    using truncate_string_field_iff [OF assms] by blast
  show ?case
  proof (cases res)
    case None
    with res Cons.IH show ?thesis by auto
  next
    case (Some p)
    with res Cons.IH show ?thesis by auto
  qed
qed

lemma marshal_publish_succeeds:
  assumes "json_marshal r = Inr q" "0 < mb" "mb < int (length q)" "primary \<noteq> []"
    and "suffix_fits r mb suffix primary"
  shows "\<exists>p. marshal_publish_payload r visit mb primary suffix = Inr (p, True)"
proof -
  have "supported r" using assms(1) json_marshal_supported by blast
  then have "\<exists>p. truncate_fields r mb suffix (candidate_fields r visit primary) = Inr (Some p)"
    using assms(4,5) truncate_fields_iff by (force simp: candidate_fields_def Let_def)
  with assms(1-3) show ?thesis by (auto simp: marshal_publish_payload_def)
qed

text \<open>A record for the witnesses: fourteen control bytes, which quote to 84 bytes.\<close>

definition sample_record :: go_record where
  "sample_record = [(''m'', VStr (replicate 14 (CHR 0x01)))]"

lemma sample_marshal: "\<exists>q. json_marshal sample_record = Inr q \<and> length q = 92"
  by (simp add: sample_record_def eval_json decode_segs_replicate length_concat sum_list_replicate)

lemma sample_get: "gm_get sample_record ''m'' = Some (VStr (replicate 14 (CHR 0x01)))"
  by (simp add: sample_record_def gm_get_def)

lemma sample_trial_0:
  "\<exists>q. json_marshal (trial_record sample_record ''m'' [] (replicate 14 (CHR 0x01)) 0) = Inr q \<and> length q = 74"
  by (simp add: sample_record_def eval_json trial_record_def set_truncation_metadata_def
      clone_record_def string_of_runes_def)

lemma sample_compact: "compact_values sample_record"
  by (simp add: compact_values_def sample_record_def)

lemma sample_publish: "\<exists>p. marshal_publish_payload sample_record [] 80 ''m'' [] = Inr (p, True)"
  using sample_marshal sample_trial_0 sample_get
  by (auto intro!: marshal_publish_succeeds simp: suffix_fits_def)

section \<open>Properties of the publish payload\<close>

text \<open>
  C19.  A payload handed to the sink never exceeds the configured limit: whatever the record, the
  primary field, the suffix and the order in which Go visits the map.
\<close>

theorem publish_payload_within_limit:
  assumes "marshal_publish_payload r visit max_bytes primary suffix = Inr (p, t)" "0 < max_bytes"
  shows "int (length p) \<le> max_bytes"
  using assms(1)
proof (cases rule: marshal_publish_cases)
  case whole
  with assms(2) show ?thesis by simp
next
  case cut
  then show ?thesis by simp
qed

theorem publish_payload_within_limit_witness:
  "\<exists>p. marshal_publish_payload sample_record [] 80 ''m'' [] = Inr (p, True) \<and> int (length p) \<le> 80"
  using sample_publish publish_payload_within_limit [of sample_record "[]" 80 "''m''" "[]" _ True] by auto

text \<open>
  C20.  Truncation keeps as much of the field as possible: the payload is the record with the field
  cut to some number of runes, and no longer cut of that field fits the limit.
\<close>

theorem truncate_keeps_longest_prefix:
  assumes "truncate_string_field r max_bytes field suffix = Inr (Some p)"
    and "gm_get r field = Some (VStr s)"
  shows "\<exists>k \<le> length (runes_of s). marshal_truncated (trial_record r field suffix s k) = Inr p \<and>
     int (length p) \<le> max_bytes \<and>
     (\<forall>i \<le> length (runes_of s). k < i \<longrightarrow>
        \<not> (\<exists>q. marshal_truncated (trial_record r field suffix s i) = Inr q \<and> int (length q) \<le> max_bytes))"
  using trunc_search_spec [OF trial_growing search_start assms(1) [unfolded truncate_string_field_eq [OF assms(2)]]]
  unfolding mk_trial_def fits_def by simp

theorem truncate_keeps_longest_prefix_witness:
  "\<exists>p k. truncate_string_field sample_record 80 ''m'' [] = Inr (Some p) \<and> k \<le> 14 \<and>
     marshal_truncated (trial_record sample_record ''m'' [] (replicate 14 (CHR 0x01)) k) = Inr p"
proof -
  have "supported sample_record" "suffix_fits sample_record 80 [] ''m''"
    using sample_marshal sample_trial_0 sample_get
    by (auto simp: suffix_fits_def supported_def sample_record_def)
  then obtain p where p: "truncate_string_field sample_record 80 ''m'' [] = Inr (Some p)"
    using truncate_string_field_iff by (metis not_None_eq)
  then show ?thesis
    using truncate_keeps_longest_prefix [OF p sample_get]
    by (auto simp: runes_of_def decode_segs_replicate)
qed

text \<open>
   A field is given up only when nothing can help: if truncating a string field yields nothing,
  then even the bare suffix does not fit, so the attempt after the search loop never succeeds.
\<close>

theorem truncate_gives_up_only_when_suffix_too_long:
  assumes "truncate_string_field r max_bytes field suffix = Inr None"
    and "gm_get r field = Some (VStr s)" "k \<le> length (runes_of s)"
    and "marshal_truncated (trial_record r field suffix s k) = Inr q"
  shows "max_bytes < int (length q)"
  using trunc_search_spec [OF trial_growing search_start assms(1) [unfolded truncate_string_field_eq [OF assms(2)]]]
    assms(3,4)
  unfolding mk_trial_def fits_def by (auto simp: not_le)

theorem truncate_gives_up_witness:
  "truncate_string_field sample_record 50 ''m'' [] = Inr None \<and>
   (\<exists>q. marshal_truncated (trial_record sample_record ''m'' [] (replicate 14 (CHR 0x01)) 0) = Inr q
      \<and> 50 < int (length q))"
proof -
  obtain q where q: "json_marshal (trial_record sample_record ''m'' [] (replicate 14 (CHR 0x01)) 0) = Inr q"
      "length q = 74"
    using sample_trial_0 by blast
  then have "\<not> suffix_fits sample_record 50 [] ''m''"
    using sample_get by (simp add: suffix_fits_def)
  moreover have "supported sample_record" by (simp add: supported_def sample_record_def)
  ultimately have n: "truncate_string_field sample_record 50 ''m'' [] = Inr None"
    using truncate_string_field_iff by fastforce
  then show ?thesis
    using truncate_gives_up_only_when_suffix_too_long [OF n sample_get, of 0 q] q
    by (auto simp: marshal_truncated_Inr)
qed

text \<open>
   One record is one line: the payload of a record whose extension values are compact JSON
  contains no newline, truncated or not, whatever bytes the log line held.
\<close>

theorem publish_payload_is_one_line:
  assumes "marshal_publish_payload r visit max_bytes primary suffix = Inr (p, t)" "compact_values r"
  shows "NL \<notin> set p"
  using assms(1)
proof (cases rule: marshal_publish_cases)
  case whole
  with assms(2) show ?thesis using no_ctrl_json_marshal no_ctrl_no_newline by blast
next
  case (cut field s k)
  then show ?thesis
    using no_ctrl_json_marshal [OF cut(3) compact_trial [OF assms(2)]] no_ctrl_no_newline by blast
qed

theorem publish_payload_is_one_line_witness:
  "\<exists>p. marshal_publish_payload sample_record [] 80 ''m'' [] = Inr (p, True) \<and> NL \<notin> set p"
  using sample_publish publish_payload_is_one_line [OF _ sample_compact, of "[]" 80 "''m''" "[]"] by blast

text \<open>
   Truncation succeeds exactly when it can: an oversized record is published truncated if and
  only if one of the candidate fields is a string and the record with that field reduced to the
  suffix fits the limit.
\<close>

theorem truncation_succeeds_iff:
  assumes "json_marshal r = Inr q" "0 < max_bytes" "max_bytes < int (length q)"
  shows "(\<exists>p. marshal_publish_payload r visit max_bytes primary suffix = Inr (p, True)) \<longleftrightarrow>
     (\<exists>field s q0. field \<in> set (candidate_fields r visit primary) \<and> field \<noteq> [] \<and>
        gm_get r field = Some (VStr s) \<and> json_marshal (trial_record r field suffix s 0) = Inr q0 \<and>
        int (length q0) \<le> max_bytes)"
proof -
  have "supported r" using assms(1) json_marshal_supported by blast
  note iff = truncate_fields_iff [OF this, of max_bytes suffix "candidate_fields r visit primary"]
  have "(\<exists>p. marshal_publish_payload r visit max_bytes primary suffix = Inr (p, True)) \<longleftrightarrow>
      (\<exists>p. truncate_fields r max_bytes suffix (candidate_fields r visit primary) = Inr (Some p))"
    using assms
    by (cases "truncate_fields r max_bytes suffix (candidate_fields r visit primary)")
      (auto simp: marshal_publish_payload_def split: option.splits)
  then show ?thesis using iff by (auto simp: suffix_fits_def)
qed

theorem truncation_succeeds_iff_witness:
  "\<exists>q p. json_marshal sample_record = Inr q \<and> 80 < int (length q) \<and>
     marshal_publish_payload sample_record [] 80 ''m'' [] = Inr (p, True)"
proof -
  obtain q where q: "json_marshal sample_record = Inr q" "length q = 92"
    using sample_marshal by blast
  obtain q0 where q0: "json_marshal (trial_record sample_record ''m'' [] (replicate 14 (CHR 0x01)) 0) = Inr q0"
      "length q0 = 74"
    using sample_trial_0 by blast
  have "''m'' \<in> set (candidate_fields sample_record [] ''m'') \<and> ''m'' \<noteq> [] \<and>
      gm_get sample_record ''m'' = Some (VStr (replicate 14 (CHR 0x01))) \<and>
      json_marshal (trial_record sample_record ''m'' [] (replicate 14 (CHR 0x01)) 0) = Inr q0 \<and>
      int (length q0) \<le> 80"
    using q0 sample_get by (simp add: candidate_fields_def Let_def)
  then have "\<exists>p. marshal_publish_payload sample_record [] 80 ''m'' [] = Inr (p, True)"
    using truncation_succeeds_iff [OF q(1), of 80 "[]" "''m''" "[]"] q(2) by (simp only:) blast
  then show ?thesis using q by simp
qed

text \<open>
   What truncation may change: a truncated payload is the JSON of a record that says so in
  \<open>publish_truncated\<close>, gives the original size of the cut field, and agrees with the original
  record on every key but the cut field and its metadata.
\<close>

theorem truncation_frame:
  assumes "marshal_publish_payload r visit max_bytes primary suffix = Inr (p, True)"
  shows "\<exists>field s r'. gm_get r field = Some (VStr s) \<and> json_marshal r' = Inr p \<and>
     gm_get r' (field @ ''_original_bytes'') = Some (VInt (int (length s))) \<and>
     gm_get r' ''publish_truncated'' = Some (VBool True) \<and>
     (\<forall>key. key \<notin> {field, ''publish_truncated'', field @ ''_truncated'', field @ ''_original_bytes''} \<longrightarrow>
        gm_get r' key = gm_get r key)"
  using assms
proof (cases rule: marshal_publish_cases)
  case (cut field s k)
  have "''publish_truncated'' \<noteq> field @ ''_original_bytes''"
    by (auto dest: arg_cong [where f = last])
  then show ?thesis
    using cut by (intro exI [of _ field] exI [of _ s] exI [of _ "trial_record r field suffix s k"])
      (simp add: trial_record_get)
qed simp

theorem truncation_frame_witness:
  "\<exists>p field s r'. marshal_publish_payload sample_record [] 80 ''m'' [] = Inr (p, True) \<and>
     gm_get sample_record field = Some (VStr s) \<and> json_marshal r' = Inr p \<and>
     gm_get r' ''publish_truncated'' = Some (VBool True)"
proof -
  obtain p where p: "marshal_publish_payload sample_record [] 80 ''m'' [] = Inr (p, True)"
    using sample_publish by blast
  obtain field s r' where "gm_get sample_record field = Some (VStr s)" "json_marshal r' = Inr p"
      "gm_get r' ''publish_truncated'' = Some (VBool True)"
    using truncation_frame [OF p] by (elim exE conjE) (rule that)
  with p show ?thesis by (intro exI conjI)
qed

end
