(* ===== verification/Config.thy ===== *)
theory Config
  imports Complex_Main GoMap
begin

text \<open>
  \<open>internal/config\<close>: the configuration structs, one record per Go struct with the fields in the
  source's order, and the accessor methods the runtime reads them through.  A nil pointer field is
  \<open>None\<close>.  Durations are nanoseconds.  \<open>time.ParseDuration\<close> is an argument \<open>pd\<close> of every accessor
  that parses one (Go evaluates fractions in floating point, which is not modelled); what the
  accessors add to it, the defaults and the special case of "0", is modelled as written.
\<close>

type_synonym duration_parser = "string \<Rightarrow> int result"

definition second_ns :: int where "second_ns = 1000000000"
definition millisecond_ns :: int where "millisecond_ns = 1000000"
definition minute_ns :: int where "minute_ns = 60 * second_ns"

text \<open>\<open>d, err := time.ParseDuration(s); if err != nil { return dflt }; return d\<close>.\<close>

definition parse_or :: "duration_parser \<Rightarrow> string \<Rightarrow> int \<Rightarrow> int" where
  "parse_or pd s dflt = (case pd s of Inl e \<Rightarrow> dflt | Inr d \<Rightarrow> d)"

section \<open>Watching and watermarks\<close>

record watch_source =
  src_path :: string
  src_patterns :: "string list"

record state_config =
  state_path_cfg :: string
  state_flush_interval :: string
  state_flush_every :: int
  state_reset_on_corrupt :: bool

record watch_config =
  watch_paths :: "string list"
  watch_patterns :: "string list"
  watch_sources :: "watch_source list"
  watch_poll :: string
  watch_state :: state_config

definition watch_entries :: "watch_config \<Rightarrow> watch_source list" where
  "watch_entries c =
     (if watch_sources c \<noteq> [] then watch_sources c
      else map (\<lambda>p. \<lparr>src_path = p, src_patterns = watch_patterns c\<rparr>) (watch_paths c))"

definition state_flush_interval_duration :: "duration_parser \<Rightarrow> state_config \<Rightarrow> int" where
  "state_flush_interval_duration pd c =
     (if state_flush_interval c = ''0'' then 0
      else if state_flush_interval c = [] then second_ns
      else parse_or pd (state_flush_interval c) second_ns)"

definition persist_options :: "duration_parser \<Rightarrow> state_config \<Rightarrow> int \<times> int" where
  "persist_options pd c = (state_flush_interval_duration pd c, state_flush_every c)"

section \<open>Parser, transform, enrichers, filter, timestamp\<close>

record parser_config =
  parser_type :: string
  parser_start_pattern :: string
  parser_flush_interval :: string

definition default_parser_flush_interval :: int where
  "default_parser_flush_interval = 100 * millisecond_ns"

definition parser_type_or_default :: "parser_config \<Rightarrow> string" where
  "parser_type_or_default c = (if parser_type c = [] then ''line'' else parser_type c)"

definition parser_flush_interval_duration :: "duration_parser \<Rightarrow> parser_config \<Rightarrow> int" where
  "parser_flush_interval_duration pd c =
     (if parser_type_or_default c \<noteq> ''multiline'' then 0
      else if parser_flush_interval c = ''0'' then 0
      else if parser_flush_interval c = [] then default_parser_flush_interval
      else parse_or pd (parser_flush_interval c) 0)"

record transform_config =
  transform_type :: string
  transform_delimiter :: string
  transform_columns :: "string list"
  transform_pattern :: string
  transform_on_error :: string

record enricher_config =
  enricher_type :: string
  enricher_fields :: "string gomap"

text \<open>A filter rule is recursive (a compound rule holds rules), hence a datatype.\<close>

datatype filter_rule_config = FilterRule
  (rule_type: string) (rule_field: string) (rule_op: string) (rule_value: string)
  (rule_values: "string list") (rule_ignore_case: bool) (rule_on_missing: string)
  (rule_match: string) (rule_rules: "filter_rule_config list")

record filter_config =
  filter_match :: string
  filter_on_missing :: string
  filter_rules :: "filter_rule_config list"

definition filter_enabled :: "filter_config \<Rightarrow> bool" where
  "filter_enabled c \<longleftrightarrow> length (filter_rules c) > 0"

record timestamp_config =
  ts_field :: string
  ts_format :: string
  ts_default_timezone :: string
  ts_output :: string

definition timestamp_enabled :: "timestamp_config \<Rightarrow> bool" where
  "timestamp_enabled c \<longleftrightarrow>
     ts_field c \<noteq> [] \<or> ts_format c \<noteq> [] \<or> ts_default_timezone c \<noteq> [] \<or> ts_output c \<noteq> []"

definition field_or_default :: "timestamp_config \<Rightarrow> string" where
  "field_or_default c = (if ts_field c = [] then ''timestamp'' else ts_field c)"

definition default_timezone_or_default :: "timestamp_config \<Rightarrow> string" where
  "default_timezone_or_default c = (if ts_default_timezone c = [] then ''UTC'' else ts_default_timezone c)"

definition output_or_default :: "timestamp_config \<Rightarrow> string" where
  "output_or_default c = (if ts_output c = [] then ''rfc3339nano'' else ts_output c)"

section \<open>Pipeline\<close>

record publish_retry_config =
  initial_backoff :: string
  max_backoff :: string
  retry_max_attempts :: int

definition initial_backoff_duration :: "duration_parser \<Rightarrow> publish_retry_config \<Rightarrow> int" where
  "initial_backoff_duration pd c =
     (if initial_backoff c = [] then second_ns else parse_or pd (initial_backoff c) second_ns)"

definition max_backoff_duration :: "duration_parser \<Rightarrow> publish_retry_config \<Rightarrow> int" where
  "max_backoff_duration pd c =
     (if max_backoff c = [] then 30 * second_ns else parse_or pd (max_backoff c) (30 * second_ns))"

record dead_letter_config =
  dl_path :: string
  dl_max_consecutive_batches :: int

definition max_consecutive_batches_or_default :: "dead_letter_config \<Rightarrow> int" where
  "max_consecutive_batches_or_default c =
     (if dl_max_consecutive_batches c \<le> 0 then 3 else dl_max_consecutive_batches c)"

record hibernate_config =
  hib_wake_enabled :: bool
  hib_wake_interval :: string

definition wake_interval_duration :: "duration_parser \<Rightarrow> hibernate_config \<Rightarrow> int" where
  "wake_interval_duration pd c =
     (if hib_wake_interval c = [] then 10 * minute_ns
      else if hib_wake_interval c = ''0'' then 0
      else parse_or pd (hib_wake_interval c) (10 * minute_ns))"

record publish_batch_config =
  pb_max_bytes :: int
  pb_flush_interval :: string
  pb_on_flush_failure :: string
  pb_max_attempts :: int
  pb_hibernate :: hibernate_config
  pb_dead_letter :: dead_letter_config

definition on_flush_failure_or_default :: "publish_batch_config \<Rightarrow> string" where
  "on_flush_failure_or_default c =
     (if pb_on_flush_failure c = [] then ''hibernate'' else pb_on_flush_failure c)"

definition max_attempts_or_default :: "publish_batch_config \<Rightarrow> publish_retry_config \<Rightarrow> int" where
  "max_attempts_or_default c retry =
     (if pb_max_attempts c > 0 then pb_max_attempts c else retry_max_attempts retry)"

definition batch_flush_interval_duration :: "duration_parser \<Rightarrow> publish_batch_config \<Rightarrow> int" where
  "batch_flush_interval_duration pd c =
     (if pb_flush_interval c = ''0'' then 0
      else if pb_flush_interval c = [] then (if pb_max_bytes c > 0 then 100 * millisecond_ns else 0)
      else parse_or pd (pb_flush_interval c) 0)"

definition publish_batch_enabled :: "duration_parser \<Rightarrow> publish_batch_config \<Rightarrow> bool" where
  "publish_batch_enabled pd c \<longleftrightarrow> pb_max_bytes c > 0 \<or>
     (pb_flush_interval c \<noteq> ''0'' \<and> batch_flush_interval_duration pd c > 0)"

definition size_trigger_enabled :: "duration_parser \<Rightarrow> publish_batch_config \<Rightarrow> bool" where
  "size_trigger_enabled pd c \<longleftrightarrow> publish_batch_enabled pd c \<and> pb_max_bytes c > 0"

definition max_bytes_limit :: "duration_parser \<Rightarrow> publish_batch_config \<Rightarrow> int" where
  "max_bytes_limit pd c = (if \<not> size_trigger_enabled pd c then 0 else pb_max_bytes c)"

record pipeline_config =
  buffer_size :: int
  on_full :: string
  publish_timeout :: string
  publish_retry :: publish_retry_config
  publish_batch :: publish_batch_config
  max_publish_bytes :: int
  truncate_field :: string
  truncate_suffix :: string

definition truncate_field_or_default :: "pipeline_config \<Rightarrow> string" where
  "truncate_field_or_default c = (if truncate_field c = [] then ''message'' else truncate_field c)"

text \<open>The default suffix is U+2026 (three bytes) followed by " [truncated]".\<close>

definition truncate_suffix_or_default :: "pipeline_config \<Rightarrow> string" where
  "truncate_suffix_or_default c =
     (if truncate_suffix c = [] then [CHR 0xE2, CHR 0x80, CHR 0xA6] @ '' [truncated]'' else truncate_suffix c)"

definition publish_timeout_duration :: "duration_parser \<Rightarrow> pipeline_config \<Rightarrow> int" where
  "publish_timeout_duration pd c =
     (if publish_timeout c = [] \<or> publish_timeout c = ''0'' then 0 else parse_or pd (publish_timeout c) 0)"

section \<open>Sinks\<close>

record kafka_tls_config =
  tls_ca_file :: string
  tls_cert_file :: string
  tls_key_file :: string
  tls_insecure_skip_verify :: bool

record kafka_kerberos_config =
  krb_service_name :: string
  krb_realm :: string
  krb_keytab :: string
  krb_principal :: string
  krb_config_path :: string

record kafka_oauth_config =
  oauth_token :: string

record kafka_sasl_config =
  sasl_mechanism :: string
  sasl_username :: string
  sasl_password :: string
  sasl_kerberos :: "kafka_kerberos_config option"
  sasl_oauth :: "kafka_oauth_config option"

record kafka_security_config =
  sec_protocol :: string
  sec_tls :: "kafka_tls_config option"
  sec_sasl :: "kafka_sasl_config option"

record kafka_config =
  kafka_brokers :: "string list"
  kafka_topic :: string
  kafka_connect_timeout :: string
  kafka_security :: "kafka_security_config option"

record http_noauth_config =
  http_url :: string
  http_method :: string
  http_timeout :: string

record file_sink_config =
  file_sink_path :: string

record sink_config =
  sink_type :: string
  sink_file :: "file_sink_config option"
  sink_kafka :: "kafka_config option"
  sink_http_noauth :: "http_noauth_config option"

definition http_method_or_default :: "http_noauth_config \<Rightarrow> string" where
  "http_method_or_default c = (if http_method c = [] then ''POST'' else http_method c)"

definition http_timeout_duration :: "duration_parser \<Rightarrow> http_noauth_config \<Rightarrow> int" where
  "http_timeout_duration pd c =
     (if http_timeout c = [] then 30 * second_ns else parse_or pd (http_timeout c) (30 * second_ns))"

definition kafka_connect_timeout_duration :: "duration_parser \<Rightarrow> kafka_config \<Rightarrow> int" where
  "kafka_connect_timeout_duration pd c =
     (if kafka_connect_timeout c = [] then 10 * second_ns
      else parse_or pd (kafka_connect_timeout c) (10 * second_ns))"

definition sink_connect_timeout :: "duration_parser \<Rightarrow> sink_config \<Rightarrow> int" where
  "sink_connect_timeout pd c = (case sink_kafka c of
      Some k \<Rightarrow> kafka_connect_timeout_duration pd k
    | None \<Rightarrow> (case sink_http_noauth c of
        Some h \<Rightarrow> http_timeout_duration pd h
      | None \<Rightarrow> 10 * second_ns))"

section \<open>Logging, metrics, ATC\<close>

record logging_config =
  log_level :: string
  log_format :: string
  log_file :: string
  log_status_interval :: string

definition status_interval_duration :: "duration_parser \<Rightarrow> logging_config \<Rightarrow> int" where
  "status_interval_duration pd c =
     (if log_status_interval c = [] \<or> log_status_interval c = ''0'' then 0
      else parse_or pd (log_status_interval c) (30 * second_ns))"

record readiness_config =
  ready_path_cfg :: string
  ready_buffer_threshold :: rat
  ready_sink_check :: "bool option"
  ready_require_files :: bool
  ready_sink_check_timeout :: string

record metrics_config =
  metrics_enabled :: bool
  metrics_host :: string
  metrics_port :: int
  metrics_path_cfg :: string
  metrics_readiness :: readiness_config

definition metrics_addr :: "metrics_config \<Rightarrow> string" where
  "metrics_addr c =
     (let host = (if metrics_host c = [] then ''127.0.0.1'' else metrics_host c);
          port = (if metrics_port c = 0 then 8080 else metrics_port c)
      in host @ '':'' @ show_int port)"

definition metrics_path :: "metrics_config \<Rightarrow> string" where
  "metrics_path c =
     (if metrics_path_cfg c = [] then ''/metrics''
      else if \<not> has_prefix (metrics_path_cfg c) ''/'' then ''/'' @ metrics_path_cfg c
      else metrics_path_cfg c)"

definition dead_letters_path :: "metrics_config \<Rightarrow> string" where
  "dead_letters_path c = ''/deadletters''"

definition ready_path :: "readiness_config \<Rightarrow> string" where
  "ready_path c =
     (if ready_path_cfg c = [] then ''/ready''
      else if \<not> has_prefix (ready_path_cfg c) ''/'' then ''/'' @ ready_path_cfg c
      else ready_path_cfg c)"

definition buffer_threshold_or_default :: "readiness_config \<Rightarrow> rat" where
  "buffer_threshold_or_default c =
     (if ready_buffer_threshold c \<le> 0 then 4 / 5 else ready_buffer_threshold c)"

definition sink_check_enabled :: "readiness_config \<Rightarrow> bool" where
  "sink_check_enabled c = (case ready_sink_check c of None \<Rightarrow> True | Some b \<Rightarrow> b)"

definition sink_check_timeout_duration :: "duration_parser \<Rightarrow> readiness_config \<Rightarrow> int \<Rightarrow> int" where
  "sink_check_timeout_duration pd c fallback =
     (if ready_sink_check_timeout c = [] \<or> ready_sink_check_timeout c = ''0'' then fallback
      else parse_or pd (ready_sink_check_timeout c) fallback)"

record atc_config =
  atc_enabled :: bool
  atc_url :: string
  atc_timeout :: string

definition atc_timeout_duration :: "duration_parser \<Rightarrow> atc_config \<Rightarrow> int" where
  "atc_timeout_duration pd c =
     (if atc_timeout c = [] then 5 * second_ns else parse_or pd (atc_timeout c) (5 * second_ns))"

section \<open>The root configuration\<close>

record config =
  cfg_watch :: watch_config
  cfg_sink :: sink_config
  cfg_parser :: parser_config
  cfg_transform :: transform_config
  cfg_enrichers :: "enricher_config list"
  cfg_filter :: filter_config
  cfg_timestamp :: timestamp_config
  cfg_pipeline :: pipeline_config
  cfg_logging :: logging_config
  cfg_metrics :: metrics_config
  cfg_atc :: atc_config

definition state_path :: "config \<Rightarrow> string" where
  "state_path c =
     (if state_path_cfg (watch_state (cfg_watch c)) \<noteq> [] then state_path_cfg (watch_state (cfg_watch c))
      else ''.log-forwarder/watermarks.json'')"

definition poll_interval :: "duration_parser \<Rightarrow> config \<Rightarrow> int" where
  "poll_interval pd c = parse_or pd (watch_poll (cfg_watch c)) 0"

text \<open>\<open>config.Default\<close>; \<open>wd\<close> is the working directory \<open>os.Getwd\<close> reports, empty when it fails.\<close>

definition default_config :: "string \<Rightarrow> config" where
  "default_config wd0 = (let wd = (if wd0 = [] then ''.'' else wd0) in
   \<lparr> cfg_watch = \<lparr>watch_paths = [wd], watch_patterns = [''*.log*''], watch_sources = [],
       watch_poll = ''1s'',
       watch_state = \<lparr>state_path_cfg = [], state_flush_interval = [], state_flush_every = 0,
         state_reset_on_corrupt = False\<rparr>\<rparr>,
     cfg_sink = \<lparr>sink_type = ''kafka'', sink_file = None,
       sink_kafka = Some \<lparr>kafka_brokers = [''localhost:9092''], kafka_topic = ''logs'',
         kafka_connect_timeout = [], kafka_security = None\<rparr>,
       sink_http_noauth = None\<rparr>,
     cfg_parser = \<lparr>parser_type = ''line'', parser_start_pattern = [], parser_flush_interval = []\<rparr>,
     cfg_transform = \<lparr>transform_type = ''delimiter'', transform_delimiter = [CHR 0x09],
       transform_columns = [], transform_pattern = [], transform_on_error = ''wrap''\<rparr>,
     cfg_enrichers = [\<lparr>enricher_type = ''host'', enricher_fields = []\<rparr>],
     cfg_filter = \<lparr>filter_match = [], filter_on_missing = [], filter_rules = []\<rparr>,
     cfg_timestamp = \<lparr>ts_field = [], ts_format = [], ts_default_timezone = [], ts_output = []\<rparr>,
     cfg_pipeline = \<lparr>buffer_size = 1024, on_full = ''block'', publish_timeout = [],
       publish_retry = \<lparr>initial_backoff = [], max_backoff = [], retry_max_attempts = 0\<rparr>,
       publish_batch = \<lparr>pb_max_bytes = 1048576, pb_flush_interval = ''100ms'',
         pb_on_flush_failure = [], pb_max_attempts = 0,
         pb_hibernate = \<lparr>hib_wake_enabled = False, hib_wake_interval = []\<rparr>,
         pb_dead_letter = \<lparr>dl_path = [], dl_max_consecutive_batches = 0\<rparr>\<rparr>,
       max_publish_bytes = 1048576, truncate_field = [], truncate_suffix = []\<rparr>,
     cfg_logging = \<lparr>log_level = ''info'', log_format = ''text'', log_file = [],
       log_status_interval = ''30s''\<rparr>,
     cfg_metrics = \<lparr>metrics_enabled = False, metrics_host = [], metrics_port = 0,
       metrics_path_cfg = [],
       metrics_readiness = \<lparr>ready_path_cfg = [], ready_buffer_threshold = 0, ready_sink_check = None,
         ready_require_files = False, ready_sink_check_timeout = []\<rparr>\<rparr>,
     cfg_atc = \<lparr>atc_enabled = False, atc_url = [], atc_timeout = []\<rparr> \<rparr>)"

section \<open>Type names\<close>

text \<open>\<open>registry.go\<close>: five sets of names, as maps to the empty struct.\<close>

type_synonym type_names = "unit gomap"

definition register_type :: "string \<Rightarrow> type_names \<Rightarrow> type_names" where
  "register_type name ts = (if name = [] then ts else gm_put ts name ())"

definition known_type :: "type_names \<Rightarrow> string \<Rightarrow> bool" where
  "known_type ts name \<longleftrightarrow> gm_get ts name \<noteq> None"

definition format_known_types :: "type_names \<Rightarrow> string" where
  "format_known_types ts = go_join '', '' (sort (gm_keys ts))"

definition unknown_type_error :: "string \<Rightarrow> string \<Rightarrow> type_names \<Rightarrow> go_error" where
  "unknown_type_error field value ts =
     ErrText (field @ '' '' @ quoted value @ '' is not registered (known: '' @ format_known_types ts @ '')'')"

end
