(* ===== verification/JsonParse.thy ===== *)
theory JsonParse
  imports Json
begin

text \<open>
  Reading JSON text, as \<open>json.Unmarshal\<close> does before it fills Go values: white space, the number
  grammar, string literals with their escapes and surrogate pairs, arrays and objects.  The result
  is a value tree; object members keep their order and duplicates.  The recursive parser takes
  fuel; two units per byte and one more are always enough (\<open>json_parse_fuel\<close>), since two nested calls
  consume a byte.  The main facts say that the parser reads back what the encoder of \<open>Json\<close> writes.
\<close>

datatype jval =
    JNull
  | JBool bool
  | JNum bytes
  | JStr bytes
  | JArr "jval list"
  | JObj "(bytes \<times> jval) list"

section \<open>Lexical level\<close>

definition is_ws :: "char \<Rightarrow> bool" where
  "is_ws c \<longleftrightarrow> c \<in> {CHR '' '', CHR 0x09, NL, CR}"

definition skip_ws :: "bytes \<Rightarrow> bytes" where
  "skip_ws s = dropWhile is_ws s"

definition is_digit :: "char \<Rightarrow> bool" where
  "is_digit c \<longleftrightarrow> 48 \<le> byte_val c \<and> byte_val c < 58"

text \<open>A number literal: sign, integer part without leading zeros, fraction, exponent.\<close>

definition lex_int_part :: "bytes \<Rightarrow> (bytes \<times> bytes) option" where
  "lex_int_part s = (case s of
      [] \<Rightarrow> None
    | c # t \<Rightarrow>
        if c = CHR ''0'' then Some ([c], t)
        else if is_digit c then Some (takeWhile is_digit s, dropWhile is_digit s)
        else None)"

definition lex_frac :: "bytes \<Rightarrow> (bytes \<times> bytes) option" where
  "lex_frac s = (case s of
      c # t \<Rightarrow>
        if c = CHR ''.'' then
          (if takeWhile is_digit t = [] then None
           else Some (c # takeWhile is_digit t, dropWhile is_digit t))
        else Some ([], s)
    | [] \<Rightarrow> Some ([], s))"

definition lex_exp :: "bytes \<Rightarrow> (bytes \<times> bytes) option" where
  "lex_exp s = (case s of
      c # t \<Rightarrow>
        if c = CHR ''e'' \<or> c = CHR ''E'' then
          (let sgn = (case t of d # u \<Rightarrow> if d = CHR ''+'' \<or> d = CHR ''-'' then [d] else [] | [] \<Rightarrow> []);
               u = drop (length sgn) t in
           if takeWhile is_digit u = [] then None
           else Some (c # sgn @ takeWhile is_digit u, dropWhile is_digit u))
        else Some ([], s)
    | [] \<Rightarrow> Some ([], s))"

definition lex_number :: "bytes \<Rightarrow> (bytes \<times> bytes) option" where
  "lex_number s0 =
     (let sgn = (case s0 of c # t \<Rightarrow> if c = CHR ''-'' then [c] else [] | [] \<Rightarrow> []);
          s = drop (length sgn) s0 in
      Option.bind (lex_int_part s) (\<lambda>(ip, s1).
      Option.bind (lex_frac s1) (\<lambda>(fp, s2).
      Option.bind (lex_exp s2) (\<lambda>(ep, s3).
        Some (sgn @ ip @ fp @ ep, s3)))))"

text \<open>The body of a string literal up to its closing quote; control bytes are not allowed.\<close>

fun lex_string :: "bytes \<Rightarrow> (bytes \<times> bytes) option" where
  "lex_string [] = None"
| "lex_string (c # s) =
     (if c = DQUOTE then Some ([], s)
      else if byte_val c < 0x20 then None
      else if c = BSLASH then
        (case s of
           [] \<Rightarrow> None
         | d # t \<Rightarrow> if byte_val d < 0x20 then None
                   else (case lex_string t of None \<Rightarrow> None | Some (b, r) \<Rightarrow> Some (c # d # b, r)))
      else (case lex_string s of None \<Rightarrow> None | Some (b, r) \<Rightarrow> Some (c # b, r)))"

definition hex_val :: "char \<Rightarrow> nat option" where
  "hex_val c = (let b = byte_val c in
     if 48 \<le> b \<and> b < 58 then Some (b - 48)
     else if 97 \<le> b \<and> b < 103 then Some (b - 87)
     else if 65 \<le> b \<and> b < 71 then Some (b - 55)
     else None)"

text \<open>\<open>getu4\<close>: four hex digits at the start of the text.\<close>

definition hex4 :: "bytes \<Rightarrow> nat option" where
  "hex4 s = (case s of
      a # b # c # d # t \<Rightarrow>
        Option.bind (hex_val a) (\<lambda>w. Option.bind (hex_val b) (\<lambda>x.
        Option.bind (hex_val c) (\<lambda>y. Option.bind (hex_val d) (\<lambda>z.
          Some (((w * 16 + x) * 16 + y) * 16 + z)))))
    | _ \<Rightarrow> None)"

text \<open>
  A \<open>u\<close> escape: a surrogate pair is combined, a lone surrogate becomes U+FFFD (and what follows it
  is read on its own).  The result is the rune and the number of bytes after the \<open>u\<close> consumed.
\<close>

definition unquote_u :: "bytes \<Rightarrow> (rune \<times> nat) option" where
  "unquote_u t = Option.bind (hex4 t) (\<lambda>rr.
     if 0xD800 \<le> rr \<and> rr < 0xE000 then
       (case drop 4 t of
          b # u # t' \<Rightarrow>
            if b = BSLASH \<and> u = CHR ''u'' then
              (case hex4 t' of
                 Some rr1 \<Rightarrow>
                   if rr < 0xDC00 \<and> 0xDC00 \<le> rr1 \<and> rr1 < 0xE000
                   then Some (0x10000 + (rr - 0xD800) * 1024 + (rr1 - 0xDC00), 10)
                   else Some (rune_error, 4)
               | None \<Rightarrow> Some (rune_error, 4))
            else Some (rune_error, 4)
        | _ \<Rightarrow> Some (rune_error, 4))
     else Some (rr, 4))"

definition unescape_byte :: "char \<Rightarrow> char option" where
  "unescape_byte d = map_of [(DQUOTE, DQUOTE), (BSLASH, BSLASH), (CHR ''/'', CHR ''/''),
     (CHR ''b'', CHR 0x08), (CHR ''f'', CHR 0x0C),
     (CHR ''n'', NL), (CHR ''r'', CR), (CHR ''t'', CHR 0x09)] d"

function unquote :: "bytes \<Rightarrow> bytes option" where
  "unquote s = (case s of
      [] \<Rightarrow> Some []
    | c # t \<Rightarrow>
        if c = BSLASH then
          (case t of
             [] \<Rightarrow> None
           | d # u \<Rightarrow>
               if d = CHR ''u'' then
                 (case unquote_u u of
                    None \<Rightarrow> None
                  | Some (r, n) \<Rightarrow> map_option (\<lambda>x. encode_rune r @ x) (unquote (drop n u)))
               else
                 (case unescape_byte d of
                    None \<Rightarrow> None
                  | Some e \<Rightarrow> map_option (\<lambda>x. e # x) (unquote u)))
        else if byte_val c < 0x80 then map_option (\<lambda>x. c # x) (unquote t)
        else map_option (\<lambda>x. encode_rune (fst (decode_rune s)) @ x) (unquote (drop (snd (decode_rune s)) s)))"
  by pat_completeness auto
termination
proof (relation "measure length")
  fix s :: bytes and c t
  assume "s = c # t"
  then show "(drop (snd (decode_rune s)) s, s) \<in> measure length"
    using decode_rune_size(1) [of s] by simp
qed auto

declare unquote.simps [simp del]

section \<open>The recursive parser\<close>

definition expect :: "bytes \<Rightarrow> bytes \<Rightarrow> bytes option" where
  "expect w s = (if has_prefix s w then Some (drop (length w) s) else None)"

definition parse_string :: "bytes \<Rightarrow> (bytes \<times> bytes) option" where
  "parse_string s = (case s of
      [] \<Rightarrow> None
    | c # t \<Rightarrow> if c = DQUOTE then
                Option.bind (lex_string t) (\<lambda>(b, r). Option.bind (unquote b) (\<lambda>x. Some (x, r)))
              else None)"

fun parse_value :: "nat \<Rightarrow> bytes \<Rightarrow> (jval \<times> bytes) option"
  and parse_elems :: "nat \<Rightarrow> bytes \<Rightarrow> (jval list \<times> bytes) option"
  and parse_members :: "nat \<Rightarrow> bytes \<Rightarrow> ((bytes \<times> jval) list \<times> bytes) option" where
  "parse_value 0 s = None"
| "parse_value (Suc n) s0 = (let s = skip_ws s0 in case s of
      [] \<Rightarrow> None
    | c # t \<Rightarrow>
        if c = DQUOTE then map_option (\<lambda>(x, r). (JStr x, r)) (parse_string s)
        else if c = CHR ''{'' then
          (case skip_ws t of
             d # r \<Rightarrow> if d = CHR ''}'' then Some (JObj [], r)
                     else map_option (\<lambda>(ms, r). (JObj ms, r)) (parse_members n t)
           | [] \<Rightarrow> None)
        else if c = CHR ''['' then
          (case skip_ws t of
             d # r \<Rightarrow> if d = CHR '']'' then Some (JArr [], r)
                     else map_option (\<lambda>(vs, r). (JArr vs, r)) (parse_elems n t)
           | [] \<Rightarrow> None)
        else if c = CHR ''t'' then map_option (\<lambda>r. (JBool True, r)) (expect ''true'' s)
        else if c = CHR ''f'' then map_option (\<lambda>r. (JBool False, r)) (expect ''false'' s)
        else if c = CHR ''n'' then map_option (\<lambda>r. (JNull, r)) (expect ''null'' s)
        else map_option (\<lambda>(x, r). (JNum x, r)) (lex_number s))"
| "parse_elems 0 s = None"
| "parse_elems (Suc n) s =
     Option.bind (parse_value n s) (\<lambda>(v, r0). case skip_ws r0 of
        d # r \<Rightarrow> if d = CHR '']'' then Some ([v], r)
                else if d = CHR '','' then map_option (\<lambda>(vs, r'). (v # vs, r')) (parse_elems n r)
                else None
      | [] \<Rightarrow> None)"
| "parse_members 0 s = None"
| "parse_members (Suc n) s =
     Option.bind (parse_string (skip_ws s)) (\<lambda>(k, r0). case skip_ws r0 of
        e # r1 \<Rightarrow> if e = CHR '':'' then
                  Option.bind (parse_value n r1) (\<lambda>(v, r2). case skip_ws r2 of
                      d # r \<Rightarrow> if d = CHR ''}'' then Some ([(k, v)], r)
                              else if d = CHR '','' then
                                map_option (\<lambda>(ms, r'). ((k, v) # ms, r')) (parse_members n r)
                              else None
                    | [] \<Rightarrow> None)
                else None
      | [] \<Rightarrow> None)"

text \<open>A whole text: one value, with white space around it.  Fuel: two units per byte and one more.\<close>

definition json_parse :: "bytes \<Rightarrow> jval option" where
  "json_parse s = Option.bind (parse_value (2 * length s + 1) s) (\<lambda>(v, r).
     if skip_ws r = [] then Some v else None)"

section \<open>Reading back a quoted string\<close>

lemma unquote_Nil [simp]: "unquote [] = Some []"
  by (simp add: unquote.simps)

lemma unquote_plain:
  "\<lbrakk>c \<noteq> BSLASH; byte_val c < 0x80\<rbrakk> \<Longrightarrow> unquote (c # t) = map_option (\<lambda>x. c # x) (unquote t)"
  by (simp add: unquote.simps [of "c # t"])

lemma hex_val_digit: "d < 16 \<Longrightarrow> hex_val (hex_digit d) = Some d"
  by (auto simp: hex_val_def hex_digit_def Let_def)

lemma unquote_u_escape:
  assumes "a < 16" "b < 16" "c < 16" "d < 16" "((a * 16 + b) * 16 + c) * 16 + d = r" "r < 0xD800"
  shows "unquote (BSLASH # CHR ''u'' # hex_digit a # hex_digit b # hex_digit c # hex_digit d # t)
       = map_option (\<lambda>x. encode_rune r @ x) (unquote t)"
proof -
  have "hex4 (hex_digit a # hex_digit b # hex_digit c # hex_digit d # t) = Some r"
    using assms by (simp add: hex4_def hex_val_digit)
  then have "unquote_u (hex_digit a # hex_digit b # hex_digit c # hex_digit d # t) = Some (r, 4)"
    using assms(6) by (simp add: unquote_u_def)
  then show ?thesis
    by (subst unquote.simps) simp
qed

lemma hex_digit_0: "hex_digit 0 = CHR ''0''"
  by code_simp

text \<open>The escapes \<open>quote_ascii\<close> writes, on every ASCII byte: a finite check.\<close>

definition ascii_escape_ok :: "nat \<Rightarrow> bool" where
  "ascii_escape_ok b = (let c = char_of b; q = quote_ascii c in
     html_safe b \<and> q = [c] \<and> c \<noteq> BSLASH
     \<or> (\<exists>d \<in> set [DQUOTE, BSLASH, CHR ''b'', CHR ''f'', CHR ''n'', CHR ''r'', CHR ''t''].
          q = [BSLASH, d] \<and>
          unescape_byte d = Some c)
     \<or> q = [BSLASH, CHR ''u'', hex_digit 0, hex_digit 0, hex_digit (b div 16), hex_digit (b mod 16)])"

lemma ascii_escapes: "list_all ascii_escape_ok [0..<128]"
  by code_simp

lemma unquote_quote_ascii:
  fixes r :: nat
  assumes "r < 0x80"
  shows "unquote (quote_ascii (char_of r) @ t) = map_option (\<lambda>x. char_of r # x) (unquote t)"
proof -
  have "ascii_escape_ok r"
    using ascii_escapes assms by (auto simp: list_all_iff)
  then consider "html_safe r" "quote_ascii (char_of r) = [char_of r]" "char_of r \<noteq> BSLASH"
    | d where "d \<noteq> CHR ''u''" "quote_ascii (char_of r) = [BSLASH, d]"
        "unescape_byte d = Some (char_of r)"
    | "quote_ascii (char_of r) =
         [BSLASH, CHR ''u'', hex_digit 0, hex_digit 0, hex_digit (r div 16), hex_digit (r mod 16)]"
    unfolding ascii_escape_ok_def Let_def by (elim disjE conjE bexE) auto
  then show ?thesis
  proof cases
    case 1
    with assms show ?thesis by (simp add: unquote_plain)
  next
    case 2
    then show ?thesis by (subst unquote.simps) simp
  next
    case 3
    then show ?thesis
      using assms unquote_u_escape [of 0 0 "r div 16" "r mod 16" r t] by simp
  qed
qed

lemma encode_rune_multi:
  assumes "\<not> r < 0x80"
  shows "2 \<le> length (encode_rune r)" "\<forall>c \<in> set (encode_rune r). 0x80 \<le> byte_val c"
proof -
  let ?q = "if valid_rune r then r else rune_error"
  have q: "0x80 \<le> ?q" "?q \<le> 0x10FFFF" using assms by (auto simp: valid_rune_def rune_error_def)
  have enc: "encode_rune r = encode_rune ?q" by (simp add: encode_rune_def)
  have len: "2 \<le> length (encode_rune ?q)"
    using q(1) by (auto simp: encode_rune_def)
  have "take (length (encode_rune ?q)) (encode_rune ?q) = encode_rune ?q" by simp
  moreover have "\<forall>c \<in> set (take (length (encode_rune ?q)) (encode_rune ?q)). 0x80 \<le> byte_val c"
    using decode_encode [of ?q "[]"] len encode_rune_nonempty [of ?q]
    by (intro decode_rune_multi [of _ ?q]) auto
  ultimately show "2 \<le> length (encode_rune r)" "\<forall>c \<in> set (encode_rune r). 0x80 \<le> byte_val c"
    using len enc by simp_all
qed

lemma unquote_quote_rune:
  assumes "valid_rune r"
  shows "unquote (quote_seg (r, encode_rune r) @ t) = map_option (\<lambda>x. encode_rune r @ x) (unquote t)"
proof (cases "r < 0x80")
  case True
  then show ?thesis using unquote_quote_ascii [OF True, of t] by (simp add: quote_seg_def)
next
  case False
  obtain b c s where enc: "encode_rune r = b # c # s"
    using encode_rune_multi(1) [OF False] by (cases "encode_rune r" rule: list.exhaust [of _, case_product list.exhaust])
      (auto simp: neq_Nil_conv Suc_le_length_iff numeral_2_eq_2)
  show ?thesis
  proof (cases "r = 0x2028 \<or> r = 0x2029")
    case True
    have hex: "hex_digit 2 = CHR ''2''" "hex_digit 0 = CHR ''0''" by code_simp+
    have "r mod 16 < 16" "((2 * 16 + 0) * 16 + 2) * 16 + r mod 16 = r" "r < 0xD800"
      using True by auto
    then show ?thesis
      using True unquote_u_escape [of 2 0 2 "r mod 16" r t] hex by (simp add: quote_seg_def enc)
  next
    case nls: False
    have "0x80 \<le> byte_val b" "b \<noteq> BSLASH"
      using encode_rune_multi(2) [OF False] by (auto simp: enc)
    moreover have "decode_rune (b # c # s @ t) = (r, length (encode_rune r))"
      using decode_encode [OF assms, of t] by (simp add: enc)
    ultimately have "unquote (encode_rune r @ t) = map_option (\<lambda>x. encode_rune r @ x) (unquote t)"
      by (subst unquote.simps) (simp add: enc)
    then show ?thesis using nls by (simp add: quote_seg_def enc)
  qed
qed

lemma unquote_quoted_runes:
  assumes "\<forall>r \<in> set rs. valid_rune r"
  shows "unquote (concat (map (\<lambda>r. quote_seg (r, encode_rune r)) rs)) = Some (string_of_runes rs)"
  using assms by (induction rs) (simp_all add: unquote_quote_rune string_of_runes_def)

section \<open>Finding the end of a quoted string\<close>

definition quotes_ok :: "bytes \<Rightarrow> bool" where
  "quotes_ok q \<longleftrightarrow> (\<forall>t. lex_string (q @ t) = map_option (\<lambda>(b, r). (q @ b, r)) (lex_string t))"

lemma quotes_ok_append: "quotes_ok p \<Longrightarrow> quotes_ok q \<Longrightarrow> quotes_ok (p @ q)"
  by (auto simp: quotes_ok_def option.map_comp comp_def intro!: option.map_cong)

lemma quotes_ok_Nil: "quotes_ok []"
  by (simp add: quotes_ok_def option.map_id)

lemma quotes_ok_concat: "(\<And>q. q \<in> set qs \<Longrightarrow> quotes_ok q) \<Longrightarrow> quotes_ok (concat qs)"
  by (induction qs) (simp_all add: quotes_ok_append quotes_ok_Nil)

lemma quotes_ok_plain: "\<lbrakk>c \<noteq> DQUOTE; c \<noteq> BSLASH; 0x20 \<le> byte_val c\<rbrakk> \<Longrightarrow> quotes_ok [c]"
  by (auto simp: quotes_ok_def split: option.splits)

lemma quotes_ok_escape: "0x20 \<le> byte_val d \<Longrightarrow> quotes_ok [BSLASH, d]"
  by (auto simp: quotes_ok_def split: option.splits)

lemma quotes_ok_bytes:
  "(\<And>c. c \<in> set q \<Longrightarrow> c \<noteq> DQUOTE \<and> c \<noteq> BSLASH \<and> 0x20 \<le> byte_val c) \<Longrightarrow> quotes_ok q"
proof (induction q)
  case Nil
  then show ?case by (simp add: quotes_ok_Nil)
next
  case (Cons c q)
  then show ?case using quotes_ok_append [of "[c]" q] quotes_ok_plain [of c] by simp
qed

lemma hex_digit_plain:
  "d < 16 \<Longrightarrow> hex_digit d \<noteq> DQUOTE \<and> hex_digit d \<noteq> BSLASH \<and> 0x20 \<le> byte_val (hex_digit d)"
proof -
  have "list_all (\<lambda>d. hex_digit d \<noteq> DQUOTE \<and> hex_digit d \<noteq> BSLASH \<and> 0x20 \<le> byte_val (hex_digit d)) [0..<16]"
    by code_simp
  then show "d < 16 \<Longrightarrow> ?thesis" by (auto simp: list_all_iff)
qed

lemma quotes_ok_quote_rune:
  assumes "valid_rune r"
  shows "quotes_ok (quote_seg (r, encode_rune r))"
proof (cases "r < 0x80")
  case True
  have "ascii_escape_ok r"
    using ascii_escapes True by (auto simp: list_all_iff)
  then consider "html_safe r" "quote_ascii (char_of r) = [char_of r]"
    | d where "d \<in> set [DQUOTE, BSLASH, CHR ''b'', CHR ''f'', CHR ''n'', CHR ''r'', CHR ''t'']"
        "quote_ascii (char_of r) = [BSLASH, d]"
    | "quote_ascii (char_of r) = [BSLASH, CHR ''u''] @
         [hex_digit 0, hex_digit 0, hex_digit (r div 16), hex_digit (r mod 16)]"
    unfolding ascii_escape_ok_def Let_def by (elim disjE conjE bexE) auto
  then have "quotes_ok (quote_ascii (char_of r))"
  proof cases
    case 1
    then have "quotes_ok [char_of r]"
      by (intro quotes_ok_plain) (auto simp: html_safe_def dest!: arg_cong [where f = "of_char :: char \<Rightarrow> nat"])
    with 1 show ?thesis by simp
  next
    case 2
    then show ?thesis by (auto intro!: quotes_ok_escape)
  next
    case 3
    have "quotes_ok [hex_digit 0, hex_digit 0, hex_digit (r div 16), hex_digit (r mod 16)]"
      using True hex_digit_plain by (intro quotes_ok_bytes) auto
    then show ?thesis
      unfolding 3 by (intro quotes_ok_append quotes_ok_escape) auto
  qed
  with True show ?thesis by (simp add: quote_seg_def)
next
  case False
  obtain b c s where enc: "encode_rune r = b # c # s"
    using encode_rune_multi(1) [OF False] by (cases "encode_rune r" rule: list.exhaust [of _, case_product list.exhaust])
      (auto simp: neq_Nil_conv Suc_le_length_iff numeral_2_eq_2)
  have "quotes_ok (encode_rune r)"
    using encode_rune_multi(2) [OF False] by (intro quotes_ok_bytes) fastforce
  moreover have "quotes_ok ([BSLASH, CHR ''u''] @ [CHR ''2'', CHR ''0'', CHR ''2'', hex_digit (r mod 16)])"
    using hex_digit_plain [of "r mod 16"]
    by (intro quotes_ok_append quotes_ok_escape quotes_ok_bytes) auto
  ultimately show ?thesis by (simp add: quote_seg_def enc)
qed

text \<open>Valid UTF-8: decoding and encoding give the text back.\<close>

definition utf8_valid :: "bytes \<Rightarrow> bool" where
  "utf8_valid s \<longleftrightarrow> string_of_runes (runes_of s) = s"

lemma utf8_valid_ascii: "\<forall>c \<in> set s. byte_val c < 0x80 \<Longrightarrow> utf8_valid s"
  by (induction s) (simp_all add: utf8_valid_def runes_of_def string_of_runes_def)

theorem parse_json_string:
  assumes "utf8_valid s"
  shows "parse_string (json_string s @ t) = Some (s, t)"
proof -
  define rs where "rs = runes_of s"
  have rs: "\<forall>r \<in> set rs. valid_rune r" and s: "string_of_runes rs = s"
    using runes_of_valid assms by (auto simp: rs_def utf8_valid_def)
  let ?q = "concat (map (\<lambda>r. quote_seg (r, encode_rune r)) rs)"
  have js: "json_string s = DQUOTE # ?q @ [DQUOTE]"
    using decode_segs_string_of_runes [OF rs, of "[]"] s by (simp add: json_string_def comp_def)
  have "quotes_ok ?q"
    using rs by (intro quotes_ok_concat) (auto simp: quotes_ok_quote_rune)
  then have "lex_string (?q @ DQUOTE # t) = Some (?q, t)"
    unfolding quotes_ok_def by simp
  then show ?thesis
    using unquote_quoted_runes [OF rs] s by (simp add: js parse_string_def)
qed

section \<open>The fuel is enough\<close>

lemma length_skip_ws: "length (skip_ws s) \<le> length s"
  by (simp add: skip_ws_def length_dropWhile_le)

lemma lex_string_consumes: "lex_string s = Some (b, r) \<Longrightarrow> length r < length s"
  by (induction s arbitrary: b r rule: lex_string.induct)
    (fastforce split: if_splits option.splits list.splits)+

lemma parse_string_consumes: "parse_string s = Some (x, r) \<Longrightarrow> length r < length s"
  by (auto simp: parse_string_def Option.bind_eq_Some_conv dest!: lex_string_consumes
      split: list.splits if_splits)

lemma lex_int_part_consumes: "lex_int_part s = Some (x, r) \<Longrightarrow> length r < length s"
  by (auto simp: lex_int_part_def le_imp_less_Suc length_dropWhile_le split: list.splits if_splits)

lemma lex_frac_consumes: "lex_frac s = Some (x, r) \<Longrightarrow> length r \<le> length s"
  by (auto simp: lex_frac_def le_SucI length_dropWhile_le split: list.splits if_splits)

lemma lex_exp_consumes:
  assumes "lex_exp s = Some (x, r)"
  shows "length r \<le> length s"
proof -
  have "length (dropWhile is_digit t) \<le> Suc (Suc (length t))" for t
    using length_dropWhile_le [of is_digit t] by simp
  with assms show ?thesis
    by (auto simp: lex_exp_def Let_def length_dropWhile_le intro: le_SucI split: list.splits if_splits)
qed

lemma lex_number_consumes: "lex_number s = Some (x, r) \<Longrightarrow> length r < length s"
  by (force simp: lex_number_def Let_def Option.bind_eq_Some_conv
      dest!: lex_int_part_consumes lex_frac_consumes lex_exp_consumes)

lemma expect_consumes: "expect w s = Some r \<Longrightarrow> length r \<le> length s"
  by (auto simp: expect_def split: if_splits)

lemma skip_ws_Cons_length: "skip_ws s = c # t \<Longrightarrow> length t < length s"
  using length_skip_ws [of s] by simp

lemma parse_consumes:
  "parse_value n s = Some (v, r) \<Longrightarrow> length r < length s"
  "parse_elems n s = Some (vs, r) \<Longrightarrow> length r < length s"
  "parse_members n s = Some (ms, r) \<Longrightarrow> length r < length s"
proof (induction n arbitrary: s v vs ms r)
  case 0
  { case 1 then show ?case by simp }
  { case 2 then show ?case by simp }
  { case 3 then show ?case by simp }
next
  case (Suc n)
  { case 1
    then obtain c t where s: "skip_ws s = c # t" by (cases "skip_ws s") auto
    have ex: "expect w (c # t) = Some r' \<Longrightarrow> w \<noteq> [] \<Longrightarrow> length r' \<le> length t" for w r'
      by (cases w) (auto simp: expect_def has_prefix_def split: if_splits)
    have "length r \<le> length t"
      using 1 s Suc.IH(2,3) [of t] skip_ws_Cons_length [of t] parse_string_consumes [of "c # t"]
        lex_number_consumes [of "c # t"] ex
      by (auto simp: Let_def split: if_splits list.splits)
    then show ?case using skip_ws_Cons_length [OF s] by simp }
  { case 2
    then obtain v0 r0 where v: "parse_value n s = Some (v0, r0)"
      by (auto simp: Option.bind_eq_Some_conv)
    then obtain d t where "skip_ws r0 = d # t" using 2 by (cases "skip_ws r0") auto
    with 2 v Suc.IH(1) [OF v] Suc.IH(2) [of t] skip_ws_Cons_length [of r0]
    show ?case by (fastforce split: if_splits) }
  { case 3
    then obtain k r0 where k: "parse_string (skip_ws s) = Some (k, r0)"
      by (auto simp: Option.bind_eq_Some_conv)
    then obtain e r1 where e: "skip_ws r0 = e # r1" using 3 by (cases "skip_ws r0") auto
    with 3 k obtain v0 r2 where v: "parse_value n r1 = Some (v0, r2)"
      by (auto simp: Option.bind_eq_Some_conv split: if_splits)
    then obtain d t where d: "skip_ws r2 = d # t" using 3 k e by (cases "skip_ws r2") (auto split: if_splits)
    have "length t < length s"
      using parse_string_consumes [OF k] length_skip_ws [of s] skip_ws_Cons_length [OF e] Suc.IH(1) [OF v]
        skip_ws_Cons_length [OF d] by simp
    with 3 k e v d Suc.IH(3) [of t] show ?case by (fastforce split: if_splits) }
qed

lemma parse_fuel:
  "2 * length s < n \<Longrightarrow> 2 * length s < m \<Longrightarrow> parse_value n s = parse_value m s"
  "2 * length s + 1 < n \<Longrightarrow> 2 * length s + 1 < m \<Longrightarrow> parse_elems n s = parse_elems m s"
  "2 * length s + 1 < n \<Longrightarrow> 2 * length s + 1 < m \<Longrightarrow> parse_members n s = parse_members m s"
proof (induction n arbitrary: s m)
  case 0
  { case 1 then show ?case by simp }
  { case 2 then show ?case by simp }
  { case 3 then show ?case by simp }
next
  case (Suc n)
  { case 1
    then obtain k where m: "m = Suc k" by (cases m) auto
    have "parse_elems n t = parse_elems k t \<and> parse_members n t = parse_members k t"
      if "skip_ws s = c # t" for c t
      using 1 m skip_ws_Cons_length [OF that] Suc.IH(2,3) [of t k] by simp
    then show ?case unfolding m by (simp add: Let_def split: list.split) }
  { case 2
    then obtain k where m: "m = Suc k" by (cases m) auto
    have v: "parse_value n s = parse_value k s" using 2 m Suc.IH(1) [of s k] by simp
    have e: "parse_elems n t = parse_elems k t"
      if "parse_value k s = Some (x, r0)" "skip_ws r0 = d # t" for x r0 d t
      using 2 m parse_consumes(1) [OF that(1)] skip_ws_Cons_length [OF that(2)] Suc.IH(2) [of t k]
      by simp
    show ?case unfolding m by (auto simp: v e intro!: Option.bind_cong split: list.split) }
  { case 3
    then obtain k where m: "m = Suc k" by (cases m) auto
    have v: "parse_value n r1 = parse_value k r1"
      if "parse_string (skip_ws s) = Some (x, r0)" "skip_ws r0 = d # r1" for x r0 d r1
      using 3 m parse_string_consumes [OF that(1)] length_skip_ws [of s] skip_ws_Cons_length [OF that(2)]
        Suc.IH(1) [of r1 k] by simp
    have e: "parse_members n t = parse_members k t"
      if "parse_string (skip_ws s) = Some (x, r0)" "skip_ws r0 = d # r1"
        "parse_value k r1 = Some (y, r2)" "skip_ws r2 = f # t" for x r0 d r1 y r2 f t
      using 3 m parse_string_consumes [OF that(1)] length_skip_ws [of s] skip_ws_Cons_length [OF that(2)]
        parse_consumes(1) [OF that(3)] skip_ws_Cons_length [OF that(4)] Suc.IH(3) [of t k] by simp
    show ?case unfolding m
      by (auto simp: v e intro!: Option.bind_cong split: list.split) }
qed

text \<open>More fuel than \<open>json_parse\<close> gives changes nothing.\<close>

lemma json_parse_fuel:
  assumes "2 * length s < n"
  shows "json_parse s = Option.bind (parse_value n s) (\<lambda>(v, r). if skip_ws r = [] then Some v else None)"
  using parse_fuel(1) [OF assms, of "2 * length s + 1"] by (simp add: json_parse_def)

end
