(* ===== verification/WatermarkFile.thy ===== *)
theory WatermarkFile
  imports JsonParse
begin

text \<open>
  The watermark file (\<open>internal/state/watermark.go\<close>): its contents are \<open>fileState\<close> written by
  \<open>json.MarshalIndent\<close> with two blanks per level and read back by \<open>json.Unmarshal\<close>, with the
  decoder's rules for field names (exact, then case-folded), \<open>null\<close>, unknown fields, repeated
  keys and integer ranges.  The main fact is the round trip: what the store writes, it reads back.
\<close>

text \<open>\<open>Entry\<close>: an \<open>int64\<close> offset and a \<open>uint64\<close> inode.\<close>

record wm_entry =
  w_offset :: int
  w_inode :: nat

definition zero_entry :: wm_entry where
  "zero_entry = \<lparr>w_offset = 0, w_inode = 0\<rparr>"

definition entry_in_range :: "wm_entry \<Rightarrow> bool" where
  "entry_in_range e \<longleftrightarrow> - (2 ^ 63) \<le> w_offset e \<and> w_offset e < 2 ^ 63 \<and> w_inode e < 2 ^ 64"

type_synonym wm_files = "wm_entry gomap"

section \<open>Writing\<close>

definition nl_indent :: "nat \<Rightarrow> bytes" where
  "nl_indent n = NL # replicate (2 * n) CHR '' ''"

definition encode_entry :: "string \<times> wm_entry \<Rightarrow> bytes" where
  "encode_entry ke = json_string (fst ke) @ '': {'' @
     nl_indent 3 @ DQUOTE # ''offset'' @ DQUOTE # '': '' @ show_int (w_offset (snd ke)) @ '','' @
     nl_indent 3 @ DQUOTE # ''inode'' @ DQUOTE # '': '' @ show_nat (w_inode (snd ke)) @
     nl_indent 2 @ ''}''"

definition encode_map :: "wm_files \<Rightarrow> bytes" where
  "encode_map m = (if m = [] then ''{}''
     else ''{'' @ nl_indent 2 @ go_join ('','' @ nl_indent 2) (map encode_entry m) @
       nl_indent 1 @ ''}'')"

definition encode_files :: "wm_files \<Rightarrow> bytes" where
  "encode_files m = ''{'' @ nl_indent 1 @ DQUOTE # ''files'' @ DQUOTE # '': '' @ encode_map m @
     nl_indent 0 @ ''}''"

section \<open>Reading\<close>

text \<open>\<open>strconv.ParseInt (lit, 10, 64)\<close> and \<open>ParseUint\<close> on a number literal.\<close>

definition parse_digits :: "bytes \<Rightarrow> nat option" where
  "parse_digits ds = (if ds \<noteq> [] \<and> list_all is_digit ds then Some (read_nat ds) else None)"

definition parse_int64 :: "bytes \<Rightarrow> int option" where
  "parse_int64 lit =
     (let neg = has_prefix lit ''-'';
          ds = (if neg then drop 1 lit else lit) in
      Option.bind (parse_digits ds) (\<lambda>n.
        let v = (if neg then - int n else int n) in
        if - (2 ^ 63) \<le> v \<and> v < 2 ^ 63 then Some v else None))"

definition parse_uint64 :: "bytes \<Rightarrow> nat option" where
  "parse_uint64 lit = Option.bind (parse_digits lit) (\<lambda>n. if n < 2 ^ 64 then Some n else None)"

text \<open>
  Matching an object key with a struct field: folding maps a letter to upper case, and the two
  non-ASCII runes that fold to an ASCII letter to that letter.
\<close>

definition fold_rune :: "rune \<Rightarrow> rune" where
  "fold_rune r = (if 97 \<le> r \<and> r < 123 then r - 32
     else if r = 0x17F then 0x53 else if r = 0x212A then 0x4B else r)"

definition field_matches :: "bytes \<Rightarrow> bytes \<Rightarrow> bool" where
  "field_matches key name \<longleftrightarrow> map fold_rune (runes_of key) = map fold_rune (runes_of name)"

definition decode_entry_field :: "bytes \<times> jval \<Rightarrow> wm_entry \<Rightarrow> wm_entry option" where
  "decode_entry_field kv e = (case kv of (k, v) \<Rightarrow>
     if field_matches k ''offset'' then
       (case v of
          JNull \<Rightarrow> Some e
        | JNum lit \<Rightarrow> map_option (\<lambda>i. e\<lparr>w_offset := i\<rparr>) (parse_int64 lit)
        | _ \<Rightarrow> None)
     else if field_matches k ''inode'' then
       (case v of
          JNull \<Rightarrow> Some e
        | JNum lit \<Rightarrow> map_option (\<lambda>i. e\<lparr>w_inode := i\<rparr>) (parse_uint64 lit)
        | _ \<Rightarrow> None)
     else Some e)"

fun fold_opt :: "('a \<Rightarrow> 's \<Rightarrow> 's option) \<Rightarrow> 'a list \<Rightarrow> 's \<Rightarrow> 's option" where
  "fold_opt f [] s = Some s"
| "fold_opt f (x # xs) s = Option.bind (f x s) (fold_opt f xs)"

definition decode_entry :: "jval \<Rightarrow> wm_entry option" where
  "decode_entry v = (case v of
      JNull \<Rightarrow> Some zero_entry
    | JObj ms \<Rightarrow> fold_opt decode_entry_field ms zero_entry
    | _ \<Rightarrow> None)"

definition decode_binding :: "bytes \<times> jval \<Rightarrow> wm_files \<Rightarrow> wm_files option" where
  "decode_binding kv m = map_option (\<lambda>e. gm_put m (fst kv) e) (decode_entry (snd kv))"

text \<open>A member of the top-level object; \<open>None\<close> for the map is Go's nil map.\<close>

definition decode_member :: "bytes \<times> jval \<Rightarrow> wm_files option \<Rightarrow> wm_files option option" where
  "decode_member kv st = (case kv of (k, v) \<Rightarrow>
     if field_matches k ''files'' then
       (case v of
          JNull \<Rightarrow> Some None
        | JObj ms \<Rightarrow>
            map_option Some (fold_opt decode_binding ms (case st of None \<Rightarrow> gm_empty | Some m \<Rightarrow> m))
        | _ \<Rightarrow> None)
     else Some st)"

text \<open>\<open>json.Unmarshal (data, &state)\<close>: \<open>None\<close> is any error.\<close>

definition decode_files :: "bytes \<Rightarrow> wm_files option option" where
  "decode_files text = Option.bind (json_parse text) (\<lambda>v. case v of
      JNull \<Rightarrow> Some None
    | JObj ms \<Rightarrow> fold_opt decode_member ms None
    | _ \<Rightarrow> None)"

text \<open>
  The tables that survive a write: increasing keys, paths in valid UTF-8, numbers in range.
\<close>

definition storable :: "wm_files \<Rightarrow> bool" where
  "storable m \<longleftrightarrow> gm_ok m \<and> list_all (\<lambda>ke. utf8_valid (fst ke) \<and> entry_in_range (snd ke)) m"

section \<open>The round trip\<close>

lemma skip_ws_simps [simp]:
  "skip_ws [] = []"
  "skip_ws (c # s) = (if is_ws c then skip_ws s else c # s)"
  by (simp_all add: skip_ws_def)

lemma skip_ws_blanks [simp]: "skip_ws (replicate k CHR '' '' @ s) = skip_ws s"
  by (induction k) (simp_all add: is_ws_def)

lemma skip_ws_indent [simp]: "skip_ws (nl_indent n @ s) = skip_ws s"
  by (simp add: nl_indent_def is_ws_def)

lemma is_ws_facts [simp]:
  "\<not> is_ws DQUOTE" "\<not> is_ws CHR ''{''" "\<not> is_ws CHR ''}''" "\<not> is_ws CHR '',''" "\<not> is_ws CHR '':''"
  "is_ws CHR '' ''" "is_ws NL"
  by (simp_all add: is_ws_def)

lemma is_ws_digit: "is_digit c \<Longrightarrow> \<not> is_ws c"
  by (auto simp: is_ws_def is_digit_def)

lemma skip_ws_json_string [simp]: "skip_ws (json_string s @ t) = json_string s @ t"
  by (simp add: json_string_def)

lemma parse_ascii_name:
  assumes "\<forall>c \<in> set s. html_safe (byte_val c)"
  shows "parse_string (DQUOTE # s @ DQUOTE # t) = Some (s, t)"
proof -
  have js: "decode_segs s = map (\<lambda>c. (byte_val c, [c])) s"
    using assms by (induction s) (auto simp: html_safe_def)
  have "map (\<lambda>c. quote_seg (byte_val c, [c])) s = map (\<lambda>c. [c]) s"
    using assms by (auto simp: quote_seg_def quote_ascii_def Let_def html_safe_def)
  moreover have "concat (map (\<lambda>c. [c]) s) = s" by simp
  ultimately have "json_string s = DQUOTE # s @ [DQUOTE]"
    by (simp only: json_string_def js map_map comp_def fst_conv snd_conv)
  then show ?thesis
    using parse_json_string [of s t] utf8_valid_ascii [of s] assms by (auto simp: html_safe_def)
qed

lemma digit_char_0: "digit_char 0 = CHR ''0''"
  by code_simp

lemma show_nat_head:
  "\<exists>c s. show_nat n = c # s \<and> is_digit c \<and> (c = CHR ''0'' \<longrightarrow> s = [])"
proof (induction n rule: show_nat.induct)
  case (1 n)
  show ?case
  proof (cases "n < 10")
    case True
    then show ?thesis by (simp add: show_nat_less_10 is_digit_def byte_val_digit_char)
  next
    case False
    then obtain c s where c: "show_nat (n div 10) = c # s" "is_digit c" "c = CHR ''0'' \<longrightarrow> s = []"
      using 1 by auto
    have "c \<noteq> CHR ''0''"
    proof
      assume "c = CHR ''0''"
      then have "show_nat (n div 10) = show_nat 0"
        using c by (simp add: show_nat_less_10 digit_char_0)
      then show False using False by simp
    qed
    with c False show ?thesis by (simp add: show_nat_ge_10)
  qed
qed

lemma show_nat_all_digits: "list_all is_digit (show_nat n)"
  using show_nat_digits [of _ n] by (auto simp: list_all_iff is_digit_def)

definition number_end :: "char \<Rightarrow> bool" where
  "number_end c \<longleftrightarrow> \<not> is_digit c \<and> c \<noteq> CHR ''.'' \<and> c \<noteq> CHR ''e'' \<and> c \<noteq> CHR ''E''"

lemma number_end_facts [simp]: "number_end CHR '',''" "number_end NL"
  by (simp_all add: number_end_def is_digit_def)

lemma lex_int_part_show_nat:
  assumes "number_end c"
  shows "lex_int_part (show_nat n @ c # t) = Some (show_nat n, c # t)"
proof -
  obtain d s where s: "show_nat n = d # s" "is_digit d" "d = CHR ''0'' \<longrightarrow> s = []"
    using show_nat_head by blast
  have "\<forall>x \<in> set s. is_digit x" using show_nat_all_digits [of n] s by (simp add: list_all_iff)
  then have "takeWhile is_digit (s @ c # t) = s" "dropWhile is_digit (s @ c # t) = c # t"
    using assms by (auto simp: number_end_def takeWhile_append dropWhile_append)
  with s show ?thesis by (auto simp: lex_int_part_def)
qed

lemma lex_number_show_int:
  assumes "number_end c"
  shows "lex_number (show_int i @ c # t) = Some (show_int i, c # t)"
proof -
  have rest: "lex_frac (c # t) = Some ([], c # t)" "lex_exp (c # t) = Some ([], c # t)"
    using assms by (simp_all add: number_end_def lex_frac_def lex_exp_def)
  show ?thesis
  proof (cases "i < 0")
    case True
    then show ?thesis
      using rest lex_int_part_show_nat [OF assms]
      by (simp add: show_int_def lex_number_def)
  next
    case False
    obtain d s where s: "show_nat (nat i) = d # s" "is_digit d"
      using show_nat_head by blast
    then have "d \<noteq> CHR ''-''" by (auto simp: is_digit_def)
    then show ?thesis
      using False s rest lex_int_part_show_nat [OF assms, of "nat i" t]
      by (simp add: show_int_def lex_number_def)
  qed
qed

lemma show_int_head: "\<exists>c s. show_int i = c # s \<and> (is_digit c \<or> c = CHR ''-'')"
  using show_nat_head [of "nat i"] by (auto simp: show_int_def)

lemma parse_value_show_int:
  assumes "number_end c"
  shows "parse_value (Suc n) (CHR '' '' # show_int i @ c # t) = Some (JNum (show_int i), c # t)"
proof -
  obtain d s where s: "show_int i = d # s" "is_digit d \<or> d = CHR ''-''"
    using show_int_head by blast
  then have "d \<noteq> DQUOTE" "d \<noteq> CHR ''{''" "d \<noteq> CHR ''[''" "d \<noteq> CHR ''t''" "d \<noteq> CHR ''f''"
      "d \<noteq> CHR ''n''" "\<not> is_ws d"
    by (auto simp: is_digit_def is_ws_def)
  with lex_number_show_int [OF assms, of i t] s show ?thesis
    by (simp add: Let_def)
qed

lemma parse_digits_show_nat: "parse_digits (show_nat n) = Some n"
  using show_nat_head [of n] by (auto simp: parse_digits_def show_nat_all_digits read_show_nat)

lemma parse_uint64_show: "n < 2 ^ 64 \<Longrightarrow> parse_uint64 (show_nat n) = Some n"
  by (simp add: parse_uint64_def parse_digits_show_nat)

lemma parse_int64_show:
  assumes "- (2 ^ 63) \<le> i" "i < 2 ^ 63"
  shows "parse_int64 (show_int i) = Some i"
proof (cases "i < 0")
  case True
  then show ?thesis
    using assms by (simp add: parse_int64_def show_int_def has_prefix_def parse_digits_show_nat)
next
  case False
  obtain d s where s: "show_nat (nat i) = d # s" "is_digit d"
    using show_nat_head by blast
  then have "d \<noteq> CHR ''-''" by (auto simp: is_digit_def)
  then show ?thesis
    using False assms s parse_digits_show_nat [of "nat i"]
    by (simp add: parse_int64_def show_int_def has_prefix_def)
qed

text \<open>An entry, the entries of a map, the whole text.\<close>

definition entry_members :: "wm_entry \<Rightarrow> (bytes \<times> jval) list" where
  "entry_members e = [(''offset'', JNum (show_int (w_offset e))), (''inode'', JNum (show_nat (w_inode e)))]"

lemma show_nat_show_int: "show_nat n = show_int (int n)"
  by (simp add: show_int_def)

lemma name_offset: "parse_string (DQUOTE # CHR ''o'' # CHR ''f'' # CHR ''f'' # CHR ''s'' # CHR ''e'' # CHR ''t'' # DQUOTE # t) = Some (''offset'', t)"
  using parse_ascii_name [of "''offset''" t] by (simp add: html_safe_def)

lemma name_inode: "parse_string (DQUOTE # CHR ''i'' # CHR ''n'' # CHR ''o'' # CHR ''d'' # CHR ''e'' # DQUOTE # t) = Some (''inode'', t)"
  using parse_ascii_name [of "''inode''" t] by (simp add: html_safe_def)

lemma name_files: "parse_string (DQUOTE # CHR ''f'' # CHR ''i'' # CHR ''l'' # CHR ''e'' # CHR ''s'' # DQUOTE # t) = Some (''files'', t)"
  using parse_ascii_name [of "''files''" t] by (simp add: html_safe_def)

lemma parse_value_ws: "parse_value n (CHR '' '' # s) = parse_value n s"
  by (cases n) (simp_all add: Let_def)

lemma parse_entry_members:
  "parse_members (Suc (Suc (Suc n)))
     (nl_indent 3 @ DQUOTE # ''offset'' @ DQUOTE # '': '' @ show_int (w_offset e) @ '','' @
      nl_indent 3 @ DQUOTE # ''inode'' @ DQUOTE # '': '' @ show_nat (w_inode e) @
      nl_indent 2 @ ''}'' @ t) = Some (entry_members e, t)"
  using parse_value_show_int [of "CHR '',''" "Suc n" "w_offset e"]
    parse_value_show_int [of NL n "int (w_inode e)"]
  by (simp add: name_offset name_inode entry_members_def show_nat_show_int nl_indent_def [of 2]
      del: parse_value.simps replicate.simps)


lemma parse_encoded_entry:
  "parse_value (Suc (Suc (Suc (Suc n))))
     ('' {'' @ nl_indent 3 @ DQUOTE # ''offset'' @ DQUOTE # '': '' @ show_int (w_offset e) @ '','' @
      nl_indent 3 @ DQUOTE # ''inode'' @ DQUOTE # '': '' @ show_nat (w_inode e) @
      nl_indent 2 @ ''}'' @ t) = Some (JObj (entry_members e), t)"
  using parse_entry_members [of n e t]
  by (simp add: Let_def del: parse_members.simps)

lemma parse_encoded_map_members:
  assumes "m \<noteq> []" "\<forall>ke \<in> set m. utf8_valid (fst ke)" "length m + 5 \<le> n"
  shows "parse_members n (nl_indent 2 @ go_join ('','' @ nl_indent 2) (map encode_entry m) @
      nl_indent 1 @ ''}'' @ t) = Some (map (\<lambda>ke. (fst ke, JObj (entry_members (snd ke)))) m, t)"
  using assms
proof (induction m arbitrary: n)
  case Nil
  then show ?case by simp
next
  case (Cons ke m)
  have name: "parse_string (json_string (fst ke) @ r) = Some (fst ke, r)" for r
    using Cons.prems parse_json_string by simp
  obtain n' where n: "n = Suc n'" "length m + 5 \<le> n'"
    using Cons.prems(3) by (cases n) auto
  have "\<exists>n''. n' = Suc (Suc (Suc (Suc n'')))"
    using n(2) by (intro exI [of _ "n' - 4"]) simp
  then have val: "parse_value n' ('' {'' @ nl_indent 3 @ DQUOTE # ''offset'' @ DQUOTE # '': '' @ show_int (w_offset (snd ke)) @ '','' @
      nl_indent 3 @ DQUOTE # ''inode'' @ DQUOTE # '': '' @ show_nat (w_inode (snd ke)) @
      nl_indent 2 @ ''}'' @ r) = Some (JObj (entry_members (snd ke)), r)" for r
    using parse_encoded_entry by blast
  note facts = val name n(1) encode_entry_def [of ke]
  show ?case
  proof (cases "m = []")
    case True
    with facts show ?thesis by (simp del: parse_value.simps)
  next
    case False
    have rest: "parse_members n' (nl_indent 2 @ go_join ('','' @ nl_indent 2) (map encode_entry m) @
      nl_indent 1 @ ''}'' @ t) = Some (map (\<lambda>ke. (fst ke, JObj (entry_members (snd ke)))) m, t)"
      using Cons.IH [OF False _ n(2)] Cons.prems by simp
    from False facts rest show ?thesis by (simp add: go_join_Cons del: parse_value.simps)
  qed
qed


lemma length_go_join_ge: "(\<And>p. p \<in> set ps \<Longrightarrow> p \<noteq> []) \<Longrightarrow> length ps \<le> length (go_join sep ps)"
proof (induction sep ps rule: go_join.induct)
  case (3 sep p q ps)
  then have "length (q # ps) \<le> length (go_join sep (q # ps))" "1 \<le> length p"
    by (auto simp: Suc_le_eq)
  then show ?case by simp
qed (auto simp: Suc_le_eq)

lemma parse_encoded_files:
  assumes "\<forall>ke \<in> set m. utf8_valid (fst ke)"
  shows "json_parse (encode_files m) =
     Some (JObj [(''files'', JObj (map (\<lambda>ke. (fst ke, JObj (entry_members (snd ke)))) m))])"
proof -
  define n where "n = 2 * length (encode_files m) - 2"
  have len: "2 * length (encode_files m) + 1 = Suc (Suc (Suc n))"
    by (simp add: n_def encode_files_def nl_indent_def)
  have big: "length m + 5 \<le> n"
  proof (cases "m = []")
    case True
    then show ?thesis by (simp add: n_def encode_files_def nl_indent_def encode_map_def)
  next
    case False
    have "length (map encode_entry m) \<le> length (go_join ('','' @ nl_indent 2) (map encode_entry m))"
      by (rule length_go_join_ge) (auto simp: encode_entry_def)
    with False show ?thesis by (simp add: n_def encode_files_def nl_indent_def encode_map_def)
  qed
  have val: "parse_value (Suc n) (CHR '' '' # encode_map m @ nl_indent 0 @ ''}'') =
      Some (JObj (map (\<lambda>ke. (fst ke, JObj (entry_members (snd ke)))) m), nl_indent 0 @ ''}'')"
  proof (cases "m = []")
    case True
    then show ?thesis by (simp add: encode_map_def)
  next
    case False
    have "\<exists>t. skip_ws (nl_indent 2 @ go_join ('','' @ nl_indent 2) (map encode_entry m) @
        nl_indent 1 @ ''}'' @ nl_indent 0 @ ''}'') = DQUOTE # t"
    proof -
      obtain ke m' where "m = ke # m'" using False by (cases m) auto
      then show ?thesis
        by (cases "m' = []") (auto simp: go_join_Cons encode_entry_def json_string_def)
    qed
    then show ?thesis
      using parse_encoded_map_members [OF False assms big, of "nl_indent 0 @ ''}''"] False
      by (auto simp: encode_map_def)
  qed
  have mem: "parse_members (Suc (Suc n)) (nl_indent 1 @ DQUOTE # ''files'' @ DQUOTE # '': '' @ encode_map m @
     nl_indent 0 @ ''}'') = Some ([(''files'', JObj (map (\<lambda>ke. (fst ke, JObj (entry_members (snd ke)))) m))], [])"
    using val by (simp add: name_files del: parse_value.simps)
  have "parse_value (Suc (Suc (Suc n))) (encode_files m) =
    Some (JObj [(''files'', JObj (map (\<lambda>ke. (fst ke, JObj (entry_members (snd ke)))) m))], [])"
    using mem unfolding encode_files_def by (simp del: parse_members.simps)
  then show ?thesis
    unfolding json_parse_def len by (simp del: parse_value.simps)
qed

lemma field_matches_names [simp]:
  "field_matches ''files'' ''files''" "field_matches ''offset'' ''offset''" "field_matches ''inode'' ''inode''"
  by (simp_all add: field_matches_def)

lemma field_inode_not_offset [simp]: "\<not> field_matches ''inode'' ''offset''"
  by (simp add: field_matches_def runes_of_def)

lemma decode_encoded_entry:
  "entry_in_range e \<Longrightarrow> decode_entry (JObj (entry_members e)) = Some e"
  by (simp add: decode_entry_def entry_members_def decode_entry_field_def entry_in_range_def
      parse_int64_show parse_uint64_show zero_entry_def)

lemma gm_put_last:
  "(\<forall>k \<in> set (gm_keys a). k < k') \<Longrightarrow> gm_put a k' v = a @ [(k', v)]"
  by (induction a) (auto simp: gm_keys_def)

lemma decode_encoded_bindings:
  assumes "gm_ok (a @ m)" "\<forall>ke \<in> set m. entry_in_range (snd ke)"
  shows "fold_opt decode_binding (map (\<lambda>ke. (fst ke, JObj (entry_members (snd ke)))) m) a = Some (a @ m)"
  using assms
proof (induction m arbitrary: a)
  case Nil
  then show ?case by simp
next
  case (Cons ke m)
  have "gm_put a (fst ke) (snd ke) = a @ [ke]"
    using Cons.prems(1) by (subst gm_put_last) (auto simp: gm_ok_def gm_keys_def sorted_wrt_append)
  then have "decode_binding (fst ke, JObj (entry_members (snd ke))) a = Some (a @ [ke])"
    using Cons.prems(2) by (simp add: decode_binding_def decode_encoded_entry)
  then show ?case using Cons.IH [of "a @ [ke]"] Cons.prems by simp
qed

lemma decode_encode_files: "storable m \<Longrightarrow> decode_files (encode_files m) = Some (Some m)"
  using decode_encoded_bindings [of gm_empty m] parse_encoded_files [of m]
  by (simp add: storable_def list_all_iff decode_files_def decode_member_def gm_empty_def)

end
