(* ===== verification/Watermark.thy ===== *)
theory Watermark
  imports WatermarkFile
begin

text \<open>
  The watermark store (\<open>internal/state\<close>): the in-memory table, its persistence policy, the
  write-to-temporary-then-rename protocol, and start-up, which loads the file or archives a
  corrupt one.  The disk is a map from paths to contents; what the operating system answers to
  each call is an argument, so every error branch is a branch of the model.  A persisting
  operation returns the list of disks it goes through: a crash leaves one of them.
\<close>

type_synonym disk = "string \<Rightarrow> bytes option"

record wm_options =
  o_flush_interval :: int
  o_flush_every :: int
  o_reset_on_corrupt :: bool

text \<open>\<open>Store\<close>; the mutex makes each method one step.\<close>

record wm_store =
  s_path :: string
  s_opts :: wm_options
  s_backup :: string
  s_files :: wm_files
  s_dirty :: bool
  s_updates :: int

section \<open>Persisting\<close>

text \<open>
  Answers of the operating system during one \<open>persistLocked\<close>: errors of \<open>MkdirAll\<close>, of
  \<open>WriteFile\<close> (with the number of bytes written, \<open>None\<close> when the file was not opened) and of
  \<open>Rename\<close>.
\<close>

record persist_env =
  pe_mkdir :: "go_error option"
  pe_write :: "(go_error \<times> nat option) option"
  pe_rename :: "go_error option"

definition no_fault :: persist_env where
  "no_fault = \<lparr>pe_mkdir = None, pe_write = None, pe_rename = None\<rparr>"

definition tmp_path :: "string \<Rightarrow> string" where
  "tmp_path p = p @ ''.tmp''"

text \<open>\<open>os.WriteFile\<close>: the file is truncated, then grows to its first \<open>k\<close> bytes.\<close>

definition write_trace :: "string \<Rightarrow> bytes \<Rightarrow> nat \<Rightarrow> disk \<Rightarrow> disk list" where
  "write_trace p data k d = map (\<lambda>j. d(p \<mapsto> take j data)) [0..<Suc k]"

definition rename_disk :: "string \<Rightarrow> string \<Rightarrow> disk \<Rightarrow> disk" where
  "rename_disk a b d = (d(b := d a))(a := None)"

definition persist_locked :: "persist_env \<Rightarrow> wm_store \<Rightarrow> disk \<Rightarrow> wm_store \<times> disk list \<times> check" where
  "persist_locked env s d =
     (case pe_mkdir env of
        Some e \<Rightarrow> (s, [], Inl (ErrWrap ''create watermark directory: '' e))
      | None \<Rightarrow>
          (let payload = encode_files (s_files s); tmp = tmp_path (s_path s) in
           case pe_write env of
             Some (e, None) \<Rightarrow> (s, [], Inl (ErrWrap ''write watermark file: '' e))
           | Some (e, Some k) \<Rightarrow>
               (s, write_trace tmp payload k d, Inl (ErrWrap ''write watermark file: '' e))
           | None \<Rightarrow>
               (let ds = write_trace tmp payload (length payload) d in
                case pe_rename env of
                  Some e \<Rightarrow> (s, ds, Inl (ErrWrap ''replace watermark file: '' e))
                | None \<Rightarrow>
                    (s\<lparr>s_dirty := False, s_updates := 0\<rparr>,
                     ds @ [rename_disk tmp (s_path s) (last ds)], ok))))"

definition should_persist :: "wm_store \<Rightarrow> bool" where
  "should_persist s \<longleftrightarrow>
     o_flush_interval (s_opts s) = 0 \<and> o_flush_every (s_opts s) = 0
     \<or> o_flush_every (s_opts s) > 0 \<and> s_updates s \<ge> o_flush_every (s_opts s)"

section \<open>The operations\<close>

definition wm_get :: "wm_store \<Rightarrow> string \<Rightarrow> wm_entry option" where
  "wm_get s p = gm_get (s_files s) p"

definition wm_set ::
  "persist_env \<Rightarrow> string \<Rightarrow> int \<Rightarrow> nat \<Rightarrow> wm_store \<Rightarrow> disk \<Rightarrow> wm_store \<times> disk list \<times> check" where
  "wm_set env p off ino s d =
     (let s' = s\<lparr>s_files := gm_put (s_files s) p \<lparr>w_offset = off, w_inode = ino\<rparr>,
                 s_dirty := True, s_updates := s_updates s + 1\<rparr> in
      if should_persist s' then persist_locked env s' d else (s', [], ok))"

definition wm_flush :: "persist_env \<Rightarrow> wm_store \<Rightarrow> disk \<Rightarrow> wm_store \<times> disk list \<times> check" where
  "wm_flush env s d = (if \<not> s_dirty s then (s, [], ok) else persist_locked env s d)"

text \<open>
  \<open>RunPeriodicFlush\<close>: one flush per tick while the context lives; errors go to the callback and
  the loop continues.  The ticks that fire before cancellation are the list of their answers.
\<close>

fun run_periodic_flush ::
  "persist_env list \<Rightarrow> wm_store \<Rightarrow> disk \<Rightarrow> wm_store \<times> disk list \<times> go_error list" where
  "run_periodic_flush [] s d = (s, [], [])"
| "run_periodic_flush (env # ticks) s d =
     (if o_flush_interval (s_opts s) \<le> 0 then (s, [], [])
      else
        (case wm_flush env s d of (s1, ds, r) \<Rightarrow>
         case run_periodic_flush ticks s1 (last (d # ds)) of (s2, ds', errs) \<Rightarrow>
           (s2, ds @ ds', (case r of Inl e \<Rightarrow> e # errs | Inr u \<Rightarrow> errs))))"

section \<open>Start-up\<close>

datatype load_error = NotExist | ReadFailed go_error | Corrupt

text \<open>Answers during start-up: a read error other than a missing file, the rename, the clock.\<close>

record start_env =
  se_read :: "go_error option"
  se_rename :: "go_error option"
  se_time :: string

definition wm_load :: "start_env \<Rightarrow> wm_store \<Rightarrow> disk \<Rightarrow> load_error + wm_store" where
  "wm_load env s d =
     (case se_read env of
        Some e \<Rightarrow> Inl (ReadFailed e)
      | None \<Rightarrow>
          (case d (s_path s) of
             None \<Rightarrow> Inl NotExist
           | Some data \<Rightarrow>
               (case decode_files data of
                  None \<Rightarrow> Inl Corrupt
                | Some None \<Rightarrow> Inr s
                | Some (Some m) \<Rightarrow> Inr (s\<lparr>s_files := m\<rparr>))))"

text \<open>\<open>archiveCorruptWatermark\<close>.\<close>

definition archive_corrupt :: "start_env \<Rightarrow> string \<Rightarrow> disk \<Rightarrow> (string \<times> disk) result" where
  "archive_corrupt env p d =
     (let backup = p @ ''.corrupt.'' @ se_time env in
      case se_rename env of
        Some e \<Rightarrow> Inl (ErrWrap ''archive corrupt watermark file: '' e)
      | None \<Rightarrow> Inr (backup, rename_disk p backup d))"

datatype start_error = LoadFailed load_error | ResetFailed go_error

definition fresh_store :: "string \<Rightarrow> wm_options \<Rightarrow> wm_store" where
  "fresh_store p opts = \<lparr>s_path = p, s_opts = opts, s_backup = [], s_files = gm_empty,
     s_dirty = False, s_updates = 0\<rparr>"

definition new_store ::
  "start_env \<Rightarrow> string \<Rightarrow> wm_options \<Rightarrow> disk \<Rightarrow> (start_error + wm_store) \<times> disk" where
  "new_store env p opts d =
     (let s = fresh_store p opts in
      case wm_load env s d of
        Inr s' \<Rightarrow> (Inr s', d)
      | Inl NotExist \<Rightarrow> (Inr s, d)
      | Inl Corrupt \<Rightarrow>
          (if o_reset_on_corrupt opts then
             (case archive_corrupt env p d of
                Inl e \<Rightarrow> (Inl (ResetFailed (ErrWrap (''reset corrupt watermark '' @ quoted p @ '': '') e)), d)
              | Inr (backup, d') \<Rightarrow> (Inr (s\<lparr>s_backup := backup\<rparr>), d'))
           else (Inl (LoadFailed Corrupt), d))
      | Inl (ReadFailed e) \<Rightarrow> (Inl (LoadFailed (ReadFailed e)), d))"

section \<open>Histories\<close>

text \<open>A run of the store between start-up and a crash, with the answers it got.\<close>

datatype wm_op = OpSet string int nat persist_env | OpFlush persist_env

definition wm_step :: "wm_op \<Rightarrow> wm_store \<Rightarrow> disk \<Rightarrow> wm_store \<times> disk list" where
  "wm_step op s d = (case op of
      OpSet p off ino env \<Rightarrow> (case wm_set env p off ino s d of (s', ds, r) \<Rightarrow> (s', ds))
    | OpFlush env \<Rightarrow> (case wm_flush env s d of (s', ds, r) \<Rightarrow> (s', ds)))"

fun wm_run :: "wm_op list \<Rightarrow> wm_store \<Rightarrow> disk \<Rightarrow> wm_store \<times> disk list" where
  "wm_run [] s d = (s, [])"
| "wm_run (op # ops) s d =
     (case wm_step op s d of (s1, ds) \<Rightarrow>
      case wm_run ops s1 (last (d # ds)) of (s2, ds') \<Rightarrow> (s2, ds @ ds'))"

text \<open>The abstract store: a table of positions, and nothing else.\<close>

definition spec_step :: "wm_op \<Rightarrow> wm_files \<Rightarrow> wm_files" where
  "spec_step op m = (case op of
      OpSet p off ino env \<Rightarrow> gm_put m p \<lparr>w_offset = off, w_inode = ino\<rparr>
    | OpFlush env \<Rightarrow> m)"

definition spec_run :: "wm_op list \<Rightarrow> wm_files \<Rightarrow> wm_files" where
  "spec_run ops m = foldl (\<lambda>m op. spec_step op m) m ops"

definition op_storable :: "wm_op \<Rightarrow> bool" where
  "op_storable op = (case op of
      OpSet p off ino env \<Rightarrow> utf8_valid p \<and> entry_in_range \<lparr>w_offset = off, w_inode = ino\<rparr>
    | OpFlush env \<Rightarrow> True)"

definition op_env :: "wm_op \<Rightarrow> persist_env" where
  "op_env op = (case op of OpSet p off ino env \<Rightarrow> env | OpFlush env \<Rightarrow> env)"

definition is_set_op :: "wm_op \<Rightarrow> bool" where
  "is_set_op op = (case op of OpSet p off ino env \<Rightarrow> True | OpFlush env \<Rightarrow> False)"

text \<open>What a process started on this disk reads: the table, when start-up succeeds.\<close>

definition restart_files :: "string \<Rightarrow> wm_options \<Rightarrow> disk \<Rightarrow> wm_files option" where
  "restart_files p opts d =
     (case fst (new_store \<lparr>se_read = None, se_rename = None, se_time = []\<rparr> p opts d) of
        Inl e \<Rightarrow> None
      | Inr s \<Rightarrow> Some (s_files s))"

section \<open>What persisting does to the disk\<close>

lemma tmp_path_neq [simp]: "tmp_path p \<noteq> p" "p \<noteq> tmp_path p"
  by (simp_all add: tmp_path_def)

lemma write_trace_frame: "\<lbrakk>d' \<in> set (write_trace q data k d); p \<noteq> q\<rbrakk> \<Longrightarrow> d' p = d p"
  by (auto simp: write_trace_def)

lemma write_trace_last [simp]: "last (write_trace q data k d) = d(q \<mapsto> take k data)"
  by (simp add: write_trace_def)

lemma write_trace_not_Nil [simp]: "write_trace q data k d \<noteq> []"
  by (simp add: write_trace_def)

lemma persist_cases:
  obtains (kept) e where "persist_locked env s d = (s, [], Inl e)"
  | (partial) k e where "persist_locked env s d =
        (s, write_trace (tmp_path (s_path s)) (encode_files (s_files s)) k d, Inl e)"
  | (replaced) "persist_locked env s d = (s\<lparr>s_dirty := False, s_updates := 0\<rparr>,
        write_trace (tmp_path (s_path s)) (encode_files (s_files s)) (length (encode_files (s_files s))) d @
        [(d(s_path s \<mapsto> encode_files (s_files s)))(tmp_path (s_path s) := None)], ok)"
proof (cases "pe_mkdir env")
  case (Some e)
  then show ?thesis using kept by (simp add: persist_locked_def)
next
  case mk: None
  show ?thesis
  proof (cases "pe_write env")
    case (Some ek)
    obtain e k where ek: "ek = (e, k)" by force
    show ?thesis
    proof (cases k)
      case None
      then show ?thesis using kept mk Some ek by (simp add: persist_locked_def Let_def)
    next
      case (Some k')
      then show ?thesis
        using partial mk \<open>pe_write env = Some ek\<close> ek by (simp add: persist_locked_def Let_def)
    qed
  next
    case wr: None
    show ?thesis
    proof (cases "pe_rename env")
      case (Some e)
      then show ?thesis using partial mk wr by (simp add: persist_locked_def Let_def)
    next
      case None
      have "rename_disk (tmp_path (s_path s)) (s_path s) (last (write_trace (tmp_path (s_path s)) p (length p) d))
          = (d(s_path s \<mapsto> p))(tmp_path (s_path s) := None)" for p
        by (auto simp: rename_disk_def fun_eq_iff)
      then show ?thesis
        using replaced mk wr None by (simp add: persist_locked_def Let_def)
    qed
  qed
qed

lemma persist_atomic:
  assumes "persist_locked env s d = (s', ds, r)" "d' \<in> set ds"
  shows "d' (s_path s) = d (s_path s) \<or> d' (s_path s) = Some (encode_files (s_files s))"
    "\<lbrakk>q \<noteq> s_path s; q \<noteq> tmp_path (s_path s)\<rbrakk> \<Longrightarrow> d' q = d q"
  using assms write_trace_frame
  by (cases rule: persist_cases [of env s d]; fastforce)+

lemma persist_result:
  assumes "persist_locked env s d = (s', ds, r)"
  shows "r = ok \<and> s' = s\<lparr>s_dirty := False, s_updates := 0\<rparr> \<and>
           last (d # ds) (s_path s) = Some (encode_files (s_files s))
       \<or> r \<noteq> ok \<and> s' = s \<and> last (d # ds) (s_path s) = d (s_path s)"
  using assms
  by (cases rule: persist_cases [of env s d]) (auto simp: write_trace_last)

lemma persist_no_fault:
  "persist_locked no_fault s d = (s', ds, r) \<Longrightarrow> r = ok"
  by (auto simp: persist_locked_def no_fault_def Let_def)

section \<open>The store refines a table of positions\<close>

lemma set_result:
  assumes "wm_set env p off ino s d = (s', ds, r)"
  shows "s_files s' = gm_put (s_files s) p \<lparr>w_offset = off, w_inode = ino\<rparr>"
    "s_path s' = s_path s" "s_opts s' = s_opts s"
    "(s_updates s' = 0 \<and> \<not> s_dirty s' \<and> last (d # ds) (s_path s) = Some (encode_files (s_files s')))
     \<or> (s_updates s' = s_updates s + 1 \<and> s_dirty s' \<and> last (d # ds) (s_path s) = d (s_path s))"
  using assms persist_result [of env _ d s' ds r]
  by (fastforce simp: wm_set_def Let_def split: if_splits)+

lemma flush_result:
  assumes "wm_flush env s d = (s', ds, r)"
  shows "s_files s' = s_files s" "s_path s' = s_path s" "s_opts s' = s_opts s"
    "(s' = s \<and> last (d # ds) (s_path s) = d (s_path s)) \<or>
     (s_updates s' = 0 \<and> \<not> s_dirty s' \<and> last (d # ds) (s_path s) = Some (encode_files (s_files s)))"
  using assms persist_result [of env s d s' ds r]
  by (auto simp: wm_flush_def split: if_splits)

lemma step_refines:
  assumes "wm_step op s d = (s', ds)"
  shows "s_files s' = spec_step op (s_files s)" "s_path s' = s_path s" "s_opts s' = s_opts s"
  using assms set_result(1-3) flush_result(1-3)
  by (auto simp: wm_step_def spec_step_def split: wm_op.splits prod.splits)

lemma run_append:
  "wm_run (a @ b) s d = (case wm_run a s d of (s1, ds) \<Rightarrow>
     case wm_run b s1 (last (d # ds)) of (s2, ds') \<Rightarrow> (s2, ds @ ds'))"
proof (induction a arbitrary: s d)
  case Nil
  then show ?case by (simp split: prod.splits)
next
  case (Cons op a)
  obtain s1 ds where 1: "wm_step op s d = (s1, ds)" by force
  obtain s2 ds' where 2: "wm_run a s1 (last (d # ds)) = (s2, ds')" by force
  have "last (d # ds @ ds') = last (last (d # ds) # ds')"
    by (cases ds' rule: rev_cases) auto
  then show ?case
    using Cons.IH [of s1 "last (d # ds)"] by (simp add: 1 2 split: prod.splits)
qed

lemma run_refines:
  assumes "wm_run ops s d = (s', ds)"
  shows "s_files s' = spec_run ops (s_files s) \<and> s_path s' = s_path s \<and> s_opts s' = s_opts s"
  using assms
proof (induction ops arbitrary: s d ds)
  case Nil
  then show ?case by (simp add: spec_run_def)
next
  case (Cons op ops)
  obtain s1 ds1 where 1: "wm_step op s d = (s1, ds1)" by force
  obtain ds2 where 2: "wm_run ops s1 (last (d # ds1)) = (s', ds2)"
    using Cons.prems by (auto simp: 1 split: prod.splits)
  show ?case
    using Cons.IH [OF 2] step_refines [OF 1] by (simp add: spec_run_def)
qed

lemma gm_put_storable:
  assumes "storable m" "utf8_valid p" "entry_in_range e"
  shows "storable (gm_put m p e)"
proof -
  have "set (gm_put m p e) \<subseteq> insert (p, e) (set m)"
    by (induction m p e rule: gm_put.induct) auto
  with assms show ?thesis by (auto simp: storable_def list_all_iff gm_ok_put)
qed

lemma spec_storable:
  "\<lbrakk>storable m; list_all op_storable ops\<rbrakk> \<Longrightarrow> storable (spec_run ops m)"
  by (induction ops arbitrary: m)
     (auto simp: spec_run_def spec_step_def op_storable_def gm_put_storable split: wm_op.splits)

lemma list_all_take: "list_all P xs \<Longrightarrow> list_all P (take n xs)"
  by (auto simp: list_all_iff dest: in_set_takeD)

section \<open>Crash and restart\<close>

lemma restart_encoded: "\<lbrakk>d p = Some (encode_files m); storable m\<rbrakk> \<Longrightarrow> restart_files p opts d = Some m"
  by (simp add: restart_files_def new_store_def wm_load_def fresh_store_def decode_encode_files)

lemma restart_cong: "d p = d' p \<Longrightarrow> restart_files p opts d = restart_files p opts d'"
  by (simp add: restart_files_def new_store_def wm_load_def fresh_store_def archive_corrupt_def Let_def
      split: option.splits)

lemma step_trace:
  assumes "wm_step op s d = (s', ds)" "d' \<in> set ds"
  shows "d' (s_path s) = d (s_path s) \<or> d' (s_path s) = Some (encode_files (s_files s'))"
proof (cases op)
  case (OpSet p off ino env)
  define t where "t = s\<lparr>s_files := gm_put (s_files s) p \<lparr>w_offset = off, w_inode = ino\<rparr>,
                 s_dirty := True, s_updates := s_updates s + 1\<rparr>"
  have t: "s_path t = s_path s" by (simp add: t_def)
  obtain r where r: "persist_locked env t d = (s', ds, r)"
    using assms OpSet by (auto simp: wm_step_def wm_set_def Let_def t_def split: if_splits prod.splits)
  have "s_files s' = s_files t"
    using persist_result [OF r] by auto
  then show ?thesis using persist_atomic(1) [OF r assms(2)] t by simp
next
  case (OpFlush env)
  obtain r where r: "persist_locked env s d = (s', ds, r)"
    using assms OpFlush by (auto simp: wm_step_def wm_flush_def split: if_splits prod.splits)
  have "s_files s' = s_files s"
    using persist_result [OF r] by auto
  then show ?thesis using persist_atomic(1) [OF r assms(2)] by simp
qed

lemma run_counts_lost_updates:
  assumes "storable (s_files s)" "list_all op_storable ops"
    and "s_updates s = 0" "\<not> s_dirty s" "restart_files (s_path s) opts d = Some (s_files s)"
    and "wm_run ops s d = (s', ds)"
  shows "(\<exists>j \<le> length ops.
            restart_files (s_path s) opts (last (d # ds)) = Some (spec_run (take j ops) (s_files s)) \<and>
            int (length (filter is_set_op (drop j ops))) = s_updates s')
         \<and> (s_dirty s' \<longleftrightarrow> s_updates s' > 0)"
  using assms(2,6)
proof (induction ops arbitrary: s' ds rule: rev_induct)
  case Nil
  then show ?case using assms by (intro conjI exI [of _ 0]) (auto simp: spec_run_def)
next
  case (snoc op ops)
  obtain s1 ds1 where 1: "wm_run ops s d = (s1, ds1)" by force
  obtain ds2 where 2: "wm_step op s1 (last (d # ds1)) = (s', ds2)" and ds: "ds = ds1 @ ds2"
    using snoc.prems(2) by (auto simp: run_append 1 split: prod.splits)
  have last: "last (d # ds) = last (last (d # ds1) # ds2)"
    by (cases ds2 rule: rev_cases) (auto simp: ds)
  obtain j where j: "j \<le> length ops"
      "restart_files (s_path s) opts (last (d # ds1)) = Some (spec_run (take j ops) (s_files s))"
      "int (length (filter is_set_op (drop j ops))) = s_updates s1"
    and dirty: "s_dirty s1 \<longleftrightarrow> s_updates s1 > 0"
    using snoc.IH [OF _ 1] snoc.prems(1) by auto
  have path: "s_path s1 = s_path s" using run_refines [OF 1] by simp
  have files: "s_files s' = spec_run (ops @ [op]) (s_files s)"
    using run_refines [OF snoc.prems(2)] by simp
  have storable: "storable (s_files s')"
    using spec_storable [OF assms(1) snoc.prems(1)] files by simp
  have "(s_updates s' = 0 \<and> \<not> s_dirty s' \<and> last (d # ds) (s_path s) = Some (encode_files (s_files s')))
     \<or> (s_updates s' = s_updates s1 + (if is_set_op op then 1 else 0) \<and> (is_set_op op \<longrightarrow> s_dirty s')
        \<and> (\<not> is_set_op op \<longrightarrow> s_dirty s' = s_dirty s1)
        \<and> last (d # ds) (s_path s) = last (d # ds1) (s_path s))"
  proof (cases op)
    case (OpSet p off ino env)
    obtain r where r: "wm_set env p off ino s1 (last (d # ds1)) = (s', ds2, r)"
      using 2 OpSet by (auto simp: wm_step_def split: prod.splits)
    show ?thesis using set_result(4) [OF r] path last by (simp add: OpSet is_set_op_def)
  next
    case (OpFlush env)
    obtain r where r: "wm_flush env s1 (last (d # ds1)) = (s', ds2, r)"
      using 2 OpFlush by (auto simp: wm_step_def split: prod.splits)
    show ?thesis using flush_result(1,4) [OF r] path last by (auto simp: OpFlush is_set_op_def)
  qed
  then show ?case
  proof
    assume *: "s_updates s' = 0 \<and> \<not> s_dirty s' \<and> last (d # ds) (s_path s) = Some (encode_files (s_files s'))"
    then have "restart_files (s_path s) opts (last (d # ds)) = Some (s_files s')"
      using restart_encoded storable by blast
    with * files show ?thesis by (intro conjI exI [of _ "length (ops @ [op])"]) auto
  next
    assume *: "s_updates s' = s_updates s1 + (if is_set_op op then 1 else 0) \<and> (is_set_op op \<longrightarrow> s_dirty s')
        \<and> (\<not> is_set_op op \<longrightarrow> s_dirty s' = s_dirty s1)
        \<and> last (d # ds) (s_path s) = last (d # ds1) (s_path s)"
    then have "restart_files (s_path s) opts (last (d # ds)) = Some (spec_run (take j ops) (s_files s))"
      using j(2) restart_cong by metis
    moreover have "int (length (filter is_set_op (drop j (ops @ [op])))) = s_updates s'"
      using * j by simp
    moreover have "s_dirty s' \<longleftrightarrow> s_updates s' > 0"
      using * dirty j(3) by (auto split: if_splits)
    ultimately show ?thesis using j(1) by (intro conjI exI [of _ j]) auto
  qed
qed

lemma run_trace_snapshot:
  assumes "storable (s_files s)" "list_all op_storable ops"
    and "restart_files (s_path s) opts d = Some (s_files s)"
    and "wm_run ops s d = (s', ds)" "d' \<in> set (d # ds)"
  shows "\<exists>j \<le> length ops. restart_files (s_path s) opts d' = Some (spec_run (take j ops) (s_files s))"
  using assms(2,4,5)
proof (induction ops arbitrary: s' ds d' rule: rev_induct)
  case Nil
  then show ?case using assms by (auto simp: spec_run_def)
next
  case (snoc op ops)
  obtain s1 ds1 where 1: "wm_run ops s d = (s1, ds1)" by force
  obtain ds2 where 2: "wm_step op s1 (last (d # ds1)) = (s', ds2)" and ds: "ds = ds1 @ ds2"
    using snoc.prems(2) by (auto simp: run_append 1 split: prod.splits)
  have old: "\<exists>j \<le> length (ops @ [op]). restart_files (s_path s) opts x = Some (spec_run (take j (ops @ [op])) (s_files s))"
    if "x \<in> set (d # ds1)" for x
  proof -
    have "\<exists>j \<le> length ops. restart_files (s_path s) opts x = Some (spec_run (take j ops) (s_files s))"
      using snoc.IH [OF _ 1 that] snoc.prems(1) by simp
    then obtain j where "j \<le> length ops" "restart_files (s_path s) opts x = Some (spec_run (take j ops) (s_files s))"
      by blast
    then show ?thesis by (intro exI [of _ j]) simp
  qed
  show ?case
  proof (cases "d' \<in> set (d # ds1)")
    case True
    then show ?thesis using old by blast
  next
    case False
    then have "d' \<in> set ds2" using snoc.prems(3) ds by auto
    then have "d' (s_path s) = last (d # ds1) (s_path s) \<or> d' (s_path s) = Some (encode_files (s_files s'))"
      using step_trace [OF 2] run_refines [OF 1] by simp
    then show ?thesis
    proof
      assume "d' (s_path s) = last (d # ds1) (s_path s)"
      then have "restart_files (s_path s) opts d' = restart_files (s_path s) opts (last (d # ds1))"
        by (rule restart_cong)
      then show ?thesis using old [of "last (d # ds1)"] by (metis last_in_set list.discI)
    next
      assume *: "d' (s_path s) = Some (encode_files (s_files s'))"
      have "storable (s_files s')" "s_files s' = spec_run (ops @ [op]) (s_files s)"
        using spec_storable [OF assms(1) snoc.prems(1)] run_refines [OF snoc.prems(2)] by auto
      then show ?thesis
        using restart_encoded [of d' "s_path s", OF *] by (intro exI [of _ "length (ops @ [op])"]) simp
    qed
  qed
qed

lemma run_no_fault_updates:
  assumes "list_all (\<lambda>op. op_env op = no_fault) ops" "wm_run ops s d = (s', ds)" "s_updates s = 0"
  shows "(o_flush_interval (s_opts s) = 0 \<and> o_flush_every (s_opts s) = 0 \<longrightarrow> s_updates s' = 0)
    \<and> (o_flush_every (s_opts s) > 0 \<longrightarrow> s_updates s' < o_flush_every (s_opts s))"
  using assms(1,2)
proof (induction ops arbitrary: s' ds rule: rev_induct)
  case Nil
  then show ?case using assms by auto
next
  case (snoc op ops)
  obtain s1 ds1 where 1: "wm_run ops s d = (s1, ds1)" by force
  obtain ds2 where 2: "wm_step op s1 (last (d # ds1)) = (s', ds2)"
    using snoc.prems(2) by (auto simp: run_append 1 split: prod.splits)
  have opts: "s_opts s1 = s_opts s" using run_refines [OF 1] by simp
  have IH: "(o_flush_interval (s_opts s) = 0 \<and> o_flush_every (s_opts s) = 0 \<longrightarrow> s_updates s1 = 0)
    \<and> (o_flush_every (s_opts s) > 0 \<longrightarrow> s_updates s1 < o_flush_every (s_opts s))"
    using snoc.IH [OF _ 1] snoc.prems(1) by simp
  have env: "op_env op = no_fault" using snoc.prems(1) by simp
  have persisted: "s_updates t' = 0" if "persist_locked no_fault t x = (t', xs, r)" for t t' x xs r
    using persist_no_fault [OF that] persist_result [OF that] by auto
  show ?case
  proof (cases op)
    case (OpSet p off ino e)
    define t where "t = s1\<lparr>s_files := gm_put (s_files s1) p \<lparr>w_offset = off, w_inode = ino\<rparr>,
                 s_dirty := True, s_updates := s_updates s1 + 1\<rparr>"
    show ?thesis
    proof (cases "should_persist t")
      case True
      then have "s_updates s' = 0"
        using 2 env persisted by (auto simp: OpSet op_env_def wm_step_def wm_set_def Let_def t_def split: prod.splits)
      then show ?thesis by simp
    next
      case False
      then have "s' = t" using 2 by (auto simp: OpSet wm_step_def wm_set_def Let_def t_def)
      then show ?thesis using False opts by (auto simp: should_persist_def t_def)
    qed
  next
    case (OpFlush e)
    then have "s' = s1 \<or> s_updates s' = 0"
      using 2 env persisted by (auto simp: op_env_def wm_step_def wm_flush_def split: if_splits prod.splits)
    then show ?thesis using IH by auto
  qed
qed

text \<open>With an interval and no count no \<open>Set\<close> writes: the ticks of \<open>RunPeriodicFlush\<close> do.\<close>

lemma interval_only_updates:
  assumes "list_all is_set_op ops" "o_flush_interval (s_opts s) > 0" "o_flush_every (s_opts s) = 0" "wm_run ops s d = (s', ds)"
  shows "s_updates s' = s_updates s + int (length ops) \<and> ds = []"
  using assms
proof (induction ops arbitrary: s s' ds)
  case (Cons op ops)
  obtain p off ino env where op: "op = OpSet p off ino env" using Cons.prems(1) by (cases op) (auto simp: is_set_op_def)
  define t where "t = s\<lparr>s_files := gm_put (s_files s) p \<lparr>w_offset = off, w_inode = ino\<rparr>, s_dirty := True, s_updates := s_updates s + 1\<rparr>"
  have step: "wm_step op s d = (t, [])"
    using Cons.prems(2,3) by (simp add: op wm_step_def wm_set_def should_persist_def t_def Let_def)
  then have "wm_run ops t d = (s', ds)" using Cons.prems(4) by (auto split: prod.splits)
  from Cons.IH [OF _ _ _ this] Cons.prems(1,2,3) show ?case by (simp add: t_def)
qed simp

section \<open>Properties\<close>

text \<open>
  C25. Round trip of the watermark file: the table the store writes with \<open>MarshalIndent\<close> is the
  table \<open>Unmarshal\<close> reads, for every set of paths in valid UTF-8 and every 64-bit position (\<open>storable\<close>).
\<close>

theorem watermark_file_roundtrip:
  assumes "storable m"
  shows "decode_files (encode_files m) = Some (Some m)"
  using assms by (rule decode_encode_files)

definition sample_table :: wm_files where
  "sample_table = [(''/a'', \<lparr>w_offset = 120, w_inode = 7\<rparr>), (''/b'', \<lparr>w_offset = 5, w_inode = 9\<rparr>)]"

lemma sample_table_storable: "storable sample_table"
  by (simp add: sample_table_def storable_def gm_ok_def gm_keys_def utf8_valid_ascii entry_in_range_def)

theorem watermark_file_roundtrip_witness:
  "decode_files (encode_files sample_table) = Some (Some sample_table)"
  using watermark_file_roundtrip [OF sample_table_storable] .

text \<open>
  C4. Crash safety of the replace protocol: whatever the operating system answers, every disk the
  store goes through during a history of \<open>Set\<close> and \<open>Flush\<close> calls (a crash leaves one of them)
  makes the next start read the table as it was after some prefix of that history.  The paths are
  valid UTF-8 and the positions fit 64 bits (\<open>storable\<close>, \<open>op_storable\<close>); nothing is assumed of the disk.
\<close>

theorem crash_recovers_a_snapshot:
  assumes "storable (s_files s)" "list_all op_storable ops"
    and "restart_files (s_path s) opts d = Some (s_files s)"
    and "wm_run ops s d = (s', ds)" "d' \<in> set (d # ds)"
  shows "\<exists>j \<le> length ops.
    restart_files (s_path s) opts d' = Some (spec_run (take j ops) (s_files s))"
  using assms by (rule run_trace_snapshot)

definition sample_opts :: wm_options where
  "sample_opts = \<lparr>o_flush_interval = 0, o_flush_every = 2, o_reset_on_corrupt = False\<rparr>"

definition sample_ops :: "wm_op list" where
  "sample_ops = [OpSet ''/a'' 10 7 no_fault,
     OpSet ''/a'' 20 7 \<lparr>pe_mkdir = None, pe_write = Some (ErrText ''full'', Some 3), pe_rename = None\<rparr>]"

lemma sample_ops_facts:
  "list_all op_storable sample_ops"
  "restart_files (s_path (fresh_store ''/w'' sample_opts)) sample_opts (\<lambda>p. None)
     = Some (s_files (fresh_store ''/w'' sample_opts))"
  "storable (s_files (fresh_store ''/w'' sample_opts))"
  by (simp_all add: sample_ops_def op_storable_def utf8_valid_ascii entry_in_range_def
      restart_files_def new_store_def wm_load_def fresh_store_def storable_def gm_empty_def gm_ok_def gm_keys_def)

lemma sample_run:
  "snd (wm_run sample_ops (fresh_store ''/w'' sample_opts) (\<lambda>p. None))
   = write_trace ''/w.tmp'' (encode_files (gm_put gm_empty ''/a'' \<lparr>w_offset = 20, w_inode = 7\<rparr>)) 3 (\<lambda>p. None)"
  by (simp add: sample_ops_def sample_opts_def fresh_store_def wm_step_def wm_set_def should_persist_def
      persist_locked_def no_fault_def tmp_path_def gm_empty_def)

theorem crash_recovers_a_snapshot_witness:
  "\<exists>j \<le> length sample_ops. restart_files ''/w'' sample_opts [''/w.tmp'' \<mapsto> ''{'']
     = Some (spec_run (take j sample_ops) gm_empty)"
proof -
  let ?s = "fresh_store ''/w'' sample_opts"
  have payload: "encode_files m = CHR ''{'' # nl_indent 1 @ DQUOTE # ''files'' @ DQUOTE # '': '' @ encode_map m @
     nl_indent 0 @ ''}''" for m by (simp add: encode_files_def)
  have "[''/w.tmp'' \<mapsto> ''{''] \<in> set ((\<lambda>p. None) # snd (wm_run sample_ops ?s (\<lambda>p. None)))"
    unfolding sample_run write_trace_def payload by (auto intro!: image_eqI [of _ _ 1])
  then show ?thesis
    using crash_recovers_a_snapshot [OF sample_ops_facts(3,1,2) prod.collapse [symmetric]]
    by (simp add: fresh_store_def)
qed

text \<open>
  C5. How much a crash can lose: at the end of any history, with any faults, the next start reads
  a table that misses exactly the \<open>updatesSinceFlush\<close> most recent updates.  When no write failed, that
  is none in synchronous mode (no interval, no count), and fewer than \<open>flush_every\<close> when that is positive.
  With an interval alone, the default, the count bounds nothing: after a run of updates without a
  tick between them all of them are missing.  A flush that succeeds leaves none.
\<close>

theorem lost_updates_are_counted:
  assumes "storable (s_files s)" "list_all op_storable ops"
    and "s_updates s = 0" "\<not> s_dirty s" "restart_files (s_path s) opts d = Some (s_files s)"
    and "wm_run ops s d = (s', ds)"
  shows "(\<exists>j \<le> length ops.
            restart_files (s_path s) opts (last (d # ds)) = Some (spec_run (take j ops) (s_files s)) \<and>
            int (length (filter is_set_op (drop j ops))) = s_updates s')
       \<and> (list_all (\<lambda>op. op_env op = no_fault) ops \<longrightarrow>
            (o_flush_interval (s_opts s) = 0 \<and> o_flush_every (s_opts s) = 0 \<longrightarrow> s_updates s' = 0) \<and>
            (o_flush_every (s_opts s) > 0 \<longrightarrow> s_updates s' < o_flush_every (s_opts s)))
       \<and> (list_all is_set_op ops \<and> o_flush_interval (s_opts s) > 0 \<and> o_flush_every (s_opts s) = 0 \<longrightarrow>
            s_updates s' = int (length ops))
       \<and> (wm_flush env s' (last (d # ds)) = (s'', ds'', ok) \<longrightarrow> s_updates s'' = 0)"
proof (intro conjI impI)
  note counts = run_counts_lost_updates [OF assms]
  show "\<exists>j \<le> length ops.
            restart_files (s_path s) opts (last (d # ds)) = Some (spec_run (take j ops) (s_files s)) \<and>
            int (length (filter is_set_op (drop j ops))) = s_updates s'"
    using counts by blast
  assume "list_all (\<lambda>op. op_env op = no_fault) ops"
  note bound = run_no_fault_updates [OF this assms(6,3)]
  show "s_updates s' = 0" if "o_flush_interval (s_opts s) = 0 \<and> o_flush_every (s_opts s) = 0"
    using bound that by blast
  show "s_updates s' < o_flush_every (s_opts s)" if "o_flush_every (s_opts s) > 0"
    using bound that by blast
next
  show "s_updates s' = int (length ops)"
    if "list_all is_set_op ops \<and> o_flush_interval (s_opts s) > 0 \<and> o_flush_every (s_opts s) = 0"
    using interval_only_updates [OF _ _ _ assms(6)] that assms(3) by simp
next
  assume f: "wm_flush env s' (last (d # ds)) = (s'', ds'', ok)"
  have counts: "s_dirty s' \<longleftrightarrow> s_updates s' > 0" "s_updates s' \<ge> 0"
    using run_counts_lost_updates [OF assms] by auto
  show "s_updates s'' = 0"
    using f counts persist_result [of env s' "last (d # ds)" s'' ds'' ok]
    by (auto simp: wm_flush_def split: if_splits)
qed

text \<open>With \<open>flush_every\<close> 2: the second of two writes fails, and three updates without a fault.\<close>

theorem lost_updates_are_counted_witness:
  "\<exists>s' ds t' ds'. wm_run sample_ops (fresh_store ''/w'' sample_opts) (\<lambda>p. None) = (s', ds) \<and> s_updates s' = 2 \<and>
     (\<exists>j \<le> length sample_ops.
        restart_files ''/w'' sample_opts (last ((\<lambda>p. None) # ds)) = Some (spec_run (take j sample_ops) gm_empty) \<and>
        int (length (filter is_set_op (drop j sample_ops))) = 2) \<and>
     wm_run (replicate 3 (hd sample_ops)) (fresh_store ''/w'' sample_opts) (\<lambda>p. None) = (t', ds') \<and> s_updates t' < 2 \<and>
     (\<exists>j \<le> 3. restart_files ''/w'' sample_opts (last ((\<lambda>p. None) # ds')) =
        Some (spec_run (take j (replicate 3 (hd sample_ops))) gm_empty) \<and>
        int (length (filter is_set_op (drop j (replicate 3 (hd sample_ops))))) = s_updates t')"
proof -
  let ?s = "fresh_store ''/w'' sample_opts" and ?ops = "replicate 3 (hd sample_ops)"
  obtain s' ds where r: "wm_run sample_ops ?s (\<lambda>p. None) = (s', ds)" by force
  obtain t' ds' where q: "wm_run ?ops ?s (\<lambda>p. None) = (t', ds')" by force
  have two: "s_updates s' = 2"
    using r by (simp add: sample_ops_def sample_opts_def fresh_store_def wm_step_def wm_set_def should_persist_def
      persist_locked_def no_fault_def Let_def) auto
  have s: "s_updates ?s = 0" "\<not> s_dirty ?s" "s_path ?s = ''/w''" "s_files ?s = gm_empty" "o_flush_every (s_opts ?s) = 2"
    by (simp_all add: fresh_store_def sample_opts_def)
  have ops: "list_all op_storable ?ops" "list_all (\<lambda>op. op_env op = no_fault) ?ops" "length ?ops = 3"
    by (simp_all add: list_all_iff sample_ops_def op_storable_def utf8_valid_ascii entry_in_range_def op_env_def)
  note lost = lost_updates_are_counted [OF sample_ops_facts(3) _ s(1,2) sample_ops_facts(2)]
  have "\<exists>j \<le> length sample_ops.
      restart_files ''/w'' sample_opts (last ((\<lambda>p. None) # ds)) = Some (spec_run (take j sample_ops) gm_empty) \<and>
      int (length (filter is_set_op (drop j sample_ops))) = 2"
    using conjunct1 [OF lost [OF sample_ops_facts(1) r]] two s(3,4) by simp
  moreover have "s_updates t' < 2 \<and> (\<exists>j \<le> 3. restart_files ''/w'' sample_opts (last ((\<lambda>p. None) # ds')) = Some (spec_run (take j ?ops) gm_empty) \<and>
      int (length (filter is_set_op (drop j ?ops))) = s_updates t')"
    using lost [OF ops(1) q] ops(2,3) s(3-5) by simp
  ultimately show ?thesis using r q two by blast
qed

text \<open>
  C26. Start-up: a missing file and a readable one give a store; a corrupt file stops the process
  with the disk unchanged unless the reset is enabled, and then its bytes are kept under the
  backup name, the watermark path is free and the table is empty.
\<close>

theorem corrupt_file_is_never_lost:
  assumes "d p = Some data" "decode_files data = None" "se_read env = None"
  shows "if o_reset_on_corrupt opts \<and> se_rename env = None
     then \<exists>s d'. new_store env p opts d = (Inr s, d') \<and> s_files s = gm_empty \<and>
            d' (s_backup s) = Some data \<and> d' p = None \<and> (\<forall>q. q \<noteq> p \<and> q \<noteq> s_backup s \<longrightarrow> d' q = d q)
     else \<exists>e. new_store env p opts d = (Inl e, d)"
  using assms
  by (auto simp: new_store_def wm_load_def fresh_store_def archive_corrupt_def rename_disk_def Let_def
      split: option.splits)

lemma empty_file_is_corrupt: "decode_files [] = None"
  by (simp add: decode_files_def json_parse_def skip_ws_def)

theorem corrupt_file_is_never_lost_witness:
  "\<exists>s d'. new_store \<lparr>se_read = None, se_rename = None, se_time = ''t''\<rparr> ''/w''
     (sample_opts\<lparr>o_reset_on_corrupt := True\<rparr>) [''/w'' \<mapsto> []] = (Inr s, d') \<and> d' (s_backup s) = Some [] \<and> d' ''/w'' = None"
  using corrupt_file_is_never_lost [of "[''/w'' \<mapsto> []]" "''/w''" "[]"
      "\<lparr>se_read = None, se_rename = None, se_time = ''t''\<rparr>" "sample_opts\<lparr>o_reset_on_corrupt := True\<rparr>"]
    empty_file_is_corrupt by auto

end
