(* ===== verification/Tail.thy ===== *)
theory Tail
  imports Config Watermark
begin

text \<open>
  The watcher (\<open>internal/watcher\<close>): splitting a growing file into line events, resuming from a
  watermark, detecting rotation by inode, and the buffer policy of the channel to the pipeline.
  The file system is a record of answers: what \<open>Stat\<close>, \<open>Open\<close>, \<open>Glob\<close> and reads return at one
  moment; an open file is known by its inode and keeps its contents when its path is reused.
\<close>

section \<open>Line events and tailed files\<close>

record line_event =
  le_path :: string
  le_line :: bytes
  le_offset :: nat
  le_inode :: nat

text \<open>
  \<open>fileState\<close>.  \<open>f_handle\<close> is the inode of the open file, which may differ from the recorded one
  when the path was replaced between \<open>Stat\<close> and \<open>Open\<close>.  The reader's position is \<open>f_offset\<close>:
  when a read loop ends at the end of file its buffer is empty.
\<close>

record file_state =
  f_path :: string
  f_handle :: nat
  f_offset :: nat
  f_inode :: nat
  f_resumed :: bool
  f_resume_offset :: nat
  f_size_at_open :: nat

text \<open>What the watcher produces: events sent to the pipeline, and the counters it bumps.\<close>

record tail_log =
  tl_events :: "line_event list"
  tl_read :: nat
  tl_replayed :: nat
  tl_dropped :: nat

definition empty_log :: tail_log where
  "empty_log = \<lparr>tl_events = [], tl_read = 0, tl_replayed = 0, tl_dropped = 0\<rparr>"

text \<open>
  The channel: \<open>ch_drop\<close> is \<open>on_full: drop\<close>.  \<open>ch_room e\<close> says whether the send of \<open>e\<close> goes
  through: in drop mode that there is room at once, in block mode that room appears before
  shutdown.  \<open>ch_ctx\<close> is false while the watcher has no run context, when sends only block.
\<close>

record channel =
  ch_drop :: bool
  ch_ctx :: bool
  ch_room :: "line_event \<Rightarrow> bool"

section \<open>Reading lines\<close>

text \<open>\<open>ReadBytes ('\n')\<close>: the bytes up to and including the first newline, and the rest.\<close>

fun read_bytes :: "bytes \<Rightarrow> bytes \<times> bytes" where
  "read_bytes [] = ([], [])"
| "read_bytes (c # s) = (if c = NL then ([c], s) else (case read_bytes s of (l, r) \<Rightarrow> (c # l, r)))"

definition delimited :: "bytes \<Rightarrow> bool" where
  "delimited l \<longleftrightarrow> l \<noteq> [] \<and> last l = NL"

text \<open>\<open>strings.TrimRight (line, "\r\n")\<close>.\<close>

definition trim_eol :: "bytes \<Rightarrow> bytes" where
  "trim_eol l = rev (dropWhile (\<lambda>c. c = CR \<or> c = NL) (rev l))"

definition is_replayed :: "file_state \<Rightarrow> bool" where
  "is_replayed st \<longleftrightarrow>
     \<not> (\<not> f_resumed st \<or> f_resume_offset st \<le> 0) \<and>
     f_offset st > f_resume_offset st \<and> f_offset st \<le> f_size_at_open st"

definition record_line_ingested :: "file_state \<Rightarrow> tail_log \<Rightarrow> tail_log" where
  "record_line_ingested st l =
     (if is_replayed st then l\<lparr>tl_replayed := tl_replayed l + 1\<rparr> else l\<lparr>tl_read := tl_read l + 1\<rparr>)"

text \<open>The answer is false when shutdown was signalled while waiting on a full buffer.\<close>

definition send_line_event :: "channel \<Rightarrow> line_event \<Rightarrow> tail_log \<Rightarrow> bool \<times> tail_log" where
  "send_line_event ch e l =
     (if ch_drop ch then
        (if ch_room ch e then (True, l\<lparr>tl_events := tl_events l @ [e]\<rparr>)
         else (True, l\<lparr>tl_dropped := tl_dropped l + 1\<rparr>))
      else if \<not> ch_ctx ch then (True, l\<lparr>tl_events := tl_events l @ [e]\<rparr>)
      else if ch_room ch e then (True, l\<lparr>tl_events := tl_events l @ [e]\<rparr>)
      else (False, l))"

definition event_at :: "file_state \<Rightarrow> bytes \<Rightarrow> line_event" where
  "event_at st line = \<lparr>le_path = f_path st, le_line = line, le_offset = f_offset st, le_inode = f_inode st\<rparr>"

lemma read_bytes_append: "fst (read_bytes s) @ snd (read_bytes s) = s"
  by (induction s) (auto split: prod.splits)

lemma read_bytes_shorter: "s \<noteq> [] \<Longrightarrow> length (snd (read_bytes s)) < length s"
proof (induction s)
  case (Cons c s)
  then show ?case by (cases "s = []") (auto split: prod.splits)
qed simp

text \<open>
  \<open>readNewLines\<close>: the loop over the bytes available from the current offset.  \<open>fin\<close> is how the
  reading ends after them, \<open>None\<close> for \<open>io.EOF\<close>.  The result is the state, the log and the
  error returned.
\<close>


function read_new_lines ::
  "channel \<Rightarrow> go_error option \<Rightarrow> file_state \<Rightarrow> bytes \<Rightarrow> tail_log
     \<Rightarrow> file_state \<times> tail_log \<times> go_error option" where
  "read_new_lines ch fin st data l =
     (if data = [] then (st, l, fin)
      else
        (let line = fst (read_bytes data);
             trimmed = trim_eol line;
             st' = st\<lparr>f_offset := f_offset st + length line\<rparr>;
             sent = (if trimmed \<noteq> [] then
                       send_line_event ch (event_at st' trimmed) (record_line_ingested st' l)
                     else (True, l)) in
         if \<not> fst sent then (st', snd sent, None)
         else if \<not> delimited line then (st', snd sent, fin)
         else read_new_lines ch fin st' (snd (read_bytes data)) (snd sent)))"
  by pat_completeness auto
termination
  by (relation "measure (\<lambda>(ch, fin, st, data, l). length data)") (auto simp: read_bytes_shorter)

declare read_new_lines.simps [simp del]

section \<open>Opening, rotation, scanning\<close>

text \<open>
  One moment of the file system.  \<open>fs_glob abs pattern\<close> is \<open>Glob (Join (abs, pattern))\<close>; the
  contents, the read outcome and the errors of \<open>Seek\<close> and \<open>Stat\<close> on a handle are by inode.  \<open>os.Stat\<close> gives
  the inode, or \<open>None\<close> where the system has none.
\<close>

record fs =
  fs_abs :: "string \<Rightarrow> string result"
  fs_glob :: "string \<Rightarrow> string \<Rightarrow> string list result"
  fs_stat :: "string \<Rightarrow> nat option result"
  fs_is_dir :: "string \<Rightarrow> bool"
  fs_open :: "string \<Rightarrow> nat result"
  fs_seek :: "nat \<Rightarrow> int \<Rightarrow> check"
  fs_fstat :: "nat \<Rightarrow> check"
  fs_data :: "nat \<Rightarrow> bytes"
  fs_fin :: "nat \<Rightarrow> go_error option"

definition file_inode :: "fs \<Rightarrow> string \<Rightarrow> nat result" where
  "file_inode w path = (case fs_stat w path of
      Inl e \<Rightarrow> Inl e
    | Inr None \<Rightarrow> failing (''unsupported file stat for '' @ quoted path)
    | Inr (Some inode) \<Rightarrow> Inr inode)"

text \<open>\<open>initialOffset\<close>; no store is a lookup that finds nothing.\<close>

definition initial_offset :: "(string \<Rightarrow> wm_entry option) \<Rightarrow> string \<Rightarrow> nat \<Rightarrow> int \<times> bool" where
  "initial_offset marks path inode =
     (case marks path of
        None \<Rightarrow> (0, False)
      | Some e \<Rightarrow> if w_inode e \<noteq> inode then (0, False) else (w_offset e, True))"

type_synonym tailed = "file_state gomap"

definition read_state :: "channel \<Rightarrow> fs \<Rightarrow> file_state \<Rightarrow> tail_log \<Rightarrow> file_state \<times> tail_log \<times> go_error option" where
  "read_state ch w st l =
     read_new_lines ch (fs_fin w (f_handle st)) st (drop (f_offset st) (fs_data w (f_handle st))) l"

text \<open>
  The open path of \<open>tailFile\<close>: open, seek to the initial offset (a negative one is refused by
  \<open>Seek\<close>), stat, build the state.
\<close>

definition open_tail :: "fs \<Rightarrow> (string \<Rightarrow> wm_entry option) \<Rightarrow> string \<Rightarrow> nat \<Rightarrow> file_state result" where
  "open_tail w marks path inode =
     bind_res (fs_open w path) (\<lambda>h.
     (case initial_offset marks path inode of (offset, resumed) \<Rightarrow>
       bind_res (if offset < 0 then failing ''seek: invalid argument'' else fs_seek w h offset) (\<lambda>_.
       bind_res (fs_fstat w h) (\<lambda>_.
         Inr \<lparr>f_path = path, f_handle = h, f_offset = nat offset, f_inode = inode, f_resumed = resumed,
              f_resume_offset = nat offset, f_size_at_open = length (fs_data w h)\<rparr>))))"

definition tail_file ::
  "channel \<Rightarrow> fs \<Rightarrow> (string \<Rightarrow> wm_entry option) \<Rightarrow> string \<Rightarrow> tailed \<Rightarrow> tail_log
     \<Rightarrow> tailed \<times> tail_log \<times> go_error option" where
  "tail_file ch w marks path files l =
     (case file_inode w path of
        Inl e \<Rightarrow> (files, l, Some e)
      | Inr inode \<Rightarrow>
          (case gm_get files path of
             Some st \<Rightarrow>
               if f_inode st = inode then
                 (case read_state ch w st l of (st', l', e) \<Rightarrow> (gm_put files path st', l', e))
               else
                 (case open_tail w marks path inode of
                    Inl e \<Rightarrow> (gm_del files path, l, Some e)
                  | Inr st0 \<Rightarrow>
                      (case read_state ch w st0 l of (st', l', e) \<Rightarrow>
                         (gm_put (gm_del files path) path st', l', e)))
           | None \<Rightarrow>
               (case open_tail w marks path inode of
                  Inl e \<Rightarrow> (files, l, Some e)
                | Inr st0 \<Rightarrow>
                    (case read_state ch w st0 l of (st', l', e) \<Rightarrow> (gm_put files path st', l', e)))))"

text \<open>The watcher's state during a scan: tailed files, log, the paths seen, errors logged.\<close>

record scan_state =
  sc_files :: tailed
  sc_log :: tail_log
  sc_seen :: "string list"
  sc_errors :: "(string \<times> go_error) list"

fun scan_matches ::
  "channel \<Rightarrow> fs \<Rightarrow> (string \<Rightarrow> wm_entry option) \<Rightarrow> string list \<Rightarrow> scan_state \<Rightarrow> scan_state" where
  "scan_matches ch w marks [] s = s"
| "scan_matches ch w marks (m # ms) s =
     (if (case fs_stat w m of Inl e \<Rightarrow> True | Inr i \<Rightarrow> fs_is_dir w m) then scan_matches ch w marks ms s
      else
        (case tail_file ch w marks m (sc_files s) (sc_log s) of (files, l, e) \<Rightarrow>
           scan_matches ch w marks ms
             (s\<lparr>sc_files := files, sc_log := l, sc_seen := sc_seen s @ [m],
                sc_errors := sc_errors s @ (case e of None \<Rightarrow> [] | Some x \<Rightarrow> [(m, x)])\<rparr>)))"

text \<open>An error of \<open>Abs\<close> or \<open>Glob\<close> ends the scan at once, with the state reached.\<close>

fun scan_patterns ::
  "channel \<Rightarrow> fs \<Rightarrow> (string \<Rightarrow> wm_entry option) \<Rightarrow> string \<Rightarrow> string list \<Rightarrow> scan_state \<Rightarrow> scan_state \<times> check" where
  "scan_patterns ch w marks dir [] s = (s, ok)"
| "scan_patterns ch w marks dir (p # ps) s =
     (case fs_glob w dir p of
        Inl e \<Rightarrow> (s, Inl (ErrWrap (''glob '' @ quoted p @ '' in '' @ quoted dir @ '': '') e))
      | Inr ms \<Rightarrow> scan_patterns ch w marks dir ps (scan_matches ch w marks ms s))"

fun scan_sources ::
  "channel \<Rightarrow> fs \<Rightarrow> (string \<Rightarrow> wm_entry option) \<Rightarrow> watch_source list \<Rightarrow> scan_state \<Rightarrow> scan_state \<times> check" where
  "scan_sources ch w marks [] s = (s, ok)"
| "scan_sources ch w marks (src # srcs) s =
     (case fs_abs w (src_path src) of
        Inl e \<Rightarrow> (s, Inl e)
      | Inr dir \<Rightarrow>
          (case scan_patterns ch w marks dir (src_patterns src) s of
             (s', Inl e) \<Rightarrow> (s', Inl e)
           | (s', Inr u) \<Rightarrow> scan_sources ch w marks srcs s'))"

definition drop_unseen :: "string list \<Rightarrow> tailed \<Rightarrow> tailed" where
  "drop_unseen seen files = filter (\<lambda>e. fst e \<in> set seen) files"

text \<open>The watcher: its configuration, the tailed files and all it has produced.\<close>

record watcher =
  wa_cfg :: watch_config
  wa_drop :: bool
  wa_poll :: int
  wa_files :: tailed
  wa_log :: tail_log
  wa_errors :: "(string \<times> go_error) list"

definition scan :: "channel \<Rightarrow> fs \<Rightarrow> (string \<Rightarrow> wm_entry option) \<Rightarrow> watcher \<Rightarrow> watcher \<times> check" where
  "scan ch w marks wa =
     (case scan_sources ch w marks (watch_entries (wa_cfg wa))
        \<lparr>sc_files = wa_files wa, sc_log = wa_log wa, sc_seen = [], sc_errors = []\<rparr> of
        (s, r) \<Rightarrow>
          (wa\<lparr>wa_files := (case r of Inl e \<Rightarrow> sc_files s | Inr u \<Rightarrow> drop_unseen (sc_seen s) (sc_files s)),
              wa_log := sc_log s, wa_errors := wa_errors wa @ sc_errors s\<rparr>, r))"

text \<open>\<open>New\<close>: \<open>on_full\<close> is only ever compared with \<open>drop\<close>.\<close>

definition new_watcher :: "duration_parser \<Rightarrow> config \<Rightarrow> watcher" where
  "new_watcher pd c =
     (let policy = (if on_full (cfg_pipeline c) = [] then ''block'' else on_full (cfg_pipeline c)) in
      \<lparr>wa_cfg = cfg_watch c, wa_drop = (policy = ''drop''), wa_poll = poll_interval pd c,
       wa_files = gm_empty, wa_log = empty_log, wa_errors = []\<rparr>)"

text \<open>
  The channel of a run of the watcher: the policy is that of the watcher, and \<open>Run\<close> sets \<open>runCtx\<close> before
  its first scan.
\<close>

definition watcher_channel :: "watcher \<Rightarrow> (line_event \<Rightarrow> bool) \<Rightarrow> channel" where
  "watcher_channel wa room = \<lparr>ch_drop = wa_drop wa, ch_ctx = True, ch_room = room\<rparr>"

text \<open>\<open>watchPaths\<close>: the absolute path of every source, each once, in order.\<close>

fun watch_dirs :: "(string \<Rightarrow> string result) \<Rightarrow> string list \<Rightarrow> watch_source list \<Rightarrow> string list result" where
  "watch_dirs absf seen [] = Inr []"
| "watch_dirs absf seen (src # srcs) =
     (case absf (src_path src) of
        Inl e \<Rightarrow> Inl (ErrWrap (''resolve watch path '' @ quoted (src_path src) @ '': '') e)
      | Inr a \<Rightarrow>
          if a \<in> set seen then watch_dirs absf seen srcs
          else bind_res (watch_dirs absf (a # seen) srcs) (\<lambda>ps. Inr (a # ps)))"

definition close_all :: "watcher \<Rightarrow> watcher" where
  "close_all wa = wa\<lparr>wa_files := gm_empty\<rparr>"

definition file_count :: "watcher \<Rightarrow> nat" where
  "file_count wa = length (wa_files wa)"

text \<open>
  \<open>Run\<close>.  Start-up answers come first: the notifier, one \<open>MkdirAll\<close> and one \<open>Add\<close> per directory.
  Then the loop takes what the \<open>select\<close> delivers: a tick or a file event, each with the file system
  and the watermarks of that moment, an error of the notifier, a closed channel, or cancellation.
\<close>

datatype trigger =
    PollTick fs "string \<Rightarrow> wm_entry option"
  | FsNotify bool fs "string \<Rightarrow> wm_entry option"
  | NotifyError go_error
  | NotifyClosed
  | CtxDone go_error

record start_answers =
  sa_notifier :: check
  sa_mkdir :: "string \<Rightarrow> check"
  sa_add :: "string \<Rightarrow> check"
  sa_fs :: fs
  sa_marks :: "string \<Rightarrow> wm_entry option"

definition wrap_err :: "string \<Rightarrow> check \<Rightarrow> check" where
  "wrap_err p r = (case r of Inl e \<Rightarrow> Inl (ErrWrap p e) | Inr u \<Rightarrow> ok)"

text \<open>The loop is still waiting, \<open>Run\<close> returns, or \<open>time.NewTicker\<close> panics on an interval that is not positive.\<close>

datatype run_end = Running | Returned check | Panicked

fun watch_loop :: "channel \<Rightarrow> trigger list \<Rightarrow> watcher \<Rightarrow> watcher \<times> run_end" where
  "watch_loop ch [] wa = (wa, Running)"
| "watch_loop ch (PollTick w marks # ts) wa = watch_loop ch ts (fst (scan ch w marks wa))"
| "watch_loop ch (FsNotify relevant w marks # ts) wa =
     watch_loop ch ts (if relevant then fst (scan ch w marks wa) else wa)"
| "watch_loop ch (NotifyError e # ts) wa = watch_loop ch ts wa"
| "watch_loop ch (NotifyClosed # ts) wa = (wa, Returned ok)"
| "watch_loop ch (CtxDone e # ts) wa = (close_all wa, Returned (Inl e))"

definition watch_run :: "(line_event \<Rightarrow> bool) \<Rightarrow> start_answers \<Rightarrow> trigger list \<Rightarrow> watcher \<Rightarrow> watcher \<times> run_end" where
  "watch_run room sa ts wa =
     (case bind_res (wrap_err ''create fs watcher: '' (sa_notifier sa)) (\<lambda>_.
           bind_res (watch_dirs (fs_abs (sa_fs sa)) [] (watch_entries (wa_cfg wa))) (\<lambda>dirs.
             first_error (concat (map (\<lambda>d. [wrap_err (''ensure watch path '' @ quoted d @ '': '') (sa_mkdir sa d),
                                             wrap_err (''watch '' @ quoted d @ '': '') (sa_add sa d)]) dirs)))) of
        Inl e \<Rightarrow> (wa, Returned (Inl e))
      | Inr u \<Rightarrow>
          (let ch = watcher_channel wa room in
           case scan ch (sa_fs sa) (sa_marks sa) wa of
             (wa', Inl e) \<Rightarrow> (wa', Returned (Inl e))
           | (wa', Inr u) \<Rightarrow> if wa_poll wa \<le> 0 then (wa', Panicked) else watch_loop ch ts wa'))"

section \<open>The events of a text\<close>

text \<open>Reference: cut the text at newlines, and give each piece the offset at which it ends.\<close>

fun place :: "nat \<Rightarrow> bytes list \<Rightarrow> (bytes \<times> nat) list" where
  "place off [] = []"
| "place off [p] = [(p, off + length p)]"
| "place off (p # q # ps) = (p, off + length p + 1) # place (off + length p + 1) (q # ps)"

definition line_events :: "string \<Rightarrow> nat \<Rightarrow> nat \<Rightarrow> bytes \<Rightarrow> line_event list" where
  "line_events path inode off data =
     map (\<lambda>(l, n). \<lparr>le_path = path, le_line = trim_eol l, le_offset = n, le_inode = inode\<rparr>)
       (filter (\<lambda>(l, n). trim_eol l \<noteq> []) (place off (go_split data [NL])))"

text \<open>Which events the channel takes.\<close>

definition delivered :: "channel \<Rightarrow> line_event list \<Rightarrow> line_event list" where
  "delivered ch es =
     (if ch_drop ch then filter (ch_room ch) es
      else if ch_ctx ch then takeWhile (ch_room ch) es else es)"

lemma read_bytes_no_NL: "NL \<notin> set s \<Longrightarrow> read_bytes s = (s, [])"
  by (induction s) auto

lemma read_bytes_NL: "NL \<notin> set a \<Longrightarrow> read_bytes (a @ NL # b) = (a @ [NL], b)"
  by (induction a) auto

lemma go_split_no_NL: "NL \<notin> set s \<Longrightarrow> go_split s [NL] = [s]"
  using go_split_join [of "[s]" NL] by simp

lemma go_split_NL: "NL \<notin> set a \<Longrightarrow> go_split (a @ NL # b) [NL] = a # go_split b [NL]"
proof -
  assume a: "NL \<notin> set a"
  then have "takeWhile (\<lambda>x. x \<noteq> NL) (a @ NL # b) = a" "dropWhile (\<lambda>x. x \<noteq> NL) (a @ NL # b) = NL # b"
    by (auto simp: takeWhile_append dropWhile_append)
  then show ?thesis
    unfolding go_split_def by (subst split_from_single) simp
qed

text \<open>A non-empty text is one unterminated line, or a line, its newline and the rest.\<close>

lemma first_line_cases:
  obtains "NL \<notin> set s" | a b where "s = a @ NL # b" "NL \<notin> set a"
  by (metis split_list_first)

lemma trim_eol_NL [simp]: "trim_eol (l @ [NL]) = trim_eol l"
  by (simp add: trim_eol_def)

lemma trim_eol_Nil [simp]: "trim_eol [] = []" "trim_eol [NL] = []"
  by (simp_all add: trim_eol_def)

lemma line_events_Nil [simp]: "line_events path inode off [] = []"
  by (simp add: line_events_def go_split_def)

text \<open>The recursion of the read loop.\<close>

lemma line_events_step:
  assumes "data \<noteq> []" "read_bytes data = (line, rest)"
  shows "line_events path inode off data =
    (if trim_eol line \<noteq> []
     then [\<lparr>le_path = path, le_line = trim_eol line, le_offset = off + length line, le_inode = inode\<rparr>] else [])
    @ line_events path inode (off + length line) rest"
proof (cases rule: first_line_cases [of data])
  case 1
  then show ?thesis
    using assms(2) by (auto simp: read_bytes_no_NL line_events_def go_split_no_NL go_split_def [of "[]"])
next
  case (2 a b)
  obtain q qs where q: "go_split b [NL] = q # qs" by (cases "go_split b [NL]") auto
  show ?thesis
    using assms(2) 2 q by (auto simp: read_bytes_NL line_events_def go_split_NL)
qed

lemma read_bytes_delimited:
  assumes "read_bytes data = (line, rest)" "data \<noteq> []"
  shows "delimited line \<or> rest = []" "line \<noteq> []" "data = line @ rest"
    "length data = length line + length rest"
proof -
  show "data = line @ rest" using read_bytes_append [of data] assms by simp
  then show "length data = length line + length rest" by simp
  show "line \<noteq> []"
    using assms by (cases data) (auto split: if_splits prod.splits)
  show "delimited line \<or> rest = []"
    using assms
    by (cases rule: first_line_cases [of data]) (auto simp: read_bytes_no_NL read_bytes_NL delimited_def)
qed

lemma line_events_off: "e \<in> set (line_events p i off data) \<Longrightarrow> off < le_offset e \<and> le_offset e \<le> off + length data \<and> le_path e = p \<and> le_inode e = i"
proof (induction "length data" arbitrary: off data rule: less_induct)
  case less
  show ?case
  proof (cases "data = []")
    case True
    with less show ?thesis by simp
  next
    case False
    obtain line rest where rb: "read_bytes data = (line, rest)" by force
    note facts = read_bytes_delimited [OF rb False]
    show ?thesis
      using less.hyps [of rest "off + length line"] less.prems facts(2,4)
      by (auto simp: line_events_step [OF False rb] split: if_splits)
  qed
qed

lemma line_events_sorted: "sorted_wrt (<) (map le_offset (line_events p i off data))"
proof (induction "length data" arbitrary: off data rule: less_induct)
  case less
  show ?case
  proof (cases "data = []")
    case True
    with less show ?thesis by simp
  next
    case False
    obtain line rest where rb: "read_bytes data = (line, rest)" by force
    note facts = read_bytes_delimited [OF rb False]
    have "length rest < length data" using facts(2,4) by simp
    with less.hyps [of rest "off + length line"] line_events_off [of _ p i "off + length line" rest]
    show ?thesis by (auto simp: line_events_step [OF False rb])
  qed
qed

lemma line_events_append:
  assumes "data = [] \<or> last data = NL"
  shows "line_events p i off (data @ grown) = line_events p i off data @ line_events p i (off + length data) grown"
  using assms
proof (induction "length data" arbitrary: off data rule: less_induct)
  case less
  show ?case
  proof (cases "data = []")
    case True
    then show ?thesis by simp
  next
    case False
    obtain line rest where rb: "read_bytes data = (line, rest)" by force
    note facts = read_bytes_delimited [OF rb False]
    have "NL \<in> set data" using False less.prems by (metis last_in_set)
    then have rb': "read_bytes (data @ grown) = (line, rest @ grown)"
      using rb by (induction data arbitrary: line) (auto split: if_splits prod.splits)
    have "rest = [] \<or> last rest = NL" using less.prems facts by (cases "rest = []") auto
    then have "line_events p i (off + length line) (rest @ grown) =
        line_events p i (off + length line) rest @ line_events p i (off + length line + length rest) grown"
      using less.hyps [of rest] facts(2,4) by simp
    then show ?thesis
      using facts(4) by (simp add: line_events_step [OF False rb] line_events_step [OF _ rb'] False add.assoc)
  qed
qed

lemma line_events_resume:
  assumes "e \<in> set (line_events p i off data)"
  shows "\<exists>pre. line_events p i off data =
     pre @ e # line_events p i (le_offset e) (drop (le_offset e - off) data)"
  using assms
proof (induction "length data" arbitrary: off data rule: less_induct)
  case less
  have ne: "data \<noteq> []" using less.prems by auto
  obtain line rest where rb: "read_bytes data = (line, rest)" by force
  note facts = read_bytes_delimited [OF rb ne]
  note step = line_events_step [OF ne rb, of p i off]
  show ?case
  proof (cases "e \<in> set (line_events p i (off + length line) rest)")
    case True
    then obtain pre where pre: "line_events p i (off + length line) rest =
        pre @ e # line_events p i (le_offset e) (drop (le_offset e - (off + length line)) rest)"
      using less.hyps [of rest "off + length line"] facts(2,4) by auto
    have "off + length line < le_offset e" using line_events_off [OF True] by simp
    then have "drop (le_offset e - (off + length line)) rest = drop (le_offset e - off) data"
      using facts by (simp add: drop_append)
    then show ?thesis using pre step by (auto intro: exI [of _ "_ @ pre"])
  next
    case False
    then have "trim_eol line \<noteq> []" "le_offset e = off + length line"
        "e = \<lparr>le_path = p, le_line = trim_eol line, le_offset = off + length line, le_inode = i\<rparr>"
      using less.prems step by (auto split: if_splits)
    then show ?thesis using step facts by (intro exI [of _ "[]"]) simp
  qed
qed

section \<open>What one read loop does\<close>

definition stopped :: "channel \<Rightarrow> line_event list \<Rightarrow> bool" where
  "stopped ch es \<longleftrightarrow> \<not> ch_drop ch \<and> ch_ctx ch \<and> (\<exists>e \<in> set es. \<not> ch_room ch e)"

lemma send_cases:
  "send_line_event ch e l =
     (if stopped ch [e] then (False, l)
      else (True, l\<lparr>tl_events := tl_events l @ delivered ch [e],
                    tl_dropped := tl_dropped l + (1 - length (delivered ch [e]))\<rparr>))"
  by (auto simp: send_line_event_def stopped_def delivered_def)

lemma delivered_Cons:
  "delivered ch (e # es) = (if stopped ch [e] then [] else delivered ch [e] @ delivered ch es)"
  by (auto simp: delivered_def stopped_def)

lemma delivered_Nil [simp]: "delivered ch [] = []" "\<not> stopped ch []"
  by (auto simp: delivered_def stopped_def)

lemma stopped_Cons: "stopped ch (e # es) \<longleftrightarrow> stopped ch [e] \<or> stopped ch es"
  by (auto simp: stopped_def)

lemma record_events [simp]: "tl_events (record_line_ingested st l) = tl_events l"
  "tl_dropped (record_line_ingested st l) = tl_dropped l"
  by (simp_all add: record_line_ingested_def)

lemma read_new_lines_step:
  assumes "data \<noteq> []" "read_bytes data = (line, rest)"
    and "st1 = st\<lparr>f_offset := f_offset st + length line\<rparr>"
    and "sent = (if trim_eol line \<noteq> [] then
        send_line_event ch (event_at st1 (trim_eol line)) (record_line_ingested st1 l) else (True, l))"
  shows "read_new_lines ch fin st data l =
      (if \<not> fst sent then (st1, snd sent, None)
       else if \<not> delimited line then (st1, snd sent, fin)
       else read_new_lines ch fin st1 rest (snd sent))"
  using assms by (subst read_new_lines.simps) (simp add: Let_def)

lemma read_new_lines_delivers:
  assumes "read_new_lines ch fin st data l = (st', l', r)"
  shows "tl_events l' = tl_events l @ delivered ch (line_events (f_path st) (f_inode st) (f_offset st) data)
    \<and> (if stopped ch (line_events (f_path st) (f_inode st) (f_offset st) data) then r = None
       else st' = st\<lparr>f_offset := f_offset st + length data\<rparr> \<and> r = fin)"
  using assms
proof (induction ch fin st data l arbitrary: st' l' r rule: read_new_lines.induct)
  case (1 ch fin st data l)
  show ?case
  proof (cases "data = []")
    case True
    with "1.prems" show ?thesis by (simp add: read_new_lines.simps)
  next
    case False
    obtain line rest where rb: "read_bytes data = (line, rest)" by force
    note facts = read_bytes_delimited [OF rb False]
    define st1 where "st1 = st\<lparr>f_offset := f_offset st + length line\<rparr>"
    define sent where "sent = (if trim_eol line \<noteq> [] then
        send_line_event ch (event_at st1 (trim_eol line)) (record_line_ingested st1 l) else (True, l))"
    define here where "here = (if trim_eol line \<noteq> [] then [event_at st1 (trim_eol line)] else [])"
    define there where "there = line_events (f_path st) (f_inode st) (f_offset st + length line) rest"
    have es: "line_events (f_path st) (f_inode st) (f_offset st) data = here @ there"
      by (simp add: line_events_step [OF False rb] here_def there_def event_at_def st1_def)
    have sent: "fst sent \<longleftrightarrow> \<not> stopped ch here"
      "tl_events (snd sent) = tl_events l @ delivered ch here"
      by (auto simp: sent_def here_def send_cases) (auto simp: delivered_def stopped_def)
    have del: "delivered ch (here @ there) = (if stopped ch here then delivered ch here else delivered ch here @ delivered ch there)"
      and stp: "stopped ch (here @ there) \<longleftrightarrow> stopped ch here \<or> stopped ch there"
      using delivered_Cons [of ch _ there] stopped_Cons [of ch _ there]
      by (auto simp: here_def) (auto simp: delivered_def stopped_def)
    have unfold: "read_new_lines ch fin st data l =
      (if \<not> fst sent then (st1, snd sent, None)
       else if \<not> delimited line then (st1, snd sent, fin)
       else read_new_lines ch fin st1 rest (snd sent))"
      by (rule read_new_lines_step [OF False rb st1_def sent_def])
    consider (stop) "stopped ch here" | (last) "\<not> stopped ch here" "\<not> delimited line"
      | (more) "\<not> stopped ch here" "delimited line" by blast
    then show ?thesis
    proof cases
      case stop
      then show ?thesis using "1.prems" sent unfolding unfold es by (auto simp: del stp)
    next
      case last
      then have "rest = []" using facts by blast
      then show ?thesis
        using last "1.prems" sent facts(4) unfolding unfold es
        by (auto simp: del stp there_def st1_def)
    next
      case more
      have "read_new_lines ch fin st1 rest (snd sent) = (st', l', r)"
        using more "1.prems" sent unfolding unfold by simp
      then have "tl_events l' = tl_events (snd sent) @ delivered ch there \<and>
          (if stopped ch there then r = None
           else st' = st1\<lparr>f_offset := f_offset st1 + length rest\<rparr> \<and> r = fin)"
        using "1.IH" [of line "trim_eol line" st1 sent st' l' r] False more sent(1) rb
        by (simp add: sent_def st1_def there_def)
      then show ?thesis
        using more sent facts(4) unfolding es by (auto simp: del stp st1_def add.assoc)
    qed
  qed
qed


section \<open>Counters\<close>

lemma send_counters [simp]:
  "tl_read (snd (send_line_event ch e l)) = tl_read l"
  "tl_replayed (snd (send_line_event ch e l)) = tl_replayed l"
  by (auto simp: send_line_event_def)

text \<open>In a loop that is not stopped every line is counted once: replayed when the file already held
it at opening and reading resumed from a watermark, read otherwise.\<close>

definition replayed_upto :: "file_state \<Rightarrow> line_event \<Rightarrow> bool" where
  "replayed_upto st e \<longleftrightarrow> f_resumed st \<and> 0 < f_resume_offset st \<and>
     f_resume_offset st < le_offset e \<and> le_offset e \<le> f_size_at_open st"

lemma read_new_lines_counts:
  assumes "read_new_lines ch fin st data l = (st', l', r)"
    and "\<not> stopped ch (line_events (f_path st) (f_inode st) (f_offset st) data)"
  shows "tl_replayed l' = tl_replayed l + length (filter (replayed_upto st) (line_events (f_path st) (f_inode st) (f_offset st) data))
    \<and> tl_read l' = tl_read l + length (filter (\<lambda>e. \<not> replayed_upto st e) (line_events (f_path st) (f_inode st) (f_offset st) data))
    \<and> tl_dropped l' = tl_dropped l + (length (line_events (f_path st) (f_inode st) (f_offset st) data)
         - length (delivered ch (line_events (f_path st) (f_inode st) (f_offset st) data)))"
  using assms
proof (induction ch fin st data l arbitrary: st' l' r rule: read_new_lines.induct)
  case (1 ch fin st data l)
  show ?case
  proof (cases "data = []")
    case True
    with "1.prems" show ?thesis by (simp add: read_new_lines.simps)
  next
    case False
    obtain line rest where rb: "read_bytes data = (line, rest)" by force
    note facts = read_bytes_delimited [OF rb False]
    define st1 where "st1 = st\<lparr>f_offset := f_offset st + length line\<rparr>"
    define sent where "sent = (if trim_eol line \<noteq> [] then
        send_line_event ch (event_at st1 (trim_eol line)) (record_line_ingested st1 l) else (True, l))"
    define here where "here = (if trim_eol line \<noteq> [] then [event_at st1 (trim_eol line)] else [])"
    define there where "there = line_events (f_path st) (f_inode st) (f_offset st + length line) rest"
    have es: "line_events (f_path st) (f_inode st) (f_offset st) data = here @ there"
      by (simp add: line_events_step [OF False rb] here_def there_def event_at_def st1_def)
    have nostop: "\<not> stopped ch here" "\<not> stopped ch there" and go: "fst sent"
      using "1.prems"(2) unfolding es
      by (auto simp: sent_def here_def send_cases stopped_def)
    have rep: "is_replayed st1 = replayed_upto st (event_at st1 (trim_eol line))"
      by (auto simp: is_replayed_def replayed_upto_def st1_def event_at_def)
    have del: "delivered ch (here @ there) = delivered ch here @ delivered ch there"
      using nostop delivered_Cons [of ch _ there] by (auto simp: here_def)
    have dle: "length (delivered ch xs) \<le> length xs" for xs
      by (auto simp: delivered_def length_takeWhile_le)
    have counts: "tl_replayed (snd sent) = tl_replayed l + length (filter (replayed_upto st) here)"
      "tl_read (snd sent) = tl_read l + length (filter (\<lambda>e. \<not> replayed_upto st e) here)"
      "tl_dropped (snd sent) = tl_dropped l + (length here - length (delivered ch here))"
      using rep nostop(1) by (auto simp: sent_def here_def record_line_ingested_def send_cases)
    have unfold: "read_new_lines ch fin st data l =
      (if \<not> delimited line then (st1, snd sent, fin) else read_new_lines ch fin st1 rest (snd sent))"
      using read_new_lines_step [OF False rb st1_def sent_def] go by simp
    show ?thesis
    proof (cases "delimited line")
      case False
      then have "rest = []" using facts by blast
      then have "there = []" by (simp add: there_def)
      then show ?thesis
        using False "1.prems"(1) counts unfolding unfold es by simp
    next
      case True
      have same: "replayed_upto st1 = replayed_upto st"
        by (simp add: fun_eq_iff replayed_upto_def st1_def)
      have "read_new_lines ch fin st1 rest (snd sent) = (st', l', r)"
        using True "1.prems" unfolding unfold by simp
      then have "tl_replayed l' = tl_replayed (snd sent) + length (filter (replayed_upto st1) there)
        \<and> tl_read l' = tl_read (snd sent) + length (filter (\<lambda>e. \<not> replayed_upto st1 e) there)
        \<and> tl_dropped l' = tl_dropped (snd sent) + (length there - length (delivered ch there))"
        using "1.IH" [of line "trim_eol line" st1 sent st' l' r] \<open>data \<noteq> []\<close> True go rb nostop
        by (simp add: sent_def st1_def there_def)
      then show ?thesis
        using counts dle [of here] dle [of there] unfolding es del same by simp
    qed
  qed
qed

section \<open>Reading a file over many polls\<close>

text \<open>One file, the same inode at every poll: the events of all polls together.\<close>

fun poll_file ::
  "channel \<Rightarrow> (string \<Rightarrow> wm_entry option) \<Rightarrow> string \<Rightarrow> fs list \<Rightarrow> tailed \<Rightarrow> tail_log \<Rightarrow> tailed \<times> tail_log" where
  "poll_file ch marks path [] files l = (files, l)"
| "poll_file ch marks path (w # ws) files l =
     (case tail_file ch w marks path files l of (files', l', e) \<Rightarrow> poll_file ch marks path ws files' l')"

text \<open>The successive contents of an append-only file whose writer completes every line.\<close>

fun grows_by_lines :: "bytes list \<Rightarrow> bool" where
  "grows_by_lines [] = True"
| "grows_by_lines [d] = (d = [] \<or> last d = NL)"
| "grows_by_lines (d # d' # ds) = ((d = [] \<or> last d = NL) \<and> has_prefix d' d \<and> grows_by_lines (d' # ds))"

text \<open>
  No send is given up: a full buffer drops the line, or the sends that wait for room get it before the
  shutdown.  No line is lost: every send that depends on room has it.
\<close>

definition never_gives_up :: "channel \<Rightarrow> bool" where
  "never_gives_up ch \<longleftrightarrow> ch_drop ch \<or> \<not> ch_ctx ch \<or> (\<forall>e. ch_room ch e)"

definition lossless :: "channel \<Rightarrow> bool" where
  "lossless ch \<longleftrightarrow> (ch_drop ch \<or> ch_ctx ch \<longrightarrow> (\<forall>e. ch_room ch e))"

lemma filter_takeWhile_all: "(\<And>x. P x) \<Longrightarrow> filter P xs = xs \<and> takeWhile P xs = xs"
  by (induction xs) auto

lemma lossless_delivered [simp]: "lossless ch \<Longrightarrow> delivered ch es = es" "lossless ch \<Longrightarrow> \<not> stopped ch es"
  by (auto simp: lossless_def delivered_def stopped_def filter_takeWhile_all)

lemma not_stopped: "never_gives_up ch \<Longrightarrow> \<not> stopped ch es"
  by (auto simp: never_gives_up_def stopped_def)

lemma delivered_append: "never_gives_up ch \<Longrightarrow> delivered ch (xs @ ys) = delivered ch xs @ delivered ch ys"
  by (auto simp: never_gives_up_def delivered_def filter_takeWhile_all)

lemma watcher_channel_delivers:
  "delivered (watcher_channel wa room) es = (if wa_drop wa then filter room es else takeWhile room es)"
  by (simp add: delivered_def watcher_channel_def)

lemma watcher_never_gives_up: "never_gives_up (watcher_channel wa room) \<longleftrightarrow> wa_drop wa \<or> (\<forall>e. room e)"
  by (simp add: never_gives_up_def watcher_channel_def)

lemma grows_tl: "grows_by_lines (d # ds) \<Longrightarrow> grows_by_lines ds \<and> (d = [] \<or> last d = NL)
    \<and> (\<forall>x \<in> set ds. has_prefix x d)"
proof (induction ds arbitrary: d)
  case Nil
  then show ?case by simp
next
  case (Cons x ds)
  have "has_prefix y d" if "has_prefix y x" for y
  proof -
    have "x = d @ drop (length d) x" "y = x @ drop (length x) y"
      using Cons.prems that has_prefix_append by auto
    then have "y = d @ drop (length d) x @ drop (length x) y" by (metis append_assoc)
    then show ?thesis unfolding has_prefix_def by (metis append_eq_conv_conj)
  qed
  then show ?case using Cons.IH [of x] Cons.prems by auto
qed

lemma grows_last: "grows_by_lines (d # ds) \<Longrightarrow> has_prefix (last (d # ds)) d"
proof (cases "ds = []")
  case True
  then show ?thesis by (simp add: has_prefix_def)
next
  case False
  assume "grows_by_lines (d # ds)"
  with False grows_tl [of d ds] show ?thesis by (simp add: last_in_set)
qed

lemma grows_tail:
  assumes "grows_by_lines (d # x # ds)"
  shows "drop (length d) (last (x # ds)) = drop (length d) x @ drop (length x) (last (x # ds))"
    and "drop (length d) x = [] \<or> last (drop (length d) x) = NL"
    and "length d + length (drop (length d) x) = length x"
proof -
  have x: "x = d @ drop (length d) x"
    using grows_tl [OF assms] has_prefix_append by auto
  show len: "length d + length (drop (length d) x) = length x"
    using x by (metis length_append)
  have "last (x # ds) = x @ drop (length x) (last (x # ds))"
    using grows_last [of x ds] grows_tl [OF assms] by (simp add: has_prefix_append)
  then show "drop (length d) (last (x # ds)) = drop (length d) x @ drop (length x) (last (x # ds))"
    using len by (metis diff_is_0_eq drop0 drop_append le_add1)
  have "x = [] \<or> last x = NL"
    using grows_tl [of x ds] grows_tl [OF assms] by simp
  then show "drop (length d) x = [] \<or> last (drop (length d) x) = NL"
    using x by (metis append_is_Nil_conv last_appendR)
qed

lemma poll_file_events:
  assumes "never_gives_up ch" "gm_get files path = Some st" "f_path st = path"
    and "list_all (\<lambda>w. file_inode w path = Inr (f_inode st) \<and> fs_fin w (f_handle st) = None) ws"
    and "grows_by_lines (d # map (\<lambda>w. fs_data w (f_handle st)) ws)" "f_offset st = length d"
  shows "tl_events (snd (poll_file ch marks path ws files l)) = tl_events l @ delivered ch
    (line_events path (f_inode st) (length d) (drop (length d) (last (d # map (\<lambda>w. fs_data w (f_handle st)) ws))))"
  using assms(2-6)
proof (induction ws arbitrary: d st files l)
  case Nil
  then show ?case by simp
next
  case (Cons w ws)
  let ?h = "f_handle st"
  let ?d = "fs_data w ?h"
  let ?ds = "map (\<lambda>w. fs_data w ?h) ws"
  obtain st' l' r where rs: "read_state ch w st l = (st', l', r)" by (metis prod_cases3)
  have g: "grows_by_lines (d # ?d # ?ds)" using Cons.prems(4) by simp
  note tail = grows_tail [OF g]
  have rnl: "read_new_lines ch (fs_fin w ?h) st (drop (length d) ?d) l = (st', l', r)"
    using rs Cons.prems(5) by (simp add: read_state_def)
  have out: "tl_events l' = tl_events l @ delivered ch (line_events path (f_inode st) (length d) (drop (length d) ?d))"
      "st' = st\<lparr>f_offset := length ?d\<rparr>"
    using read_new_lines_delivers [OF rnl] not_stopped [OF assms(1)] Cons.prems(2,5) tail(3) by simp_all
  have tf: "tail_file ch w marks path files l = (gm_put files path st', l', r)"
    using Cons.prems(1,3) by (simp add: tail_file_def rs)
  have "tl_events (snd (poll_file ch marks path ws (gm_put files path st') l')) = tl_events l' @
     delivered ch (line_events path (f_inode st) (length ?d) (drop (length ?d) (last (?d # ?ds))))"
    using Cons.IH [of "gm_put files path st'" st' ?d l'] Cons.prems(2,3) grows_tl [OF g] out(2) by simp
  then show ?case
    using out(1) line_events_append [OF tail(2)] tail(1,3) delivered_append [OF assms(1)] by (simp add: tf)
qed

section \<open>Properties\<close>

text \<open>
  What one read loop hands to the pipeline: the lines of the bytes read, cut at newlines,
  stripped of trailing CR and LF, blank lines left out, each with the offset just after it.  In
  drop mode the events without room are missing, in block mode a shutdown cuts the tail off and
  the loop reports no error; otherwise all bytes are consumed and the read error is returned.
\<close>

theorem read_loop_delivers_lines:
  assumes "read_new_lines ch fin st data l = (st', l', r)"
  shows "tl_events l' = tl_events l @ delivered ch (line_events (f_path st) (f_inode st) (f_offset st) data)
    \<and> (if stopped ch (line_events (f_path st) (f_inode st) (f_offset st) data) then r = None
       else st' = st\<lparr>f_offset := f_offset st + length data\<rparr> \<and> r = fin)"
  using assms by (rule read_new_lines_delivers)

definition sample_state :: file_state where
  "sample_state = \<lparr>f_path = ''/l'', f_handle = 3, f_offset = 10, f_inode = 3, f_resumed = True,
     f_resume_offset = 10, f_size_at_open = 14\<rparr>"

definition open_channel :: channel where
  "open_channel = \<lparr>ch_drop = False, ch_ctx = True, ch_room = (\<lambda>e. True)\<rparr>"

lemma sample_state_simps [simp]:
  "f_path sample_state = ''/l''" "f_handle sample_state = 3" "f_inode sample_state = 3" "f_offset sample_state = 10"
  "f_resumed sample_state" "f_resume_offset sample_state = 10" "f_size_at_open sample_state = 14"
  by (simp_all add: sample_state_def)

lemma open_channel_lossless [simp]: "lossless open_channel"
  by (simp add: open_channel_def lossless_def)

lemma sample_line_events:
  "line_events ''/l'' 3 10 [CHR ''a'', CR, NL, NL, CHR ''b''] =
     [\<lparr>le_path = ''/l'', le_line = ''a'', le_offset = 13, le_inode = 3\<rparr>,
      \<lparr>le_path = ''/l'', le_line = ''b'', le_offset = 15, le_inode = 3\<rparr>]"
  by (simp add: line_events_def go_split_def has_prefix_def trim_eol_def)

theorem read_loop_delivers_lines_witness:
  "\<exists>st' l' r. read_new_lines open_channel None sample_state [CHR ''a'', CR, NL, NL, CHR ''b''] empty_log = (st', l', r) \<and>
     r = None \<and> f_offset st' = 15 \<and> tl_events l' =
     [\<lparr>le_path = ''/l'', le_line = ''a'', le_offset = 13, le_inode = 3\<rparr>,
      \<lparr>le_path = ''/l'', le_line = ''b'', le_offset = 15, le_inode = 3\<rparr>]"
proof -
  obtain st' l' r where rn:
    "read_new_lines open_channel None sample_state [CHR ''a'', CR, NL, NL, CHR ''b''] empty_log = (st', l', r)"
    by (metis prod_cases3)
  from read_loop_delivers_lines [OF this] sample_line_events rn show ?thesis
    by (simp add: empty_log_def)
qed

text \<open>
  The counters of a loop that is not stopped: every line counts once, as replayed when reading
  resumed from a watermark and the file already held the line when it was opened, as read
  otherwise; in drop mode the dropped counter grows by the number of events without room.
\<close>

theorem read_loop_counts_lines:
  assumes "read_new_lines ch fin st data l = (st', l', r)"
    and "\<not> stopped ch (line_events (f_path st) (f_inode st) (f_offset st) data)"
  shows "tl_replayed l' = tl_replayed l + length (filter (replayed_upto st) (line_events (f_path st) (f_inode st) (f_offset st) data))
    \<and> tl_read l' = tl_read l + length (filter (\<lambda>e. \<not> replayed_upto st e) (line_events (f_path st) (f_inode st) (f_offset st) data))
    \<and> tl_dropped l' = tl_dropped l + (length (line_events (f_path st) (f_inode st) (f_offset st) data)
         - length (delivered ch (line_events (f_path st) (f_inode st) (f_offset st) data)))"
  using assms by (rule read_new_lines_counts)

theorem read_loop_counts_lines_witness:
  "\<exists>st' l' r. read_new_lines open_channel None sample_state [CHR ''a'', CR, NL, NL, CHR ''b''] empty_log = (st', l', r) \<and>
     tl_replayed l' = 1 \<and> tl_read l' = 1 \<and> tl_dropped l' = 0"
proof -
  obtain st' l' r where rn:
    "read_new_lines open_channel None sample_state [CHR ''a'', CR, NL, NL, CHR ''b''] empty_log = (st', l', r)"
    by (metis prod_cases3)
  from read_loop_counts_lines [OF rn] sample_line_events rn show ?thesis
    by (simp add: replayed_upto_def empty_log_def)
qed

definition sample_fs :: "bytes \<Rightarrow> nat \<Rightarrow> fs" where
  "sample_fs data inode = \<lparr>fs_abs = Inr, fs_glob = (\<lambda>d p. Inr []), fs_stat = (\<lambda>p. Inr (Some inode)),
     fs_is_dir = (\<lambda>p. False), fs_open = (\<lambda>p. Inr inode), fs_seek = (\<lambda>h n. ok), fs_fstat = (\<lambda>h. ok),
     fs_data = (\<lambda>h. data), fs_fin = (\<lambda>h. None)\<rparr>"

lemma sample_fs_simps [simp]:
  "fs_abs (sample_fs data i) = Inr" "fs_stat (sample_fs data i) p = Inr (Some i)"
  "file_inode (sample_fs data i) p = Inr i" "fs_open (sample_fs data i) p = Inr i"
  "fs_seek (sample_fs data i) h n = ok" "fs_fstat (sample_fs data i) h = ok"
  "fs_data (sample_fs data i) h = data" "fs_fin (sample_fs data i) = (\<lambda>h. None)"
  by (simp_all add: sample_fs_def file_inode_def)

definition sample_watcher_of :: "string \<Rightarrow> watcher" where
  "sample_watcher_of policy = new_watcher (\<lambda>s. failing ''no duration'')
     ((default_config [])\<lparr>cfg_pipeline := (cfg_pipeline (default_config []))\<lparr>on_full := policy\<rparr>\<rparr>)"

lemma sample_watcher_drop [simp]: "wa_drop (sample_watcher_of ''drop'')" "\<not> wa_drop (sample_watcher_of ''block'')"
  by (simp_all add: sample_watcher_of_def new_watcher_def Let_def)

text \<open>
  C11. Resuming from a watermark loses nothing and repeats nothing, with the channel a running watcher
  has (its \<open>on_full\<close> policy, and a run context): when the stored offset of a file is the offset of one of
  its events and the inode still matches, opening the file and reading it to the end tries to send
  exactly the events that follow that one, in order.  With \<open>on_full: drop\<close> those without room are missing;
  otherwise, when a shutdown ends the wait for room, that event and all later ones are missing; and when
  every send goes through, what arrives is exactly the rest.
\<close>

theorem resume_reads_exactly_the_rest:
  assumes "file_inode w path = Inr inode" "fs_open w path = Inr inode"
    and "fs_seek w inode (int (le_offset e)) = ok" "fs_fstat w inode = ok" "fs_fin w inode = None"
    and "e \<in> set (line_events path inode 0 (fs_data w inode))"
    and "marks path = Some \<lparr>w_offset = int (le_offset e), w_inode = inode\<rparr>"
  shows "\<exists>files l pre post. tail_file (watcher_channel wa room) w marks path gm_empty empty_log = (files, l, None) \<and>
    line_events path inode 0 (fs_data w inode) = pre @ e # post \<and>
    tl_events l = (if wa_drop wa then filter room post else takeWhile room post) \<and>
    ((\<forall>x \<in> set post. room x) \<longrightarrow> tl_events l = post)"
proof -
  let ?ch = "watcher_channel wa room" and ?post = "line_events path inode (le_offset e) (drop (le_offset e) (fs_data w inode))"
  obtain pre where pre: "line_events path inode 0 (fs_data w inode) = pre @ e # ?post"
    using line_events_resume [OF assms(6)] by auto
  define st where "st = \<lparr>f_path = path, f_handle = inode, f_offset = le_offset e, f_inode = inode,
      f_resumed = True, f_resume_offset = le_offset e, f_size_at_open = length (fs_data w inode)\<rparr>"
  have op: "open_tail w marks path inode = Inr st"
    using assms by (simp add: open_tail_def initial_offset_def st_def)
  obtain st' l r where rs: "read_state ?ch w st empty_log = (st', l, r)" by (metis prod_cases3)
  have "read_new_lines ?ch None st (drop (le_offset e) (fs_data w inode)) empty_log = (st', l, r)"
    using rs assms(5) by (simp add: read_state_def st_def)
  from read_new_lines_delivers [OF this]
  have out: "tl_events l = delivered ?ch ?post" "r = None"
    by (simp_all add: st_def empty_log_def split: if_splits)
  have "tail_file ?ch w marks path gm_empty empty_log = (gm_put gm_empty path st', l, None)"
    using assms(1) op rs out(2) by (simp add: tail_file_def)
  moreover have "tl_events l = (if wa_drop wa then filter room ?post else takeWhile room ?post)"
    using out(1) by (simp add: watcher_channel_delivers)
  moreover from this have "(\<forall>x \<in> set ?post. room x) \<longrightarrow> tl_events l = ?post" by simp
  ultimately show ?thesis using pre by blast
qed

theorem resume_reads_exactly_the_rest_witness:
  "\<exists>files l pre post. tail_file (watcher_channel (sample_watcher_of ''block'') (\<lambda>e. True)) (sample_fs [CHR ''a'', NL, CHR ''b'', NL] 3)
      [''/l'' \<mapsto> \<lparr>w_offset = 2, w_inode = 3\<rparr>] ''/l'' gm_empty empty_log = (files, l, None) \<and>
     [\<lparr>le_path = ''/l'', le_line = ''a'', le_offset = 2, le_inode = 3\<rparr>,
      \<lparr>le_path = ''/l'', le_line = ''b'', le_offset = 4, le_inode = 3\<rparr>] =
     pre @ \<lparr>le_path = ''/l'', le_line = ''a'', le_offset = 2, le_inode = 3\<rparr> # post \<and> tl_events l = post"
proof -
  have "line_events ''/l'' 3 0 [CHR ''a'', NL, CHR ''b'', NL] =
     [\<lparr>le_path = ''/l'', le_line = ''a'', le_offset = 2, le_inode = 3\<rparr>,
      \<lparr>le_path = ''/l'', le_line = ''b'', le_offset = 4, le_inode = 3\<rparr>]"
    by (simp add: line_events_def go_split_def has_prefix_def trim_eol_def)
  then show ?thesis
    using resume_reads_exactly_the_rest [of "sample_fs [CHR ''a'', NL, CHR ''b'', NL] 3" "''/l''" 3
        "\<lparr>le_path = ''/l'', le_line = ''a'', le_offset = 2, le_inode = 3\<rparr>"
        "[''/l'' \<mapsto> \<lparr>w_offset = 2, w_inode = 3\<rparr>]" "sample_watcher_of ''block''" "\<lambda>e. True"]
    by (simp del: ex_simps) blast
qed

text \<open>
  C12. Polling an append-only file whose writer completes its lines, with the channel of a running
  watcher: with \<open>on_full: drop\<close>, or as long as no send is given up at a shutdown, the events of all polls
  together, whatever each of them sees, are the lines of the final contents after the first offset
  for which there was room, each exactly once and in order; in block mode these are all of them.
\<close>

theorem polling_reads_every_line_once:
  assumes "wa_drop wa \<or> (\<forall>e. room e)" "gm_get files path = Some st" "f_path st = path"
    and "list_all (\<lambda>w. file_inode w path = Inr (f_inode st) \<and> fs_fin w (f_handle st) = None) ws"
    and "grows_by_lines (d # map (\<lambda>w. fs_data w (f_handle st)) ws)" "f_offset st = length d"
  shows "tl_events (snd (poll_file (watcher_channel wa room) marks path ws files l)) = tl_events l @ filter room
    (line_events path (f_inode st) (length d) (drop (length d) (last (d # map (\<lambda>w. fs_data w (f_handle st)) ws))))"
proof -
  have "never_gives_up (watcher_channel wa room)" using assms(1) by (simp add: watcher_never_gives_up)
  moreover have "delivered (watcher_channel wa room) es = filter room es" for es
    using assms(1) by (auto simp: watcher_channel_delivers filter_takeWhile_all)
  ultimately show ?thesis using poll_file_events [OF _ assms(2-6)] by simp
qed

theorem polling_reads_every_line_once_witness:
  "tl_events (snd (poll_file (watcher_channel (sample_watcher_of ''drop'') (\<lambda>e. le_offset e < 13)) (\<lambda>p. None) ''/l''
     [sample_fs (replicate 10 NL) 3, sample_fs (replicate 10 NL @ [CHR ''a'', NL, CHR ''b'', NL]) 3]
     [(''/l'', sample_state)] empty_log)) = [\<lparr>le_path = ''/l'', le_line = ''a'', le_offset = 12, le_inode = 3\<rparr>]"
proof -
  have "line_events ''/l'' 3 10 [CHR ''a'', NL, CHR ''b'', NL] =
     [\<lparr>le_path = ''/l'', le_line = ''a'', le_offset = 12, le_inode = 3\<rparr>,
      \<lparr>le_path = ''/l'', le_line = ''b'', le_offset = 14, le_inode = 3\<rparr>]"
    by (simp add: line_events_def go_split_def has_prefix_def trim_eol_def)
  then show ?thesis
    using polling_reads_every_line_once [of "sample_watcher_of ''drop''" "\<lambda>e. le_offset e < 13" "[(''/l'', sample_state)]" "''/l''" sample_state
        "[sample_fs (replicate 10 NL) 3, sample_fs (replicate 10 NL @ [CHR ''a'', NL, CHR ''b'', NL]) 3]" "replicate 10 NL" "\<lambda>p. None" empty_log]
    by (simp add: gm_get_def has_prefix_def empty_log_def)
qed

text \<open>
  A line is torn when a poll sees its first part only: the bytes before the newline is written
  are delivered as a complete event, and the rest of the line as another one, whereas a poll that
  sees the whole line delivers one event.
\<close>

theorem torn_line_becomes_two_events:
  assumes "lossless ch" "a \<noteq> []" "b \<noteq> []" "NL \<notin> set (a @ b)" "CR \<notin> set (a @ b)"
    and "read_new_lines ch None st a l = (st1, l1, r1)" "read_new_lines ch None st1 (b @ [NL]) l1 = (st2, l2, r2)"
    and "read_new_lines ch None st (a @ b @ [NL]) l = (st', l', r')"
  shows "map le_line (tl_events l2) = map le_line (tl_events l) @ [a, b]
    \<and> map le_line (tl_events l') = map le_line (tl_events l) @ [a @ b]"
proof -
  have trim: "trim_eol s = s" if "NL \<notin> set s" "CR \<notin> set s" for s
    using that by (cases s rule: rev_cases) (auto simp: trim_eol_def)
  have one: "map le_line (line_events p i off s) = [s]" if "NL \<notin> set s" "CR \<notin> set s" "s \<noteq> []" for p i off s
    using that by (simp add: line_events_def go_split_no_NL trim)
  have two: "map le_line (line_events p i off (s @ [NL])) = [s]" if "NL \<notin> set s" "CR \<notin> set s" "s \<noteq> []" for p i off s
    using that go_split_NL [of s "[]"] by (simp add: line_events_def go_split_no_NL trim)
  have l1: "tl_events l1 = tl_events l @ line_events (f_path st) (f_inode st) (f_offset st) a"
    and st1: "st1 = st\<lparr>f_offset := f_offset st + length a\<rparr>"
    using read_new_lines_delivers [OF assms(6)] assms(1) by simp_all
  have "tl_events l2 = tl_events l1 @ line_events (f_path st) (f_inode st) (f_offset st + length a) (b @ [NL])"
    using read_new_lines_delivers [OF assms(7)] assms(1) st1 by simp
  moreover have "tl_events l' = tl_events l @ line_events (f_path st) (f_inode st) (f_offset st) ((a @ b) @ [NL])"
    using read_new_lines_delivers [OF assms(8)] assms(1) by simp
  ultimately show ?thesis
    using l1 one [of a] two [of b] two [of "a @ b"] assms(2-5) by simp
qed

theorem torn_line_becomes_two_events_witness:
  "\<exists>st1 l1 r1 st2 l2 r2. read_new_lines open_channel None sample_state ''he'' empty_log = (st1, l1, r1) \<and>
     read_new_lines open_channel None st1 (''llo'' @ [NL]) l1 = (st2, l2, r2) \<and>
     map le_line (tl_events l2) = [''he'', ''llo'']"
proof -
  obtain st1 l1 r1 where 1: "read_new_lines open_channel None sample_state ''he'' empty_log = (st1, l1, r1)"
    by (metis prod_cases3)
  obtain st2 l2 r2 where 2: "read_new_lines open_channel None st1 (''llo'' @ [NL]) l1 = (st2, l2, r2)"
    by (metis prod_cases3)
  obtain st' l' r' where 3: "read_new_lines open_channel None sample_state (''he'' @ ''llo'' @ [NL]) empty_log = (st', l', r')"
    by (metis prod_cases3)
  show ?thesis
    using torn_line_becomes_two_events [OF _ _ _ _ _ 1 2 3] 1 2 by (simp add: empty_log_def)
qed

text \<open>
  Rotation: when the path has another inode, without a watermark for it, the new file is read
  from its beginning, and nothing more is read of the old one, whatever its contents after the
  offset reached.
\<close>

theorem rotation_reads_only_the_new_file:
  assumes "gm_get files path = Some st" "file_inode w path = Inr inode" "inode \<noteq> f_inode st"
    and "fs_open w path = Inr inode" "fs_seek w inode 0 = ok" "fs_fstat w inode = ok"
    and "\<forall>e. marks path = Some e \<longrightarrow> w_inode e \<noteq> inode"
    and "tail_file ch w marks path files l = (files', l', r)"
  shows "tl_events l' = tl_events l @ delivered ch (line_events path inode 0 (fs_data w inode))"
proof -
  define st0 where "st0 = \<lparr>f_path = path, f_handle = inode, f_offset = 0, f_inode = inode,
      f_resumed = False, f_resume_offset = 0, f_size_at_open = length (fs_data w inode)\<rparr>"
  have op: "open_tail w marks path inode = Inr st0"
    using assms by (auto simp: open_tail_def initial_offset_def st0_def split: option.splits)
  obtain st' l1 r' where rs: "read_state ch w st0 l = (st', l1, r')" by (metis prod_cases3)
  have "l' = l1" using assms(1,2,3,8) op rs by (simp add: tail_file_def)
  then show ?thesis
    using read_new_lines_delivers [of ch "fs_fin w inode" st0 "fs_data w inode" l st' l1 r'] rs
    by (simp add: read_state_def st0_def)
qed

theorem rotation_reads_only_the_new_file_witness:
  "\<exists>files' l' r. tail_file open_channel (sample_fs [CHR ''n'', NL] 4) (\<lambda>p. None) ''/l'' [(''/l'', sample_state)] empty_log
      = (files', l', r) \<and> tl_events l' = line_events ''/l'' 4 0 [CHR ''n'', NL]"
proof -
  obtain files' l' r where 1: "tail_file open_channel (sample_fs [CHR ''n'', NL] 4) (\<lambda>p. None) ''/l''
      [(''/l'', sample_state)] empty_log = (files', l', r)"
    by (metis prod_cases3)
  show ?thesis
    using rotation_reads_only_the_new_file [OF _ _ _ _ _ _ _ 1, of sample_state 4] 1
    by (simp add: gm_get_def empty_log_def)
qed

lemma open_tail_inode: "open_tail w marks path inode = Inr st \<Longrightarrow> f_inode st = inode"
  by (cases "initial_offset marks path inode") (auto simp: open_tail_def bind_res_eq_Inr)

text \<open>
  Overlapping patterns: a path matched again in the same scan, with the file unchanged, is read
  again from where the reading stopped and delivers nothing, unless a send was given up.
\<close>

theorem matching_twice_reads_once:
  assumes "tail_file ch w marks path files l = (files1, l1, None)"
    and "never_gives_up ch" "fs_fin w = (\<lambda>h. None)"
  shows "snd (tail_file ch w marks path files1 l1) = (l1, None)"
proof -
  obtain inode where inode: "file_inode w path = Inr inode"
    using assms(1) by (auto simp: tail_file_def split: sum.splits)
  obtain st st' where st: "f_inode st = inode" "read_state ch w st l = (st', l1, None)"
      and files1: "gm_get files1 path = Some st'"
    using assms(1) inode
    by (auto simp: tail_file_def dest: open_tail_inode split: option.splits sum.splits prod.splits if_splits)
  have "\<not> stopped ch es" for es using assms(2) by (rule not_stopped)
  then have "st' = st\<lparr>f_offset := f_offset st + length (drop (f_offset st) (fs_data w (f_handle st)))\<rparr>"
    using read_new_lines_delivers st(2) assms(3) by (fastforce simp: read_state_def)
  then have "read_state ch w st' l1 = (st', l1, None)"
    using assms(3) by (simp add: read_state_def read_new_lines.simps)
  moreover have "f_inode st' = inode"
    using \<open>st' = _\<close> st(1) by simp
  ultimately show ?thesis using inode files1 by (simp add: tail_file_def)
qed


theorem matching_twice_reads_once_witness:
  "\<exists>files1 l1. tail_file open_channel (sample_fs [CHR ''n'', NL] 4) (\<lambda>p. None) ''/l'' gm_empty empty_log = (files1, l1, None) \<and>
     snd (tail_file open_channel (sample_fs [CHR ''n'', NL] 4) (\<lambda>p. None) ''/l'' files1 l1) = (l1, None)"
proof -
  obtain files1 l1 r where 1: "tail_file open_channel (sample_fs [CHR ''n'', NL] 4) (\<lambda>p. None) ''/l'' gm_empty empty_log
      = (files1, l1, r)"
    by (metis prod_cases3)
  have "r = None"
    using 1 read_new_lines_delivers [of open_channel None] open_channel_lossless
    by (fastforce simp: tail_file_def open_tail_def initial_offset_def read_state_def split: prod.splits)
  then show ?thesis
    using matching_twice_reads_once [of open_channel "sample_fs [CHR ''n'', NL] 4" "\<lambda>p. None" "''/l''" gm_empty empty_log files1 l1] 1
    by (simp add: never_gives_up_def open_channel_def)
qed

end
