(* ===== verification/Parser.thy ===== *)
theory Parser
  imports Tail
begin

text \<open>
  The parsers (\<open>internal/parser\<close>): grouping physical lines into logical records, one per line or
  by a start pattern.  The compiled start pattern is a predicate on lines; the order in which Go
  ranges over the buffers in \<open>Flush\<close> is an argument.  What every parser must do for the pipeline,
  to lose, repeat or reorder no line of a file, is the locale \<open>record_parser\<close>, interpreted on both
  built-in parsers.
\<close>

section \<open>Events and the two parsers\<close>

record event =
  ev_path :: string
  ev_data :: bytes
  ev_offset :: nat
  ev_inode :: nat

record ml_buffer =
  mb_path :: string
  mb_inode :: nat
  mb_lines :: "bytes list"
  mb_offset :: nat

type_synonym ml_state = "ml_buffer gomap"

definition event_of_line :: "line_event \<Rightarrow> event" where
  "event_of_line e = \<lparr>ev_path = le_path e, ev_data = le_line e, ev_offset = le_offset e, ev_inode = le_inode e\<rparr>"

definition line_feed :: "unit \<Rightarrow> line_event \<Rightarrow> unit \<times> event list" where
  "line_feed s e = (s, [event_of_line e])"

definition line_flush :: "string list \<Rightarrow> unit \<Rightarrow> unit \<times> event list" where
  "line_flush order s = (s, [])"

definition flush_buffer :: "ml_buffer \<Rightarrow> event" where
  "flush_buffer b = \<lparr>ev_path = mb_path b, ev_data = go_join [NL] (mb_lines b), ev_offset = mb_offset b,
     ev_inode = mb_inode b\<rparr>"

definition ml_feed :: "(bytes \<Rightarrow> bool) \<Rightarrow> ml_state \<Rightarrow> line_event \<Rightarrow> ml_state \<times> event list" where
  "ml_feed start s e =
     (if start (le_line e) then
        (gm_put s (le_path e) \<lparr>mb_path = le_path e, mb_inode = le_inode e, mb_lines = [le_line e],
           mb_offset = le_offset e\<rparr>,
         (case gm_get s (le_path e) of
            Some b \<Rightarrow> if length (mb_lines b) > 0 then [flush_buffer b] else []
          | None \<Rightarrow> []))
      else
        (case gm_get s (le_path e) of
           Some b \<Rightarrow>
             (gm_put s (le_path e) (b\<lparr>mb_lines := mb_lines b @ [le_line e], mb_offset := le_offset e,
                mb_inode := le_inode e\<rparr>), [])
         | None \<Rightarrow> (s, [event_of_line e])))"

text \<open>\<open>Flush\<close> visits the keys of the map in some order and deletes each.\<close>

fun ml_flush :: "string list \<Rightarrow> ml_state \<Rightarrow> ml_state \<times> event list" where
  "ml_flush [] s = (s, [])"
| "ml_flush (p # ps) s =
     (case gm_get s p of
        None \<Rightarrow> ml_flush ps s
      | Some b \<Rightarrow>
          (case ml_flush ps (gm_del s p) of (s', es) \<Rightarrow>
             (s', (if length (mb_lines b) > 0 then [flush_buffer b] else []) @ es)))"

text \<open>The order is admissible when it names every buffered path.\<close>

definition visits_all :: "string list \<Rightarrow> ml_state \<Rightarrow> bool" where
  "visits_all order s \<longleftrightarrow> distinct order \<and> set order = set (gm_keys s)"

section \<open>Construction\<close>

text \<open>
  A registered factory turns a configuration into a parser; \<open>compile\<close> is \<open>regexp.Compile\<close>
  followed by \<open>Match\<close>.  Extensions register factories of their own.
\<close>

datatype builtin_parser = LineParser | MultilineParser "bytes \<Rightarrow> bool"

type_synonym parser_factory = "parser_config \<Rightarrow> builtin_parser result"

definition new_multiline_parser :: "(string \<Rightarrow> (bytes \<Rightarrow> bool) result) \<Rightarrow> parser_factory" where
  "new_multiline_parser compile cfg =
     (case compile (parser_start_pattern cfg) of
        Inl e \<Rightarrow> Inl (ErrWrap ''compile parser.start_pattern: '' e)
      | Inr re \<Rightarrow> Inr (MultilineParser re))"

definition parser_registry :: "(string \<Rightarrow> (bytes \<Rightarrow> bool) result) \<Rightarrow> (string \<rightharpoonup> parser_factory) \<Rightarrow> string \<rightharpoonup> parser_factory" where
  "parser_registry compile custom =
     [''line'' \<mapsto> (\<lambda>cfg. Inr LineParser), ''multiline'' \<mapsto> new_multiline_parser compile] ++ custom"

definition new_parser :: "(string \<rightharpoonup> parser_factory) \<Rightarrow> string list \<Rightarrow> parser_config \<Rightarrow> builtin_parser result" where
  "new_parser reg names cfg =
     (let ty = (if parser_type cfg = [] then ''line'' else parser_type cfg) in
      case reg ty of
        None \<Rightarrow> failing (''unknown parser type '' @ quoted ty @ registered names)
      | Some factory \<Rightarrow> factory cfg)"

text \<open>A parser value behind the interface: which methods \<open>Feed\<close> and \<open>Flush\<close> dispatch to.\<close>

definition parser_feed :: "builtin_parser \<Rightarrow> ml_state \<Rightarrow> line_event \<Rightarrow> ml_state \<times> event list" where
  "parser_feed p s e = (case p of
      LineParser \<Rightarrow> (s, snd (line_feed () e))
    | MultilineParser start \<Rightarrow> ml_feed start s e)"

definition parser_flush :: "builtin_parser \<Rightarrow> string list \<Rightarrow> ml_state \<Rightarrow> ml_state \<times> event list" where
  "parser_flush p order s = (case p of
      LineParser \<Rightarrow> (s, snd (line_flush order ()))
    | MultilineParser start \<Rightarrow> ml_flush order s)"

section \<open>The interface\<close>

text \<open>The record a group of lines of one file makes.\<close>

definition event_of :: "line_event list \<Rightarrow> event" where
  "event_of g = \<lparr>ev_path = le_path (hd g), ev_data = go_join [NL] (map le_line g),
     ev_offset = le_offset (last g), ev_inode = le_inode (last g)\<rparr>"

definition of_path :: "string \<Rightarrow> line_event list \<Rightarrow> line_event list" where
  "of_path p ls = filter (\<lambda>e. le_path e = p) ls"

definition events_of_path :: "string \<Rightarrow> event list \<Rightarrow> event list" where
  "events_of_path p es = filter (\<lambda>e. ev_path e = p) es"

fun feed_all :: "('s \<Rightarrow> line_event \<Rightarrow> 's \<times> event list) \<Rightarrow> 's \<Rightarrow> line_event list \<Rightarrow> 's \<times> event list" where
  "feed_all feed s [] = (s, [])"
| "feed_all feed s (e # es) =
     (case feed s e of (s1, out) \<Rightarrow> case feed_all feed s1 es of (s2, out') \<Rightarrow> (s2, out @ out'))"

text \<open>
  \<open>rep g s\<close>: in state \<open>s\<close> the parser holds the lines \<open>g p\<close> of each path.  A step cuts the lines of
  a path, held and new, into groups that it emits and a rest that it holds.
\<close>

definition cuts :: "string \<Rightarrow> line_event list \<Rightarrow> event list \<Rightarrow> line_event list \<Rightarrow> bool" where
  "cuts p ls es rest \<longleftrightarrow> (\<exists>gs. ls = concat gs @ rest \<and> events_of_path p es = map event_of gs \<and>
     (\<forall>g \<in> set gs. g \<noteq> []))"

locale record_parser =
  fixes feed :: "'s \<Rightarrow> line_event \<Rightarrow> 's \<times> event list"
    and flush :: "string list \<Rightarrow> 's \<Rightarrow> 's \<times> event list"
    and all_visited :: "string list \<Rightarrow> 's \<Rightarrow> bool"
    and rep :: "(string \<Rightarrow> line_event list) \<Rightarrow> 's \<Rightarrow> bool"
  assumes feed_cuts: "\<lbrakk>rep g s; feed s e = (s', es)\<rbrakk> \<Longrightarrow>
      \<exists>g'. rep g' s' \<and> (\<forall>p. cuts p (g p @ of_path p [e]) es (g' p))"
    and flush_cuts: "\<lbrakk>rep g s; all_visited order s; flush order s = (s', es)\<rbrakk> \<Longrightarrow>
      rep (\<lambda>p. []) s' \<and> (\<forall>p. cuts p (g p) es [])"
begin

lemma cuts_append:
  assumes "cuts p ls es r" "cuts p (r @ ms) es' r'"
  shows "cuts p (ls @ ms) (es @ es') r'"
proof -
  obtain gs where gs: "ls = concat gs @ r" "events_of_path p es = map event_of gs" "\<forall>g \<in> set gs. g \<noteq> []"
    using assms(1) unfolding cuts_def by (elim exE conjE)
  obtain hs where hs: "r @ ms = concat hs @ r'" "events_of_path p es' = map event_of hs" "\<forall>g \<in> set hs. g \<noteq> []"
    using assms(2) unfolding cuts_def by (elim exE conjE)
  have "ls @ ms = concat (gs @ hs) @ r'" using gs(1) hs(1) by simp
  then show ?thesis
    using gs hs unfolding cuts_def by (intro exI [of _ "gs @ hs"]) (auto simp: events_of_path_def)
qed

lemma feed_all_cuts:
  "\<lbrakk>rep g s; feed_all feed s ls = (s', es)\<rbrakk> \<Longrightarrow>
     \<exists>g'. rep g' s' \<and> (\<forall>p. cuts p (g p @ of_path p ls) es (g' p))"
proof (induction ls arbitrary: g s s' es)
  case Nil
  then show ?case by (intro exI [of _ g]) (auto simp: of_path_def cuts_def events_of_path_def intro!: exI [of _ "[]"])
next
  case (Cons l ls)
  obtain s1 es1 where 1: "feed s l = (s1, es1)" by force
  obtain es2 where 2: "feed_all feed s1 ls = (s', es2)" "es = es1 @ es2"
    using Cons.prems(2) by (auto simp: 1 split: prod.splits)
  obtain g1 where g1: "rep g1 s1" "\<And>p. cuts p (g p @ of_path p [l]) es1 (g1 p)"
    using feed_cuts [OF Cons.prems(1) 1] by blast
  obtain g2 where g2: "rep g2 s'" "\<And>p. cuts p (g1 p @ of_path p ls) es2 (g2 p)"
    using Cons.IH [OF g1(1) 2(1)] by blast
  have "cuts p (g p @ of_path p (l # ls)) es (g2 p)" for p
  proof -
    have "of_path p (l # ls) = of_path p [l] @ of_path p ls" by (simp add: of_path_def)
    then show ?thesis using cuts_append [OF g1(2) g2(2)] 2(2) by simp
  qed
  with g2(1) show ?case by blast
qed

text \<open>Feeding lines and flushing partitions every file's lines into records: none lost, none repeated, in order.\<close>

lemma partitions:
  assumes "rep (\<lambda>p. []) s" "feed_all feed s ls = (s1, es)" "all_visited order s1" "flush order s1 = (s2, es')"
  shows "rep (\<lambda>p. []) s2" "cuts p (of_path p ls) (es @ es') []"
proof -
  obtain g' where g': "rep g' s1" "\<And>p. cuts p (of_path p ls) es (g' p)"
    using feed_all_cuts [OF assms(1,2)] by auto
  show "rep (\<lambda>p. []) s2" using flush_cuts [OF g'(1) assms(3,4)] by blast
  have "cuts p (g' p @ []) es' []" using flush_cuts [OF g'(1) assms(3,4)] by simp
  then show "cuts p (of_path p ls) (es @ es') []"
    using cuts_append [OF g'(2)] by fastforce
qed

end

section \<open>The line parser\<close>

definition line_rep :: "(string \<Rightarrow> line_event list) \<Rightarrow> unit \<Rightarrow> bool" where
  "line_rep g s \<longleftrightarrow> (\<forall>p. g p = [])"

lemma event_of_single: "event_of [e] = event_of_line e"
  by (simp add: event_of_def event_of_line_def)

lemma cuts_emit: "le_path e = p \<Longrightarrow> cuts p [e] [event_of_line e] []"
  by (auto simp: cuts_def events_of_path_def event_of_single event_of_line_def intro!: exI [of _ "[[e]]"])

lemma cuts_other: "(\<And>x. x \<in> set es \<Longrightarrow> ev_path x \<noteq> p) \<Longrightarrow> cuts p ls es ls"
  by (auto simp: cuts_def events_of_path_def filter_False intro!: exI [of _ "[]"])

interpretation lp: record_parser line_feed line_flush "\<lambda>order s. True" line_rep
proof
  fix g s e s' es
  assume "line_rep g s" "line_feed s e = (s', es)"
  then show "\<exists>g'. line_rep g' s' \<and> (\<forall>p. cuts p (g p @ of_path p [e]) es (g' p))"
    using cuts_emit [of e] cuts_other [of "[event_of_line e]"]
    by (intro exI [of _ "\<lambda>p. []"])
       (auto simp: line_rep_def line_feed_def of_path_def event_of_line_def)
next
  fix g s order s' es
  assume "line_rep g s" "line_flush order s = (s', es)"
  then show "line_rep (\<lambda>p. []) s' \<and> (\<forall>p. cuts p (g p) es [])"
    by (auto simp: line_rep_def line_flush_def intro: cuts_other)
qed

section \<open>The multiline parser\<close>

definition buffer_of :: "string \<Rightarrow> line_event list \<Rightarrow> ml_buffer" where
  "buffer_of p ls = \<lparr>mb_path = p, mb_inode = le_inode (last ls), mb_lines = map le_line ls,
     mb_offset = le_offset (last ls)\<rparr>"

definition ml_rep :: "(string \<Rightarrow> line_event list) \<Rightarrow> ml_state \<Rightarrow> bool" where
  "ml_rep g s \<longleftrightarrow> gm_ok s \<and> (\<forall>p. gm_get s p = (if g p = [] then None else Some (buffer_of p (g p)))
     \<and> (\<forall>e \<in> set (g p). le_path e = p))"

lemma ml_rep_get: "ml_rep g s \<Longrightarrow> gm_get s p = (if g p = [] then None else Some (buffer_of p (g p)))"
  and ml_rep_path: "\<lbrakk>ml_rep g s; e \<in> set (g p)\<rbrakk> \<Longrightarrow> le_path e = p"
  by (auto simp: ml_rep_def)

lemma flush_buffer_of: "\<lbrakk>ml_rep g s; g p \<noteq> []\<rbrakk> \<Longrightarrow> flush_buffer (buffer_of p (g p)) = event_of (g p)"
  using ml_rep_path [of g s "hd (g p)" p] by (simp add: flush_buffer_def buffer_of_def event_of_def)

lemma ml_rep_put:
  assumes "ml_rep g s" "ls \<noteq> []" "\<forall>e \<in> set ls. le_path e = p"
  shows "ml_rep (g(p := ls)) (gm_put s p (buffer_of p ls))"
  using assms by (auto simp: ml_rep_def gm_ok_put gm.get_put)

lemma ml_rep_del: "ml_rep g s \<Longrightarrow> ml_rep (g(p := [])) (gm_del s p)"
  by (auto simp: ml_rep_def gm_ok_del gm.get_del)

text \<open>One step of \<open>Feed\<close>, on the lines held.\<close>

lemma ml_feed_rep:
  assumes "ml_rep g s"
  shows "ml_feed start s e =
    (let p = le_path e in
     if start (le_line e) then (gm_put s p (buffer_of p [e]), if g p = [] then [] else [event_of (g p)])
     else if g p = [] then (s, [event_of [e]])
     else (gm_put s p (buffer_of p (g p @ [e])), []))"
  using assms flush_buffer_of [OF assms, of "le_path e"]
  by (auto simp: ml_feed_def ml_rep_get Let_def event_of_single) (auto simp: buffer_of_def)

definition ml_held :: "(bytes \<Rightarrow> bool) \<Rightarrow> (string \<Rightarrow> line_event list) \<Rightarrow> line_event \<Rightarrow> string \<Rightarrow> line_event list" where
  "ml_held start g e = (let p = le_path e in
     if start (le_line e) then g(p := [e]) else if g p = [] then g else g(p := g p @ [e]))"

lemma ml_feed_held:
  assumes "ml_rep g s" "ml_feed start s e = (s', es)"
  shows "ml_rep (ml_held start g e) s'"
  using assms ml_rep_put [OF assms(1), of "[e]"] ml_rep_put [OF assms(1), of "g (le_path e) @ [e]"] ml_rep_path [OF assms(1)]
  by (auto simp: ml_feed_rep ml_held_def Let_def split: if_splits)

lemma ml_feed_events:
  assumes "ml_rep g s" "ml_feed start s e = (s', es)"
  shows "events_of_path p es = (if le_path e \<noteq> p then []
    else if start (le_line e) then (if g p = [] then [] else [event_of (g p)])
    else if g p = [] then [event_of [e]] else [])"
proof -
  have "ev_path (event_of (g (le_path e))) = le_path e" if "g (le_path e) \<noteq> []"
    using ml_rep_path [OF assms(1), of "hd (g (le_path e))" "le_path e"] that by (simp add: event_of_def)
  moreover have "ev_path (event_of [e]) = le_path e" by (simp add: event_of_def)
  ultimately show ?thesis
    using assms by (auto simp: ml_feed_rep Let_def events_of_path_def split: if_splits)
qed

lemma ml_flush_rep:
  assumes "ml_rep g s" "distinct order" "ml_flush order s = (s', es)"
  shows "ml_rep (\<lambda>p. if p \<in> set order then [] else g p) s' \<and>
    (\<forall>p. events_of_path p es = (if p \<in> set order \<and> g p \<noteq> [] then [event_of (g p)] else []))"
  using assms
proof (induction order s arbitrary: g s' es rule: ml_flush.induct)
  case (1 s)
  then show ?case by (simp add: events_of_path_def)
next
  case (2 p ps s)
  note get = ml_rep_get [OF "2.prems"(1), of p]
  show ?case
  proof (cases "g p = []")
    case True
    then have "ml_flush ps s = (s', es)" using "2.prems"(3) get by simp
    then have IH: "ml_rep (\<lambda>q. if q \<in> set ps then [] else g q) s' \<and>
      (\<forall>q. events_of_path q es = (if q \<in> set ps \<and> g q \<noteq> [] then [event_of (g q)] else []))"
      using "2.IH"(1) [OF _ "2.prems"(1)] get True "2.prems"(2) by simp
    have "(\<lambda>q. if q \<in> set (p # ps) then [] else g q) = (\<lambda>q. if q \<in> set ps then [] else g q)"
      using True by auto
    with IH True show ?thesis by auto
  next
    case False
    obtain es1 where es1: "ml_flush ps (gm_del s p) = (s', es1)"
        and es: "es = event_of (g p) # es1"
      using "2.prems"(3) get False flush_buffer_of [OF "2.prems"(1) False]
      by (auto simp: buffer_of_def split: prod.splits)
    have IH: "ml_rep (\<lambda>q. if q \<in> set ps then [] else (g(p := [])) q) s' \<and>
      (\<forall>q. events_of_path q es1 = (if q \<in> set ps \<and> (g(p := [])) q \<noteq> [] then [event_of ((g(p := [])) q)] else []))"
      using "2.IH"(2) [OF _ ml_rep_del [OF "2.prems"(1), of p] _ es1] get False "2.prems"(2) by simp
    have path: "ev_path (event_of (g p)) = p"
      using ml_rep_path [OF "2.prems"(1), of "hd (g p)" p] False by (simp add: event_of_def)
    have "(\<lambda>q. if q \<in> set ps then [] else (g(p := [])) q) = (\<lambda>q. if q \<in> set (p # ps) then [] else g q)"
      by auto
    with IH path False "2.prems"(2) show ?thesis by (auto simp: es events_of_path_def)
  qed
qed

interpretation ml: record_parser "ml_feed start" ml_flush visits_all ml_rep for start
proof
  fix g s e s' es
  assume s: "ml_rep g s" "ml_feed start s e = (s', es)"
  have "cuts p (g p @ of_path p [e]) es (ml_held start g e p)" for p
    using ml_feed_events [OF s, of p]
    unfolding cuts_def
    by (cases "le_path e = p"; cases "start (le_line e)"; cases "g p = []")
       (auto simp: ml_held_def of_path_def Let_def intro: exI [of _ "[]"] exI [of _ "[[e]]"] exI [of _ "[g p]"])
  then show "\<exists>g'. ml_rep g' s' \<and> (\<forall>p. cuts p (g p @ of_path p [e]) es (g' p))"
    using ml_feed_held [OF s] by blast
next
  fix g s order s' es
  assume s: "ml_rep g s" "visits_all order s" "ml_flush order s = (s', es)"
  have all: "p \<in> set order" if "g p \<noteq> []" for p
    using s(1,2) that ml_rep_get [OF s(1), of p] by (auto simp: visits_all_def gm_keys_get)
  note fl = ml_flush_rep [OF s(1) _ s(3)]
  have "(\<lambda>p. if p \<in> set order then [] else g p) = (\<lambda>p. [])"
    using all by (simp add: fun_eq_iff) blast
  moreover have "cuts p (g p) es []" for p
    using fl all s(2) unfolding cuts_def visits_all_def
    by (cases "g p = []") (auto intro: exI [of _ "[]"] exI [of _ "[g p]"])
  ultimately show "ml_rep (\<lambda>p. []) s' \<and> (\<forall>p. cuts p (g p) es [])"
    using fl s(2) by (simp add: visits_all_def)
qed

section \<open>Where the multiline parser cuts\<close>

text \<open>Reference: lines before the first start line stand alone; a start line opens a record that
runs to the next start line.\<close>

fun chunks_from :: "(bytes \<Rightarrow> bool) \<Rightarrow> line_event list \<Rightarrow> line_event list \<Rightarrow> line_event list list" where
  "chunks_from start cur [] = (if cur = [] then [] else [cur])"
| "chunks_from start cur (l # ls) =
     (if start (le_line l) then (if cur = [] then [] else [cur]) @ chunks_from start [l] ls
      else if cur = [] then [l] # chunks_from start [] ls
      else chunks_from start (cur @ [l]) ls)"

lemma ml_feed_all_chunks:
  assumes "ml_rep g s" "feed_all (ml_feed start) s ls = (s1, es)" "visits_all order s1" "ml_flush order s1 = (s2, es')"
  shows "events_of_path p (es @ es') = map event_of (chunks_from start (g p) (of_path p ls))"
  using assms(1,2)
proof (induction ls arbitrary: g s es)
  case Nil
  have all: "p \<in> set order \<longleftrightarrow> g p \<noteq> []"
    using assms(3) Nil ml_rep_get [of g s p] by (auto simp: visits_all_def gm_keys_get split: if_splits)
  show ?case
    using Nil ml_flush_rep [of g s order s2 es'] assms(3,4) all
    by (auto simp: of_path_def visits_all_def events_of_path_def)
next
  case (Cons l ls)
  obtain t es1 where 1: "ml_feed start s l = (t, es1)" by force
  obtain es2 where 2: "feed_all (ml_feed start) t ls = (s1, es2)" "es = es1 @ es2"
    using Cons.prems(2) by (auto simp: 1 split: prod.splits)
  have split: "events_of_path p (es @ es') = events_of_path p es1 @ events_of_path p (es2 @ es')"
    by (simp add: 2(2) events_of_path_def)
  show ?case
    using Cons.IH [OF ml_feed_held [OF Cons.prems(1) 1] 2(1)] ml_feed_events [OF Cons.prems(1) 1, of p]
    by (auto simp: split ml_held_def of_path_def Let_def)
qed


section \<open>Properties\<close>

text \<open>The state \<open>New\<close> gives a parser.\<close>

definition parser_init :: ml_state where
  "parser_init = gm_empty"

lemma ml_rep_init: "ml_rep (\<lambda>p. []) parser_init"
  by (simp add: ml_rep_def parser_init_def)

text \<open>
  No built-in parser loses, repeats or reorders a line: after feeding any lines and one
  \<open>Flush\<close>, in any order of the map, the records of a file come from consecutive groups of its
  lines that together are exactly its lines; a record joins the lines of its group and carries the
  offset and the inode of the last one.  (The line parser keeps no lines at all.)
\<close>

theorem parsers_partition_lines:
  assumes "feed_all (parser_feed p) parser_init ls = (s1, es)"
    and "visits_all order s1" "parser_flush p order s1 = (s2, es')"
  shows "cuts path (of_path path ls) (es @ es') [] \<and> s2 = parser_init"
proof (cases p)
  case LineParser
  have run: "feed_all (parser_feed LineParser) s ls = (s, snd (feed_all line_feed () ls))" for s
    by (induction ls) (auto simp: parser_feed_def line_feed_def split: prod.splits)
  have "cuts path (of_path path ls) (snd (feed_all line_feed () ls) @ []) []"
    by (rule lp.partitions [of "()" ls "()" _ order "()" "[]"])
      (simp_all add: line_rep_def line_flush_def prod_eq_iff)
  then show ?thesis
    using assms run [of parser_init] by (simp add: LineParser parser_flush_def line_flush_def)
next
  case (MultilineParser start)
  have feed: "parser_feed p = ml_feed start"
    by (simp add: fun_eq_iff parser_feed_def MultilineParser)
  have flush: "ml_flush order s1 = (s2, es')"
    using assms(3) by (simp add: parser_flush_def MultilineParser)
  note part = ml.partitions [OF ml_rep_init assms(1) [unfolded feed] assms(2) flush]
  have "s2 = gm_empty"
    using part(1) by (intro gm_ext) (auto simp: ml_rep_def)
  then show ?thesis using part(2) by (simp add: parser_init_def)
qed

definition sample_lines :: "line_event list" where
  "sample_lines = [\<lparr>le_path = ''/a'', le_line = ''S1'', le_offset = 3, le_inode = 1\<rparr>,
     \<lparr>le_path = ''/b'', le_line = ''x'', le_offset = 2, le_inode = 2\<rparr>,
     \<lparr>le_path = ''/a'', le_line = ''t'', le_offset = 5, le_inode = 1\<rparr>]"

definition starts_S :: "bytes \<Rightarrow> bool" where
  "starts_S l \<longleftrightarrow> has_prefix l ''S''"

definition sample_buffer :: ml_buffer where
  "sample_buffer = \<lparr>mb_path = ''/a'', mb_inode = 1, mb_lines = [''S1'', ''t''], mb_offset = 5\<rparr>"

lemma sample_feed:
  "feed_all (ml_feed starts_S) parser_init sample_lines =
     ([(''/a'', sample_buffer)], [\<lparr>ev_path = ''/b'', ev_data = ''x'', ev_offset = 2, ev_inode = 2\<rparr>])"
  "visits_all [''/a''] [(''/a'', sample_buffer)]"
  "ml_flush [''/a''] [(''/a'', sample_buffer)] =
     (parser_init, [\<lparr>ev_path = ''/a'', ev_data = ''S1'' @ [NL] @ ''t'', ev_offset = 5, ev_inode = 1\<rparr>])"
  by (simp_all add: sample_lines_def starts_S_def ml_feed_def parser_init_def gm_empty_def gm_get_def
      has_prefix_def event_of_line_def visits_all_def gm_keys_def gm_del_def flush_buffer_def sample_buffer_def)

theorem parsers_partition_lines_witness:
  "cuts ''/a'' [sample_lines ! 0, sample_lines ! 2]
     [\<lparr>ev_path = ''/b'', ev_data = ''x'', ev_offset = 2, ev_inode = 2\<rparr>,
      \<lparr>ev_path = ''/a'', ev_data = ''S1'' @ [NL] @ ''t'', ev_offset = 5, ev_inode = 1\<rparr>] []"
  using parsers_partition_lines [of "MultilineParser starts_S" sample_lines _ _ "[''/a'']" _ _ "''/a''"] sample_feed
  by (simp add: parser_feed_def [abs_def] parser_flush_def) (simp add: sample_lines_def of_path_def)

text \<open>
  C17. The multiline parser cuts a file's lines exactly before each line that matches the start
  pattern, and lines before the first such line are records of their own, however the lines of
  several files are interleaved and in whatever order \<open>Flush\<close> visits the files.
\<close>

theorem multiline_cuts_at_start_lines:
  assumes "feed_all (ml_feed start) parser_init ls = (s1, es)"
    and "visits_all order s1" "ml_flush order s1 = (s2, es')"
  shows "events_of_path p (es @ es') = map event_of (chunks_from start [] (of_path p ls))"
  using ml_feed_all_chunks [OF ml_rep_init assms] by simp

theorem multiline_cuts_at_start_lines_witness:
  "events_of_path ''/a''
     ([\<lparr>ev_path = ''/b'', ev_data = ''x'', ev_offset = 2, ev_inode = 2\<rparr>] @
      [\<lparr>ev_path = ''/a'', ev_data = ''S1'' @ [NL] @ ''t'', ev_offset = 5, ev_inode = 1\<rparr>])
   = map event_of (chunks_from starts_S [] (of_path ''/a'' sample_lines))"
  using multiline_cuts_at_start_lines [OF sample_feed] .

end
