(* ===== verification/RecordFilter.thy ===== *)
theory RecordFilter
  imports Config Json
begin

text \<open>
  The filter (\<open>internal/filter\<close>) and its validation (\<open>internal/config/filters.go\<close>): rules over the
  fields of a record, combined by all/any, nested at will.  \<open>strings.EqualFold\<close> is an argument
  \<open>eqf\<close> (it rests on Unicode tables), and so are registered filter types: a factory gives a
  predicate on records.  The main fact is that a validated configuration always builds and then
  decides as the rules read.
\<close>

section \<open>Predicates\<close>

datatype predicate =
    PassAll
  | FieldP string string string "string list" bool string
      \<comment> \<open>field, op, value, values, ignore case, on missing\<close>
  | CompoundP bool "predicate list"
  | CustomP "go_record \<Rightarrow> bool"

definition stringify :: "gval \<Rightarrow> string" where
  "stringify v = (case v of
      VStr s \<Rightarrow> s
    | VBool b \<Rightarrow> (if b then ''true'' else ''false'')
    | VInt i \<Rightarrow> show_int i
    | VOther j t \<Rightarrow> t)"

definition compare_equal :: "(string \<Rightarrow> string \<Rightarrow> bool) \<Rightarrow> string \<Rightarrow> string \<Rightarrow> bool \<Rightarrow> bool" where
  "compare_equal eqf actual expected ignore_case =
     (if ignore_case then eqf actual expected else actual = expected)"

fun compare_in :: "(string \<Rightarrow> string \<Rightarrow> bool) \<Rightarrow> string \<Rightarrow> string list \<Rightarrow> bool \<Rightarrow> bool" where
  "compare_in eqf actual [] ic = False"
| "compare_in eqf actual (c # cs) ic = (if compare_equal eqf actual c ic then True else compare_in eqf actual cs ic)"

definition field_match ::
  "(string \<Rightarrow> string \<Rightarrow> bool) \<Rightarrow> string \<Rightarrow> string \<Rightarrow> string \<Rightarrow> string list \<Rightarrow> bool \<Rightarrow> string \<Rightarrow> go_record \<Rightarrow> bool" where
  "field_match eqf field op value values ic on_missing r =
     (case gm_get r field of
        None \<Rightarrow> on_missing = ''pass''
      | Some actual \<Rightarrow>
          (let s = stringify actual in
           if op = ''eq'' then compare_equal eqf s value ic
           else if op = ''neq'' then \<not> compare_equal eqf s value ic
           else if op = ''in'' then compare_in eqf s values ic
           else if op = ''not_in'' then \<not> compare_in eqf s values ic
           else False))"

fun predicate_match :: "(string \<Rightarrow> string \<Rightarrow> bool) \<Rightarrow> predicate \<Rightarrow> go_record \<Rightarrow> bool"
  and all_match :: "(string \<Rightarrow> string \<Rightarrow> bool) \<Rightarrow> predicate list \<Rightarrow> go_record \<Rightarrow> bool"
  and any_match :: "(string \<Rightarrow> string \<Rightarrow> bool) \<Rightarrow> predicate list \<Rightarrow> go_record \<Rightarrow> bool" where
  "predicate_match eqf PassAll r = True"
| "predicate_match eqf (FieldP f op v vs ic om) r = field_match eqf f op v vs ic om r"
| "predicate_match eqf (CompoundP match_all rules) r =
     (if length rules = 0 then True
      else if match_all then all_match eqf rules r else any_match eqf rules r)"
| "predicate_match eqf (CustomP p) r = p r"
| "all_match eqf [] r = True"
| "all_match eqf (p # ps) r = (if \<not> predicate_match eqf p r then False else all_match eqf ps r)"
| "any_match eqf [] r = False"
| "any_match eqf (p # ps) r = (if predicate_match eqf p r then True else any_match eqf ps r)"

section \<open>Construction\<close>

type_synonym filter_factory = "filter_rule_config \<Rightarrow> predicate result"

definition new_field_predicate :: "filter_rule_config \<Rightarrow> string \<Rightarrow> predicate result" where
  "new_field_predicate cfg on_missing_default =
     (let om1 = (if rule_on_missing cfg = [] then on_missing_default else rule_on_missing cfg);
          om = (if om1 = [] then ''drop'' else om1) in
      if om \<noteq> ''drop'' \<and> om \<noteq> ''pass'' then failing ''field filter on_missing must be drop or pass''
      else Inr (FieldP (rule_field cfg) (rule_op cfg) (rule_value cfg) (rule_values cfg)
                 (rule_ignore_case cfg) om))"

definition parse_match_mode :: "string \<Rightarrow> bool result" where
  "parse_match_mode m =
     (if m = ''all'' \<or> m = [] then Inr True
      else if m = ''any'' then Inr False
      else failing ''filter match must be all or any'')"

text \<open>\<open>newCompound\<close> is unfolded into the two callers; the loop over the rules carries the index.\<close>

fun new_rule :: "(string \<rightharpoonup> filter_factory) \<Rightarrow> string list \<Rightarrow> filter_rule_config \<Rightarrow> string \<Rightarrow> predicate result"
  and new_rules :: "(string \<rightharpoonup> filter_factory) \<Rightarrow> string list \<Rightarrow> nat \<Rightarrow> filter_rule_config list \<Rightarrow> string \<Rightarrow> predicate list result" where
  "new_rule reg names (FilterRule ty field op val vals ic om mat rules) dflt =
     (if ty = ''field'' then new_field_predicate (FilterRule ty field op val vals ic om mat rules) dflt
      else if ty = ''compound'' then
        (if length rules = 0 then Inr PassAll
         else bind_res (parse_match_mode (if mat = [] then ''all'' else mat)) (\<lambda>match_all.
              bind_res (new_rules reg names 0 rules dflt) (\<lambda>ps. Inr (CompoundP match_all ps))))
      else
        (case reg ty of
           None \<Rightarrow> failing (''unknown filter type '' @ quoted ty @ registered names)
         | Some factory \<Rightarrow> factory (FilterRule ty field op val vals ic om mat rules)))"
| "new_rules reg names i [] dflt = Inr []"
| "new_rules reg names i (r # rs) dflt =
     (case new_rule reg names r dflt of
        Inl e \<Rightarrow> Inl (ErrWrap (''filter rule['' @ show_nat i @ '']: '') e)
      | Inr p \<Rightarrow> bind_res (new_rules reg names (i + 1) rs dflt) (\<lambda>ps. Inr (p # ps)))"

definition new_compound ::
  "(string \<rightharpoonup> filter_factory) \<Rightarrow> string list \<Rightarrow> string \<Rightarrow> string \<Rightarrow> filter_rule_config list \<Rightarrow> predicate result" where
  "new_compound reg names mat dflt rules =
     (if length rules = 0 then Inr PassAll
      else bind_res (parse_match_mode (if mat = [] then ''all'' else mat)) (\<lambda>match_all.
           bind_res (new_rules reg names 0 rules dflt) (\<lambda>ps. Inr (CompoundP match_all ps))))"

definition new_filter :: "(string \<rightharpoonup> filter_factory) \<Rightarrow> string list \<Rightarrow> filter_config \<Rightarrow> predicate result" where
  "new_filter reg names cfg =
     (if \<not> filter_enabled cfg then Inr PassAll
      else new_compound reg names (filter_match cfg)
             (if filter_on_missing cfg = [] then ''drop'' else filter_on_missing cfg) (filter_rules cfg))"

section \<open>Validation\<close>

definition validate_on_missing :: "string \<Rightarrow> string \<Rightarrow> check" where
  "validate_on_missing prefix v =
     (if v = [] then ok
      else if v = ''drop'' \<or> v = ''pass'' then ok
      else failing (prefix @ ''.on_missing must be drop or pass''))"

text \<open>\<open>types\<close> are the names registered with the configuration package, \<open>filterTypes\<close>.\<close>

fun validate_filter_rule :: "type_names \<Rightarrow> string \<Rightarrow> string \<Rightarrow> filter_rule_config \<Rightarrow> check"
  and validate_rules :: "type_names \<Rightarrow> string \<Rightarrow> nat \<Rightarrow> string \<Rightarrow> filter_rule_config list \<Rightarrow> check" where
  "validate_filter_rule types prefix dflt (FilterRule ty field op val vals ic om mat rules) =
     (if ty = [] then failing (prefix @ ''.type must not be empty'')
      else if \<not> known_type types ty then Inl (unknown_type_error (prefix @ ''.type'') ty types)
      else if ty = ''field'' then
        (if field = [] then failing (prefix @ ''.field is required when type is field'')
         else if op = [] then failing (prefix @ ''.op is required when type is field'')
         else bind_res (validate_on_missing prefix om) (\<lambda>_.
           if op = ''eq'' \<or> op = ''neq'' then
             (if val = [] then failing (prefix @ ''.value is required when op is '' @ op) else ok)
           else if op = ''in'' \<or> op = ''not_in'' then
             (if length vals = 0 then failing (prefix @ ''.values is required when op is '' @ op) else ok)
           else failing (prefix @ ''.op must be eq, neq, in, or not_in'')))
      else if ty = ''compound'' then
        (if length rules = 0 then failing (prefix @ ''.rules must not be empty when filter is configured'')
         else
           (let m = (if mat = [] then ''all'' else mat) in
            if m \<noteq> ''all'' \<and> m \<noteq> ''any'' then failing (prefix @ ''.match must be all or any'')
            else validate_rules types prefix 0 dflt rules))
      else ok)"
| "validate_rules types prefix i dflt [] = ok"
| "validate_rules types prefix i dflt (r # rs) =
     bind_res (validate_filter_rule types (prefix @ ''.rules['' @ show_nat i @ '']'') dflt r)
       (\<lambda>_. validate_rules types prefix (i + 1) dflt rs)"

definition validate_filter_rules ::
  "type_names \<Rightarrow> string \<Rightarrow> string \<Rightarrow> string \<Rightarrow> filter_rule_config list \<Rightarrow> check" where
  "validate_filter_rules types prefix mat dflt rules =
     (if length rules = 0 then failing (prefix @ ''.rules must not be empty when filter is configured'')
      else
        (let m = (if mat = [] then ''all'' else mat) in
         if m \<noteq> ''all'' \<and> m \<noteq> ''any'' then failing (prefix @ ''.match must be all or any'')
         else validate_rules types prefix 0 dflt rules))"

definition validate_filter :: "type_names \<Rightarrow> filter_config \<Rightarrow> check" where
  "validate_filter types cfg =
     (if \<not> filter_enabled cfg then ok
      else bind_res (validate_on_missing ''filter'' (filter_on_missing cfg)) (\<lambda>_.
        validate_filter_rules types ''filter'' (filter_match cfg)
          (if filter_on_missing cfg = [] then ''drop'' else filter_on_missing cfg) (filter_rules cfg)))"

section \<open>What the rules mean\<close>

text \<open>The reading of a configuration, without building anything.\<close>

definition text_sem :: "(string \<Rightarrow> string \<Rightarrow> bool) \<Rightarrow> bool \<Rightarrow> string \<Rightarrow> string \<Rightarrow> bool" where
  "text_sem eqf ic a b = (if ic then eqf a b else a = b)"

definition op_sem :: "(string \<Rightarrow> string \<Rightarrow> bool) \<Rightarrow> filter_rule_config \<Rightarrow> string \<Rightarrow> bool" where
  "op_sem eqf c s \<longleftrightarrow>
     (rule_op c = ''eq'' \<and> text_sem eqf (rule_ignore_case c) s (rule_value c)) \<or>
     (rule_op c = ''neq'' \<and> \<not> text_sem eqf (rule_ignore_case c) s (rule_value c)) \<or>
     (rule_op c = ''in'' \<and> list_ex (text_sem eqf (rule_ignore_case c) s) (rule_values c)) \<or>
     (rule_op c = ''not_in'' \<and> \<not> list_ex (text_sem eqf (rule_ignore_case c) s) (rule_values c))"

fun rule_sem :: "(string \<Rightarrow> string \<Rightarrow> bool) \<Rightarrow> (filter_rule_config \<Rightarrow> go_record \<Rightarrow> bool) \<Rightarrow> string \<Rightarrow> go_record \<Rightarrow> filter_rule_config \<Rightarrow> bool" where
  "rule_sem eqf custom dflt r (FilterRule ty field op val vals ic om mat rules) =
     (if ty = ''field'' then
        (case gm_get r field of
           None \<Rightarrow> (if om = [] then dflt else om) = ''pass''
         | Some v \<Rightarrow> op_sem eqf (FilterRule ty field op val vals ic om mat rules) (stringify v))
      else if ty = ''compound'' then
        (if mat = ''any'' then list_ex (rule_sem eqf custom dflt r) rules
         else list_all (rule_sem eqf custom dflt r) rules)
      else custom (FilterRule ty field op val vals ic om mat rules) r)"

definition filter_sem :: "(string \<Rightarrow> string \<Rightarrow> bool) \<Rightarrow> (filter_rule_config \<Rightarrow> go_record \<Rightarrow> bool) \<Rightarrow> filter_config \<Rightarrow> go_record \<Rightarrow> bool" where
  "filter_sem eqf custom cfg r \<longleftrightarrow> filter_rules cfg = [] \<or>
     (let dflt = (if filter_on_missing cfg = [] then ''drop'' else filter_on_missing cfg) in
      if filter_match cfg = ''any'' then list_ex (rule_sem eqf custom dflt r) (filter_rules cfg)
      else list_all (rule_sem eqf custom dflt r) (filter_rules cfg))"

text \<open>A registry all of whose factories build the predicate \<open>custom\<close> says.\<close>

definition registry_builds :: "(string \<Rightarrow> bool) \<Rightarrow> (string \<rightharpoonup> filter_factory) \<Rightarrow> (filter_rule_config \<Rightarrow> go_record \<Rightarrow> bool) \<Rightarrow> bool" where
  "registry_builds known reg custom \<longleftrightarrow> (\<forall>cfg. known (rule_type cfg) \<and> rule_type cfg \<notin> {''field'', ''compound''} \<longrightarrow>
     (\<exists>factory. reg (rule_type cfg) = Some factory \<and> factory cfg = Inr (CustomP (custom cfg))))"

lemma all_match_iff: "all_match eqf ps r \<longleftrightarrow> list_all (\<lambda>p. predicate_match eqf p r) ps"
  by (induction ps) simp_all

lemma any_match_iff: "any_match eqf ps r \<longleftrightarrow> list_ex (\<lambda>p. predicate_match eqf p r) ps"
  by (induction ps) simp_all

lemma compare_in_iff: "compare_in eqf s vs ic \<longleftrightarrow> list_ex (text_sem eqf ic s) vs"
  by (induction vs) (simp_all add: compare_equal_def text_sem_def)

lemma field_match_sem:
  "field_match eqf (rule_field c) (rule_op c) (rule_value c) (rule_values c) (rule_ignore_case c) om r \<longleftrightarrow>
     (case gm_get r (rule_field c) of None \<Rightarrow> om = ''pass'' | Some v \<Rightarrow> op_sem eqf c (stringify v))"
  by (auto simp: field_match_def op_sem_def compare_in_iff compare_equal_def text_sem_def Let_def
      split: option.splits)

text \<open>A rule builds, and means what it reads.\<close>

definition builds :: "(string \<Rightarrow> string \<Rightarrow> bool) \<Rightarrow> (string \<rightharpoonup> filter_factory) \<Rightarrow> string list \<Rightarrow> (filter_rule_config \<Rightarrow> go_record \<Rightarrow> bool) \<Rightarrow> string \<Rightarrow> filter_rule_config \<Rightarrow> bool" where
  "builds eqf reg names custom dflt c \<longleftrightarrow>
     (\<exists>p. new_rule reg names c dflt = Inr p \<and> (\<forall>r. predicate_match eqf p r \<longleftrightarrow> rule_sem eqf custom dflt r c))"

lemma rules_build:
  assumes "list_all (builds eqf reg names custom dflt) cs"
  shows "\<exists>ps. new_rules reg names i cs dflt = Inr ps \<and> length ps = length cs \<and>
    (\<forall>r. (all_match eqf ps r \<longleftrightarrow> list_all (rule_sem eqf custom dflt r) cs)
       \<and> (any_match eqf ps r \<longleftrightarrow> list_ex (rule_sem eqf custom dflt r) cs))"
  using assms
proof (induction cs arbitrary: i)
  case Nil
  then show ?case by simp
next
  case (Cons c cs)
  obtain p where p: "new_rule reg names c dflt = Inr p" "\<forall>r. predicate_match eqf p r \<longleftrightarrow> rule_sem eqf custom dflt r c"
    using Cons.prems by (auto simp: builds_def)
  have "list_all (builds eqf reg names custom dflt) cs" using Cons.prems by simp
  from Cons.IH [OF this, of "i + 1"] obtain ps where ps: "new_rules reg names (i + 1) cs dflt = Inr ps"
      "length ps = length cs"
      "\<forall>r. (all_match eqf ps r \<longleftrightarrow> list_all (rule_sem eqf custom dflt r) cs)
         \<and> (any_match eqf ps r \<longleftrightarrow> list_ex (rule_sem eqf custom dflt r) cs)"
    by (elim exE conjE)
  show ?case
    using p ps by (intro exI [of _ "p # ps"]) simp
qed

lemma compound_builds:
  assumes "list_all (builds eqf reg names custom dflt) rules" "rules \<noteq> []" "mat = [] \<or> mat = ''all'' \<or> mat = ''any''"
  shows "\<exists>p. new_compound reg names mat dflt rules = Inr p \<and>
    (\<forall>r. predicate_match eqf p r \<longleftrightarrow>
       (if mat = ''any'' then list_ex (rule_sem eqf custom dflt r) rules else list_all (rule_sem eqf custom dflt r) rules))"
proof -
  obtain ps where ps: "new_rules reg names 0 rules dflt = Inr ps" "length ps = length rules"
      "\<forall>r. (all_match eqf ps r \<longleftrightarrow> list_all (rule_sem eqf custom dflt r) rules)
         \<and> (any_match eqf ps r \<longleftrightarrow> list_ex (rule_sem eqf custom dflt r) rules)"
    using rules_build [OF assms(1), of 0] by (elim exE conjE)
  then show ?thesis
    using assms(2,3)
    by (intro exI [of _ "CompoundP (mat \<noteq> ''any'') ps"]) (auto simp: new_compound_def parse_match_mode_def)
qed

lemma new_rule_compound:
  "new_rule reg names (FilterRule ''compound'' field op val vals ic om mat rules) dflt = new_compound reg names mat dflt rules"
  by (simp add: new_compound_def)

lemma validate_rules_all:
  "validate_rules types prefix i dflt cs = ok \<Longrightarrow> \<forall>c \<in> set cs. \<exists>pre. validate_filter_rule types pre dflt c = ok"
  by (induction cs arbitrary: i) (auto simp: bind_res_eq_Inr)

lemma validated_rule_builds:
  assumes reg: "registry_builds (known_type types) reg custom" and dflt: "dflt = ''drop'' \<or> dflt = ''pass''"
  shows "validate_filter_rule types prefix dflt c = ok \<Longrightarrow> builds eqf reg names custom dflt c"
proof (induction c arbitrary: prefix)
  case (FilterRule ty field op val vals ic om mat rules)
  note v = FilterRule.prems
  consider (field) "ty = ''field''" | (compound) "ty = ''compound''" | (custom) "ty \<notin> {''field'', ''compound''}"
    by blast
  then show ?case
  proof cases
    case field
    let ?c = "FilterRule ty field op val vals ic om mat rules"
    have om: "om = [] \<or> om = ''drop'' \<or> om = ''pass''"
      using v field by (auto simp: bind_res_eq_Inr validate_on_missing_def split: if_splits)
    have "new_rule reg names ?c dflt = Inr (FieldP field op val vals ic (if om = [] then dflt else om))"
      using om dflt field by (auto simp: new_field_predicate_def Let_def)
    then show ?thesis
      using field_match_sem [of eqf ?c] field by (auto simp: builds_def split: option.splits)
  next
    case compound
    have ne: "rules \<noteq> []" and m: "mat = [] \<or> mat = ''all'' \<or> mat = ''any''"
      and vr: "validate_rules types prefix 0 dflt rules = ok"
      using v compound by (auto simp: Let_def split: if_splits)
    have "list_all (builds eqf reg names custom dflt) rules"
      using validate_rules_all [OF vr] FilterRule.IH by (auto simp: list_all_iff)
    from compound_builds [OF this ne m] show ?thesis
      by (auto simp: builds_def compound new_rule_compound simp del: new_rule.simps)
  next
    case custom
    have "known_type types ty" using v by (auto split: if_splits)
    then obtain factory where "reg ty = Some factory"
        "factory (FilterRule ty field op val vals ic om mat rules) =
           Inr (CustomP (custom (FilterRule ty field op val vals ic om mat rules)))"
      using reg custom unfolding registry_builds_def
      by (metis filter_rule_config.sel(1))
    then show ?thesis using custom by (simp add: builds_def)
  qed
qed

section \<open>Properties\<close>

lemma validated_filter_builds:
  assumes "validate_filter types cfg = ok" "registry_builds (known_type types) reg custom"
  shows "\<exists>p. new_filter reg names cfg = Inr p \<and> (\<forall>r. predicate_match eqf p r \<longleftrightarrow> filter_sem eqf custom cfg r)"
proof (cases "filter_enabled cfg")
  case False
  then show ?thesis
    by (intro exI [of _ PassAll]) (auto simp: new_filter_def filter_enabled_def filter_sem_def)
next
  case True
  define dflt where "dflt = (if filter_on_missing cfg = [] then ''drop'' else filter_on_missing cfg)"
  have d: "dflt = ''drop'' \<or> dflt = ''pass''"
    and v: "validate_filter_rules types ''filter'' (filter_match cfg) dflt (filter_rules cfg) = ok"
    using assms(1) True
    by (auto simp: validate_filter_def validate_on_missing_def dflt_def bind_res_eq_Inr split: if_splits)
  have ne: "filter_rules cfg \<noteq> []" and m: "filter_match cfg = [] \<or> filter_match cfg = ''all'' \<or> filter_match cfg = ''any''"
    and vr: "validate_rules types ''filter'' 0 dflt (filter_rules cfg) = ok"
    using v by (auto simp: validate_filter_rules_def Let_def split: if_splits)
  have "list_all (builds eqf reg names custom dflt) (filter_rules cfg)"
    using validate_rules_all [OF vr] validated_rule_builds [OF assms(2) d] by (auto simp: list_all_iff)
  from compound_builds [OF this ne m] show ?thesis
    using True ne by (simp add: new_filter_def filter_sem_def Let_def dflt_def [symmetric])
qed

text \<open>
  C36. A validated filter always builds, and the predicate decides as the configuration reads: the
  rules combined by all or any, at every depth, a missing field decided by \<open>on_missing\<close> of the rule
  or else of the filter, and no rules at all passing every record.
\<close>

theorem validated_filter_means_its_rules:
  assumes "validate_filter types cfg = ok" "registry_builds (known_type types) reg custom"
  shows "\<exists>p. new_filter reg names cfg = Inr p \<and> (\<forall>r. predicate_match eqf p r \<longleftrightarrow> filter_sem eqf custom cfg r)"
  by (rule validated_filter_builds [OF assms])

definition sample_filter :: filter_config where
  "sample_filter = \<lparr>filter_match = ''any'', filter_on_missing = [], filter_rules =
     [FilterRule ''field'' ''level'' ''eq'' ''ERROR'' [] False [] [] [],
      FilterRule ''compound'' [] [] [] [] False [] ''all''
        [FilterRule ''field'' ''app'' ''in'' [] [''a'', ''b''] False ''pass'' [] []]]\<rparr>"

definition sample_types :: type_names where
  "sample_types = register_type ''field'' (register_type ''compound'' gm_empty)"

lemma known_sample_types [simp]: "known_type sample_types t \<longleftrightarrow> t \<in> {''field'', ''compound''}"
  by (auto simp: sample_types_def register_type_def known_type_def gm_get_put)

theorem validated_filter_means_its_rules_witness:
  "\<exists>p. new_filter (\<lambda>t. None) [] sample_filter = Inr p \<and>
     (\<forall>r. predicate_match (=) p r \<longleftrightarrow> filter_sem (=) (\<lambda>c r. True) sample_filter r)"
proof (rule validated_filter_means_its_rules)
  show "validate_filter sample_types sample_filter = ok"
    by (simp add: sample_filter_def validate_filter_def filter_enabled_def validate_on_missing_def
        validate_filter_rules_def Let_def)
  show "registry_builds (known_type sample_types) (\<lambda>t. None) (\<lambda>c r. True)"
    by (auto simp: registry_builds_def)
qed

end
