(* ===== verification/Enrich.thy ===== *)
theory Enrich
  imports Config Json
begin

text \<open>
  The enrichers (\<open>internal/enrich\<close>) and the timestamp normalizer (\<open>internal/timestamp\<close>): stages
  that store fields in a record.  The host name, the clock and the functions of package \<open>time\<close>
  that parse and print are arguments; the order in which Go ranges over the static fields is an
  argument too, and the result does not depend on it.
\<close>

section \<open>Enrichers\<close>

datatype enricher =
    StaticE "string gomap"
  | HostE string
  | CustomE "go_record \<Rightarrow> go_record"

text \<open>\<open>staticEnricher.Enrich\<close>, ranging over the fields in the given order.\<close>

definition static_enrich :: "(string \<times> string) list \<Rightarrow> go_record \<Rightarrow> go_record" where
  "static_enrich flds r = foldl (\<lambda>m e. gm_put m (fst e) (VStr (snd e))) r flds"

definition enrich_one :: "enricher \<Rightarrow> go_record \<Rightarrow> go_record" where
  "enrich_one e r = (case e of
      StaticE flds \<Rightarrow> static_enrich flds r
    | HostE h \<Rightarrow> gm_put r ''hostname'' (VStr h)
    | CustomE f \<Rightarrow> f r)"

definition apply_chain :: "enricher list \<Rightarrow> go_record \<Rightarrow> go_record" where
  "apply_chain chain r = foldl (\<lambda>m e. enrich_one e m) r chain"

type_synonym enricher_factory = "enricher_config \<Rightarrow> enricher result"

text \<open>The factories; \<open>os.Hostname\<close> is asked at construction.\<close>

definition new_static_enricher :: enricher_factory where
  "new_static_enricher cfg = Inr (StaticE (enricher_fields cfg))"

definition new_host_enricher :: "string result \<Rightarrow> enricher_factory" where
  "new_host_enricher hostname cfg = Inr (HostE (case hostname of Inl e \<Rightarrow> ''unknown'' | Inr h \<Rightarrow> h))"

definition enricher_registry :: "string result \<Rightarrow> (string \<rightharpoonup> enricher_factory) \<Rightarrow> string \<rightharpoonup> enricher_factory" where
  "enricher_registry hostname custom =
     [''static'' \<mapsto> new_static_enricher, ''host'' \<mapsto> new_host_enricher hostname] ++ custom"

fun new_chain :: "(string \<rightharpoonup> enricher_factory) \<Rightarrow> enricher_config list \<Rightarrow> enricher list result" where
  "new_chain reg [] = Inr []"
| "new_chain reg (cfg # cfgs) =
     (case reg (enricher_type cfg) of
        None \<Rightarrow> failing (''unknown enricher type '' @ quoted (enricher_type cfg))
      | Some factory \<Rightarrow>
          (case factory cfg of
             Inl e \<Rightarrow> Inl (ErrWrap (''enricher '' @ quoted (enricher_type cfg) @ '': '') e)
           | Inr e \<Rightarrow> bind_res (new_chain reg cfgs) (\<lambda>es. Inr (e # es))))"

section \<open>Timestamps\<close>

text \<open>
  What the normalizer uses of package \<open>time\<close>: locations, instants, parsing with the zone in the
  text or in a given location, and the RFC3339Nano text of an instant in UTC.
\<close>

record ('l, 't) time_pkg =
  tp_load :: "string \<Rightarrow> 'l result"
  tp_parse :: "string \<Rightarrow> string \<Rightarrow> 't result"
  tp_parse_in :: "string \<Rightarrow> string \<Rightarrow> 'l \<Rightarrow> 't result"
  tp_utc_text :: "'t \<Rightarrow> string"

record 'l normalizer =
  n_field :: string
  n_layouts :: "string list"
  n_location :: 'l

definition rfc3339nano :: string where "rfc3339nano = ''2006-01-02T15:04:05.999999999Z07:00''"
definition rfc3339 :: string where "rfc3339 = ''2006-01-02T15:04:05Z07:00''"

definition builtin_layouts :: "string list" where
  "builtin_layouts = [rfc3339nano, rfc3339, ''2006-01-02 15:04:05.000'', ''2006-01-02 15:04:05'']"

definition new_normalizer :: "('l, 't) time_pkg \<Rightarrow> timestamp_config \<Rightarrow> 'l normalizer option result" where
  "new_normalizer tp cfg =
     (if \<not> timestamp_enabled cfg then Inr None
      else
        (case tp_load tp (default_timezone_or_default cfg) of
           Inl e \<Rightarrow> Inl e
         | Inr loc \<Rightarrow> Inr (Some \<lparr>n_field = field_or_default cfg,
             n_layouts = (if ts_format cfg \<noteq> [] then [ts_format cfg] else builtin_layouts),
             n_location = loc\<rparr>)))"

definition layout_has_zone :: "string \<Rightarrow> bool" where
  "layout_has_zone layout \<longleftrightarrow> contains layout ''Z07:00'' \<or> contains layout ''MST''"

definition parse_with_layout :: "('l, 't) time_pkg \<Rightarrow> string \<Rightarrow> string \<Rightarrow> 'l \<Rightarrow> 't option" where
  "parse_with_layout tp v layout loc =
     (case (if layout_has_zone layout then tp_parse tp layout v else tp_parse_in tp layout v loc) of
        Inl e \<Rightarrow> None | Inr t \<Rightarrow> Some t)"

fun parse_timestamp :: "('l, 't) time_pkg \<Rightarrow> string \<Rightarrow> string list \<Rightarrow> 'l \<Rightarrow> 't option" where
  "parse_timestamp tp v [] loc = None"
| "parse_timestamp tp v (l # ls) loc =
     (case parse_with_layout tp v l loc of Some t \<Rightarrow> Some t | None \<Rightarrow> parse_timestamp tp v ls loc)"

definition string_value :: "gval \<Rightarrow> string" where
  "string_value v = (case as_string v of Some s \<Rightarrow> s | None \<Rightarrow> [])"

text \<open>\<open>now\<close> is the processing time, already printed.\<close>

definition apply_fallback :: "'l normalizer \<Rightarrow> string \<Rightarrow> go_record \<Rightarrow> string \<Rightarrow> go_record \<times> bool" where
  "apply_fallback n now r original =
     (let r1 = gm_put r (n_field n) (VStr now);
          r2 = (if original \<noteq> [] then gm_put r1 ''timestamp_raw'' (VStr original) else r1)
      in (gm_put r2 ''timestamp_source'' (VStr ''processing''), True))"

definition normalize :: "('l, 't) time_pkg \<Rightarrow> string \<Rightarrow> 'l normalizer option \<Rightarrow> go_record \<Rightarrow> go_record \<times> bool" where
  "normalize tp now n0 r =
     (case n0 of
        None \<Rightarrow> (r, False)
      | Some n \<Rightarrow>
          (case gm_get r (n_field n) of
             None \<Rightarrow> apply_fallback n now r []
           | Some raw \<Rightarrow>
               (case as_string raw of
                  None \<Rightarrow> apply_fallback n now r (string_value raw)
                | Some v \<Rightarrow>
                    if v = [] then apply_fallback n now r (string_value raw)
                    else
                      (case parse_timestamp tp v (n_layouts n) (n_location n) of
                         None \<Rightarrow> apply_fallback n now r v
                       | Some t \<Rightarrow> (gm_put r (n_field n) (VStr (tp_utc_text tp t)), False)))))"

section \<open>Properties\<close>

lemma static_enrich_get:
  assumes "distinct (map fst flds)"
  shows "gm_get (static_enrich flds r) k =
    (case map_of flds k of Some v \<Rightarrow> Some (VStr v) | None \<Rightarrow> gm_get r k)"
proof -
  have "map_of (map (\<lambda>e. (fst e, VStr (snd e))) (rev flds)) k = map_option VStr (map_of (rev flds) k)"
    by (induction flds rule: rev_induct) auto
  moreover have "map_of (rev flds) = map_of flds"
    using assms by (intro map_of_eqI) (auto simp: rev_map [symmetric] distinct_rev map_of_eq_Some_iff)
  ultimately show ?thesis
    using gm.get_put_loop [of fst "\<lambda>e. VStr (snd e)" r flds k]
    by (simp add: static_enrich_def rev_map split: option.splits)
qed

lemma static_enrich_ok: "gm_ok r \<Longrightarrow> gm_ok (static_enrich flds r)"
  by (induction flds arbitrary: r) (simp_all add: static_enrich_def gm_ok_put)

text \<open>
  The order in which Go ranges over the static fields cannot be seen: any order of the fields
  gives the same record, which has every configured field and keeps all others.
\<close>

theorem static_fields_order_irrelevant:
  assumes "distinct (map fst flds)" "set order = set flds" "distinct (map fst order)" "gm_ok r"
  shows "static_enrich order r = enrich_one (StaticE flds) r \<and>
    (\<forall>k. gm_get (static_enrich order r) k =
      (case map_of flds k of Some v \<Rightarrow> Some (VStr v) | None \<Rightarrow> gm_get r k))"
proof -
  have "map_of order = map_of flds"
    using assms by (intro map_of_inject_set [THEN iffD2]) auto
  then have get: "gm_get (static_enrich order r) k = gm_get (static_enrich flds r) k" for k
    using static_enrich_get [OF assms(1)] static_enrich_get [OF assms(3)] by simp
  then have "static_enrich order r = static_enrich flds r"
    using assms(4) by (intro gm_ext static_enrich_ok)
  then show ?thesis
    using static_enrich_get [OF assms(1)] by (simp add: enrich_one_def)
qed

theorem static_fields_order_irrelevant_witness:
  "static_enrich [(''b'', ''2''), (''a'', ''1'')] gm_empty = enrich_one (StaticE [(''a'', ''1''), (''b'', ''2'')]) gm_empty"
  using static_fields_order_irrelevant [of "[(''a'', ''1''), (''b'', ''2'')]" "[(''b'', ''2''), (''a'', ''1'')]" gm_empty]
  by (simp add: insert_commute)

text \<open>
  Normalizing the timestamp touches the configured field, and on failure the two marker fields,
  and nothing else; the field always ends up a string: the parsed instant, or the processing time
  with the original text kept when it was a non-empty string.
\<close>

theorem normalize_keeps_the_rest:
  assumes "n_field n \<notin> {''timestamp_raw'', ''timestamp_source''}"
    and "normalize tp now (Some n) r = (r', failed)"
  shows "(\<exists>s. gm_get r' (n_field n) = Some (VStr s) \<and> (failed \<longrightarrow> s = now))
    \<and> (\<forall>k. k \<noteq> n_field n \<and> (failed \<longrightarrow> k \<notin> {''timestamp_raw'', ''timestamp_source''}) \<longrightarrow> gm_get r' k = gm_get r k)
    \<and> (failed \<longrightarrow> gm_get r' ''timestamp_source'' = Some (VStr ''processing''))
    \<and> (failed \<longrightarrow> (case gm_get r (n_field n) of
         Some (VStr s) \<Rightarrow> s \<noteq> [] \<longrightarrow> gm_get r' ''timestamp_raw'' = Some (VStr s)
       | _ \<Rightarrow> gm_get r' ''timestamp_raw'' = gm_get r ''timestamp_raw''))"
  using assms
  by (auto simp: normalize_def apply_fallback_def string_value_def gm.get_put Let_def as_string_def
      split: option.splits gval.splits if_splits)

definition sample_time :: "(unit, nat) time_pkg" where
  "sample_time = \<lparr>tp_load = (\<lambda>z. Inr ()), tp_parse = (\<lambda>l v. failing ''bad''),
     tp_parse_in = (\<lambda>l v z. failing ''bad''), tp_utc_text = (\<lambda>t. show_nat t)\<rparr>"

lemma sample_time_parse: "parse_timestamp sample_time v ls loc = None"
  by (induction ls) (simp_all add: parse_with_layout_def sample_time_def)

theorem normalize_keeps_the_rest_witness:
  "\<exists>r'. normalize sample_time ''now'' (Some \<lparr>n_field = ''ts'', n_layouts = [''x''], n_location = ()\<rparr>)
       [(''ts'', VStr ''yesterday'')] = (r', True) \<and>
     gm_get r' ''ts'' = Some (VStr ''now'') \<and> gm_get r' ''timestamp_raw'' = Some (VStr ''yesterday'')"
proof -
  let ?n = "\<lparr>n_field = ''ts'', n_layouts = [''x''], n_location = ()\<rparr>"
  obtain r' failed where 1: "normalize sample_time ''now'' (Some ?n) [(''ts'', VStr ''yesterday'')] = (r', failed)"
    by force
  have "failed"
    using 1 sample_time_parse [of "''yesterday''" "[''x'']" "()"]
    by (auto simp: normalize_def gm_get_def apply_fallback_def Let_def simp del: parse_timestamp.simps)
  with normalize_keeps_the_rest [OF _ 1] 1 show ?thesis
    by (auto simp: gm_get_def)
qed

end
