(* ===== verification/Transform.thy ===== *)
theory Transform
  imports Config Json
begin

text \<open>
  The transformers (\<open>internal/transform\<close>): a line of text becomes a record.  The delimiter
  transformer trims, splits and names the parts; the regex transformer stores the named groups of
  a match.  The regular expression engine is an argument: compiling gives the group names and the
  matcher (\<open>SubexpNames\<close>, \<open>FindStringSubmatch\<close>).  \<open>trim_space\<close> is \<open>bytes.TrimSpace\<close>, on the
  UTF-8 segments of the line.
\<close>

section \<open>Trimming\<close>

definition space_seg :: "rune \<times> bytes \<Rightarrow> bool" where
  "space_seg seg \<longleftrightarrow> is_space_rune (fst seg)"

definition trim_space :: "bytes \<Rightarrow> bytes" where
  "trim_space s = concat (map snd (rev (dropWhile space_seg (rev (dropWhile space_seg (decode_segs s))))))"

section \<open>The delimiter transformer\<close>

record delimiter_transformer =
  dt_delimiter :: string
  dt_columns :: "string list"

definition new_delimiter_transformer :: "transform_config \<Rightarrow> delimiter_transformer" where
  "new_delimiter_transformer cfg =
     \<lparr>dt_delimiter = (if transform_delimiter cfg = [] then [CHR 0x09] else transform_delimiter cfg),
      dt_columns = transform_columns cfg\<rparr>"

text \<open>\<open>fmt.Sprintf ("field_%d", i)\<close>.\<close>

definition field_key :: "nat \<Rightarrow> string" where
  "field_key i = ''field_'' @ show_nat i"

definition put_field :: "go_record \<Rightarrow> string \<times> bytes \<Rightarrow> go_record" where
  "put_field m kv = gm_put m (fst kv) (VStr (snd kv))"

text \<open>The loop over the columns stops at the shorter of columns and parts; the loop after it names
the parts that have no column.\<close>

definition delimiter_transform :: "delimiter_transformer \<Rightarrow> bytes \<Rightarrow> go_record result" where
  "delimiter_transform t line0 =
     (let line = trim_space line0 in
      if length line = 0 then failing ''empty line''
      else
        (let parts = go_split line (dt_delimiter t);
             cols = dt_columns t in
         if length cols > 0 then
           (let m = foldl put_field gm_empty (zip cols parts) in
            Inr (foldl put_field m
              (map (\<lambda>i. (field_key i, parts ! i)) [length cols..<length parts])))
         else
           Inr (foldl put_field gm_empty (map (\<lambda>i. (field_key i, parts ! i)) [0..<length parts]))))"

section \<open>The regex transformer\<close>

record regex_engine =
  re_names :: "string list"
  re_find :: "bytes \<Rightarrow> bytes list option"

record regex_transformer =
  rt_re :: regex_engine
  rt_on_error :: string

definition new_regex_transformer ::
  "(string \<Rightarrow> regex_engine result) \<Rightarrow> transform_config \<Rightarrow> regex_transformer result" where
  "new_regex_transformer compile cfg =
     (if transform_pattern cfg = [] then failing ''transform.pattern is required for regex transformer''
      else
        (case compile (transform_pattern cfg) of
           Inl e \<Rightarrow> Inl (ErrWrap ''compile transform.pattern: '' e)
         | Inr re \<Rightarrow> Inr \<lparr>rt_re = re, rt_on_error = transform_on_error cfg\<rparr>))"

text \<open>Group 0, the whole match, and unnamed groups are skipped.\<close>

definition named_groups :: "string list \<Rightarrow> bytes list \<Rightarrow> (string \<times> bytes) list" where
  "named_groups names matches = filter (\<lambda>nm. fst nm \<noteq> []) (drop 1 (zip names matches))"

definition regex_transform :: "regex_transformer \<Rightarrow> bytes \<Rightarrow> go_record result" where
  "regex_transform t line =
     (case re_find (rt_re t) line of
        None \<Rightarrow> failing ''line does not match pattern''
      | Some matches \<Rightarrow> Inr (foldl put_field gm_empty (named_groups (re_names (rt_re t)) matches)))"

section \<open>The registry\<close>

datatype transformer =
    DelimiterT delimiter_transformer
  | RegexT regex_transformer
  | CustomT "bytes \<Rightarrow> go_record result"

definition transform_line :: "transformer \<Rightarrow> bytes \<Rightarrow> go_record result" where
  "transform_line t line = (case t of
      DelimiterT d \<Rightarrow> delimiter_transform d line
    | RegexT r \<Rightarrow> regex_transform r line
    | CustomT f \<Rightarrow> f line)"

type_synonym transform_factory = "transform_config \<Rightarrow> transformer result"

definition new_tab_transformer :: transform_factory where
  "new_tab_transformer cfg =
     (let cfg' = (if transform_delimiter cfg = [] then cfg\<lparr>transform_delimiter := [CHR 0x09]\<rparr> else cfg) in
      Inr (DelimiterT (new_delimiter_transformer cfg')))"

definition transform_registry ::
  "(string \<Rightarrow> regex_engine result) \<Rightarrow> (string \<rightharpoonup> transform_factory) \<Rightarrow> string \<rightharpoonup> transform_factory" where
  "transform_registry compile custom =
     [''delimiter'' \<mapsto> (\<lambda>cfg. Inr (DelimiterT (new_delimiter_transformer cfg))),
      ''tab'' \<mapsto> new_tab_transformer,
      ''regex'' \<mapsto> (\<lambda>cfg. bind_res (new_regex_transformer compile cfg) (\<lambda>t. Inr (RegexT t)))] ++ custom"

definition new_transformer :: "(string \<rightharpoonup> transform_factory) \<Rightarrow> string list \<Rightarrow> transform_config \<Rightarrow> transformer result" where
  "new_transformer reg names cfg =
     (case reg (transform_type cfg) of
        None \<Rightarrow> failing (''unknown transformer type '' @ quoted (transform_type cfg) @ registered names)
      | Some factory \<Rightarrow> factory cfg)"

section \<open>What storing a list of fields does\<close>

lemma put_fields_foldl:
  "foldl put_field m kvs = foldl (\<lambda>m e. gm_put m (fst e) (VStr (snd e))) m kvs"
  by (induction kvs arbitrary: m) (simp_all add: put_field_def)

lemma put_fields_get:
  assumes "distinct (map fst kvs)"
  shows "gm_get (foldl put_field m kvs) k =
    (case map_of kvs k of Some v \<Rightarrow> Some (VStr v) | None \<Rightarrow> gm_get m k)"
  using assms
proof (induction kvs arbitrary: m)
  case Nil
  then show ?case by simp
next
  case (Cons e kvs)
  obtain a b where e: "e = (a, b)" by force
  have IH: "gm_get (foldl put_field (put_field m e) kvs) k =
      (case map_of kvs k of Some v \<Rightarrow> Some (VStr v) | None \<Rightarrow> gm_get (put_field m e) k)"
    using Cons by simp
  have "map_of kvs a = None"
    using Cons.prems by (simp add: e map_of_eq_None_iff)
  moreover have "gm_get (put_field m e) k = (if k = a then Some (VStr b) else gm_get m k)"
    by (simp add: e put_field_def gm.get_put)
  ultimately show ?case
    using IH by (cases "k = a") (simp_all add: e split: option.split)
qed

lemma put_fields_ok: "gm_ok m \<Longrightarrow> gm_ok (foldl put_field m kvs)"
  by (induction kvs arbitrary: m) (simp_all add: put_field_def gm_ok_put)

lemma field_key_inject [simp]: "field_key i = field_key j \<longleftrightarrow> i = j"
  by (simp add: field_key_def)

text \<open>The key under which the part of a given index is stored.\<close>

definition part_key :: "string list \<Rightarrow> nat \<Rightarrow> string" where
  "part_key cols i = (if i < length cols then cols ! i else field_key i)"

text \<open>Column names that cannot clash with each other or with the names of the remaining parts.\<close>

definition columns_ok :: "string list \<Rightarrow> bool" where
  "columns_ok cols \<longleftrightarrow> distinct cols \<and> list_all (\<lambda>c. \<not> has_prefix c ''field_'') cols"

definition delimiter_bindings :: "string list \<Rightarrow> bytes list \<Rightarrow> (string \<times> bytes) list" where
  "delimiter_bindings cols parts = map (\<lambda>i. (part_key cols i, parts ! i)) [0..<length parts]"

lemma part_key_inj: "columns_ok cols \<Longrightarrow> inj (part_key cols)"
proof (rule injI)
  fix i j
  assume ok: "columns_ok cols" and eq: "part_key cols i = part_key cols j"
  have "\<not> has_prefix (cols ! a) ''field_''" if "a < length cols" for a
    using ok that by (simp add: columns_ok_def list_all_length)
  moreover have "has_prefix (field_key a) ''field_''" for a
    by (simp add: field_key_def has_prefix_def)
  ultimately have "cols ! a \<noteq> field_key b" if "a < length cols" for a b
    using that by metis
  then show "i = j"
    using eq ok unfolding part_key_def columns_ok_def
    by (metis field_key_inject nth_eq_iff_index_eq)
qed

lemma delimiter_transform_bindings:
  assumes "trim_space line \<noteq> []"
  shows "delimiter_transform t line = Inr (foldl put_field gm_empty
     (delimiter_bindings (dt_columns t) (go_split (trim_space line) (dt_delimiter t))))"
proof -
  define parts where "parts = go_split (trim_space line) (dt_delimiter t)"
  define cols where "cols = dt_columns t"
  have zip: "zip cols parts = map (\<lambda>i. (part_key cols i, parts ! i)) [0..<min (length cols) (length parts)]"
    by (rule nth_equalityI) (auto simp: part_key_def)
  have tl: "map (\<lambda>i. (field_key i, parts ! i)) [length cols..<length parts] =
      map (\<lambda>i. (part_key cols i, parts ! i)) [length cols..<length parts]"
    by (auto simp: part_key_def)
  have "[0..<length parts] = [0..<min (length cols) (length parts)] @ [length cols..<length parts]"
  proof (cases "length cols \<le> length parts")
    case True
    then show ?thesis using upt_add_eq_append [of 0 "length cols" "length parts - length cols"] by simp
  qed simp
  then have "zip cols parts @ map (\<lambda>i. (field_key i, parts ! i)) [length cols..<length parts] =
      delimiter_bindings cols parts"
    by (simp add: zip tl delimiter_bindings_def)
  then show ?thesis
    using assms unfolding delimiter_transform_def Let_def parts_def [symmetric] cols_def [symmetric]
    by (auto simp: delimiter_bindings_def part_key_def simp flip: foldl_append)
qed

section \<open>Properties\<close>

text \<open>
  The delimiter transformer keeps the whole line: it fails on blank lines only, and otherwise
  the trimmed line is the join of parts that are all in the record, the part of index \<open>i\<close> under
  its column name or under \<open>field_i\<close>, and the record holds nothing else.
\<close>

theorem delimiter_keeps_every_field:
  assumes "columns_ok (dt_columns t)"
  shows "if trim_space line = [] then \<exists>e. delimiter_transform t line = Inl e
    else \<exists>m parts. delimiter_transform t line = Inr m \<and> gm_ok m \<and>
      go_join (dt_delimiter t) parts = trim_space line \<and>
      (\<forall>k. gm_get m k = map_of (map (\<lambda>i. (part_key (dt_columns t) i, VStr (parts ! i))) [0..<length parts]) k)"
proof (cases "trim_space line = []")
  case True
  then show ?thesis by (simp add: delimiter_transform_def)
next
  case False
  define parts where "parts = go_split (trim_space line) (dt_delimiter t)"
  have "distinct (map fst (delimiter_bindings (dt_columns t) parts))"
    using part_key_inj [OF assms] by (simp add: delimiter_bindings_def comp_def distinct_map inj_on_def inj_def)
  from put_fields_get [OF this, of gm_empty]
  have get: "gm_get (foldl put_field gm_empty (delimiter_bindings (dt_columns t) parts)) k =
      map_option VStr (map_of (delimiter_bindings (dt_columns t) parts) k)" for k
    by (simp split: option.splits)
  have "map_option VStr (map_of (map (\<lambda>i. (f i, parts ! i)) is) k) = map_of (map (\<lambda>i. (f i, VStr (parts ! i))) is) k"
    for f "is" and k :: string
    by (induction "is") auto
  then show ?thesis
    using False get delimiter_transform_bindings [OF False, of t]
    by (auto simp: delimiter_bindings_def put_fields_ok join_split simp flip: parts_def
        intro!: exI [of _ parts] exI [of _ "foldl put_field gm_empty (delimiter_bindings (dt_columns t) parts)"])
       (simp add: parts_def join_split)
qed

theorem delimiter_keeps_every_field_witness:
  "\<exists>m parts. delimiter_transform \<lparr>dt_delimiter = '','', dt_columns = [''a'']\<rparr> '' x,y '' = Inr m \<and>
     gm_ok m \<and> go_join '','' parts = ''x,y'' \<and>
     (\<forall>k. gm_get m k = map_of (map (\<lambda>i. (part_key [''a''] i, VStr (parts ! i))) [0..<length parts]) k)"
  using delimiter_keeps_every_field [of "\<lparr>dt_delimiter = '','', dt_columns = [''a'']\<rparr>" "'' x,y ''"]
  by (simp add: columns_ok_def has_prefix_def trim_space_def space_seg_def is_space_rune_def)

text \<open>
  The regex transformer: no match is an error, and a match gives the record of the named groups,
  each with its own text, and nothing else (the engine reports one text per group and no name
  twice).
\<close>

theorem regex_stores_named_groups:
  assumes "distinct (filter (\<lambda>n. n \<noteq> []) (drop 1 (re_names (rt_re t))))"
    and "\<And>ms. re_find (rt_re t) line = Some ms \<Longrightarrow> length ms = length (re_names (rt_re t))"
  shows "case re_find (rt_re t) line of
      None \<Rightarrow> (\<exists>e. regex_transform t line = Inl e)
    | Some ms \<Rightarrow> (\<exists>m. regex_transform t line = Inr m \<and> gm_ok m \<and>
        (\<forall>k v. gm_get m k = Some v \<longleftrightarrow>
          (\<exists>i. 0 < i \<and> i < length ms \<and> re_names (rt_re t) ! i = k \<and> k \<noteq> [] \<and> v = VStr (ms ! i))))"
proof (cases "re_find (rt_re t) line")
  case None
  then show ?thesis by (simp add: regex_transform_def)
next
  case (Some ms)
  define names where "names = re_names (rt_re t)"
  have len: "length ms = length names" using assms(2) Some by (simp add: names_def)
  have "map fst (named_groups names ms) = filter (\<lambda>n. n \<noteq> []) (map fst (drop 1 (zip names ms)))"
    by (simp add: named_groups_def filter_map comp_def)
  also have "map fst (drop 1 (zip names ms)) = drop 1 names"
    using len by (simp flip: drop_map)
  finally have dist: "distinct (map fst (named_groups names ms))"
    using assms(1) by (simp add: names_def)
  have mem: "(k, w) \<in> set (named_groups names ms) \<longleftrightarrow>
      (\<exists>i. 0 < i \<and> i < length ms \<and> names ! i = k \<and> k \<noteq> [] \<and> w = ms ! i)" for k w
  proof -
    have "(k, w) \<in> set (drop 1 (zip names ms)) \<longleftrightarrow> (\<exists>i. 0 < i \<and> i < length ms \<and> names ! i = k \<and> w = ms ! i)"
    proof
      assume "(k, w) \<in> set (drop 1 (zip names ms))"
      then obtain j where "j < length (drop 1 (zip names ms))" "drop 1 (zip names ms) ! j = (k, w)"
        by (metis in_set_conv_nth)
      with len show "\<exists>i. 0 < i \<and> i < length ms \<and> names ! i = k \<and> w = ms ! i"
        by (intro exI [of _ "Suc j"]) auto
    next
      assume "\<exists>i. 0 < i \<and> i < length ms \<and> names ! i = k \<and> w = ms ! i"
      then obtain i where i: "0 < i" "i < length ms" "names ! i = k" "w = ms ! i" by blast
      then have "drop 1 (zip names ms) ! (i - 1) = (k, w)" "i - 1 < length (drop 1 (zip names ms))"
        using len by auto
      then show "(k, w) \<in> set (drop 1 (zip names ms))" by (metis nth_mem)
    qed
    then show ?thesis by (auto simp: named_groups_def)
  qed
  have get: "gm_get (foldl put_field gm_empty (named_groups names ms)) k = Some v \<longleftrightarrow>
      (\<exists>w. v = VStr w \<and> (k, w) \<in> set (named_groups names ms))" for k v
  proof -
    have "gm_get (foldl put_field gm_empty (named_groups names ms)) k = map_option VStr (map_of (named_groups names ms) k)"
      using put_fields_get [OF dist, of gm_empty k] by (simp split: option.splits)
    moreover have "map_option VStr (map_of (named_groups names ms) k) = Some v \<longleftrightarrow>
        (\<exists>w. v = VStr w \<and> map_of (named_groups names ms) k = Some w)"
      by (cases "map_of (named_groups names ms) k") auto
    ultimately show ?thesis using map_of_eq_Some_iff [OF dist] by simp
  qed
  show ?thesis
    unfolding Some option.case
    by (intro exI [of _ "foldl put_field gm_empty (named_groups names ms)"])
       (auto simp: regex_transform_def Some put_fields_ok get mem simp flip: names_def)
qed

definition sample_regex :: regex_transformer where
  "sample_regex = \<lparr>rt_re = \<lparr>re_names = [[], ''k'', []], re_find = (\<lambda>l. if l = ''a=b'' then Some [''a=b'', ''a'', ''b''] else None)\<rparr>,
     rt_on_error = ''wrap''\<rparr>"

theorem regex_stores_named_groups_witness:
  "\<exists>m. regex_transform sample_regex ''a=b'' = Inr m \<and> gm_ok m \<and> gm_get m ''k'' = Some (VStr ''a'')"
proof -
  have 1: "distinct (filter (\<lambda>n. n \<noteq> []) (drop 1 (re_names (rt_re sample_regex))))"
    by (simp add: sample_regex_def)
  have 2: "length ms = length (re_names (rt_re sample_regex))" if "re_find (rt_re sample_regex) ''a=b'' = Some ms" for ms
    using that by (auto simp: sample_regex_def)
  have 3: "re_find (rt_re sample_regex) ''a=b'' = Some [''a=b'', ''a'', ''b'']" "re_names (rt_re sample_regex) = [[], ''k'', []]"
    by (simp_all add: sample_regex_def)
  show ?thesis
    using regex_stores_named_groups [OF 1 2] 3 by (fastforce intro: exI [of _ 1])
qed

end
