(* ===== verification/Sinks.thy ===== *)
theory Sinks
  imports Transform
begin

text \<open>
  The sinks (\<open>internal/sink\<close>): the interface the pipeline publishes through, the registry, and the
  built-in sinks.  A sink carries its own state, which holds what the outside will answer: the
  outcome of each file write, of each HTTP exchange, of each Kafka write.  What the pipeline may
  rely on is the locale \<open>sink_contract\<close>: a publish that returns no error has delivered exactly its
  payloads, one that fails has delivered at most some of them.
\<close>

section \<open>The interface\<close>

text \<open>\<open>Sink\<close> and the optional \<open>BatchSink\<close>.\<close>

record 'k sink =
  snk_publish :: "'k \<Rightarrow> bytes \<Rightarrow> 'k \<times> check"
  snk_batch :: "('k \<Rightarrow> bytes list \<Rightarrow> 'k \<times> check) option"

locale sink_contract =
  fixes s :: "'k sink" and log :: "'k \<Rightarrow> bytes list"
  assumes publish_ok: "snk_publish s k p = (k', ok) \<Longrightarrow> log k' = log k @ [p]"
    and publish_err: "snk_publish s k p = (k', Inl e) \<Longrightarrow> \<exists>xs. log k' = log k @ xs \<and> set xs \<subseteq> {p}"
    and batch_ok: "\<lbrakk>snk_batch s = Some f; f k ps = (k', ok)\<rbrakk> \<Longrightarrow> log k' = log k @ ps"
    and batch_err: "\<lbrakk>snk_batch s = Some f; f k ps = (k', Inl e)\<rbrakk> \<Longrightarrow> \<exists>xs. log k' = log k @ xs \<and> set xs \<subseteq> set ps"

section \<open>The file sink\<close>

text \<open>
  One \<open>Write\<close> of the operating system: it takes all bytes, or the first \<open>n\<close> and an error.  The sink
  state holds the answers to come (none left: every write succeeds), whether the file is open, the
  contents, and as a ghost the payloads whose line is complete.
\<close>

type_synonym write_answer = "(nat \<times> go_error) option"

text \<open>
  \<open>fk_content\<close> is the content of the file.  \<open>fk_lines\<close> is not in the code: it lists the records whose write,
  newline included, succeeded.  The two agree unless a write failed half-way (\<open>torn_write_corrupts_the_retry\<close>).
\<close>

record file_sink =
  fk_open :: bool
  fk_mkdir :: check
  fk_openfile :: check
  fk_answers :: "write_answer list"
  fk_content :: bytes
  fk_lines :: "bytes list"

definition fk_write :: "bytes \<Rightarrow> file_sink \<Rightarrow> file_sink \<times> check" where
  "fk_write b k =
     (case fk_answers k of
        Some (n, e) # rest \<Rightarrow>
          (k\<lparr>fk_answers := rest, fk_content := fk_content k @ take n b\<rparr>, Inl (ErrWrap ''file publish: '' e))
      | None # rest \<Rightarrow> (k\<lparr>fk_answers := rest, fk_content := fk_content k @ b\<rparr>, ok)
      | [] \<Rightarrow> (k\<lparr>fk_content := fk_content k @ b\<rparr>, ok))"

definition fk_open_locked :: "file_sink \<Rightarrow> file_sink \<times> check" where
  "fk_open_locked k =
     (if fk_open k then (k, ok)
      else
        (case fk_mkdir k of
           Inl e \<Rightarrow> (k, Inl (ErrWrap ''create sink file directory: '' e))
         | Inr u \<Rightarrow>
             (case fk_openfile k of
                Inl e \<Rightarrow> (k, Inl (ErrWrap ''open sink file: '' e))
              | Inr u \<Rightarrow> (k\<lparr>fk_open := True\<rparr>, ok))))"

fun fk_write_all :: "bytes list \<Rightarrow> file_sink \<Rightarrow> file_sink \<times> check" where
  "fk_write_all [] k = (k, ok)"
| "fk_write_all (p # ps) k =
     (case fk_write p k of
        (k1, Inl e) \<Rightarrow> (k1, Inl e)
      | (k1, Inr u) \<Rightarrow>
          (case fk_write [NL] k1 of
             (k2, Inl e) \<Rightarrow> (k2, Inl e)
           | (k2, Inr u) \<Rightarrow> fk_write_all ps (k2\<lparr>fk_lines := fk_lines k2 @ [p]\<rparr>)))"

definition file_publish_batch :: "file_sink \<Rightarrow> bytes list \<Rightarrow> file_sink \<times> check" where
  "file_publish_batch k ps =
     (if length ps = 0 then (k, ok)
      else
        (case fk_open_locked k of
           (k1, Inl e) \<Rightarrow> (k1, Inl e)
         | (k1, Inr u) \<Rightarrow> fk_write_all ps k1))"

definition file_publish :: "file_sink \<Rightarrow> bytes \<Rightarrow> file_sink \<times> check" where
  "file_publish k p = file_publish_batch k [p]"

definition file_check :: "file_sink \<Rightarrow> file_sink \<times> check" where
  "file_check k = fk_open_locked k"

definition file_close :: "check \<Rightarrow> file_sink \<Rightarrow> file_sink \<times> check" where
  "file_close answer k = (if \<not> fk_open k then (k, ok) else (k\<lparr>fk_open := False\<rparr>, answer))"

definition the_file_sink :: "file_sink sink" where
  "the_file_sink = \<lparr>snk_publish = file_publish, snk_batch = Some file_publish_batch\<rparr>"

section \<open>The HTTP sink\<close>

text \<open>
  The server is known by its answers: the request may not be built, the exchange may fail, with
  the request delivered or not, or a status comes back.  \<open>hs_posts\<close> is what arrived.
\<close>

datatype http_answer =
    RequestError go_error
  | ExchangeError go_error bool
  | Status int bytes

record http_sink =
  hs_answers :: "http_answer list"
  hs_posts :: "(bytes \<times> string) list"
  hs_log :: "bytes list"

definition encode_http_batch :: "bytes list \<Rightarrow> bytes \<times> string" where
  "encode_http_batch ps =
     (if length ps = 1 then (ps ! 0, ''application/json'')
      else (go_join [NL] ps, ''application/x-ndjson''))"

definition http_ok_status :: "int \<Rightarrow> bool" where
  "http_ok_status c \<longleftrightarrow> \<not> (c < 200 \<or> c \<ge> 300)"

text \<open>\<open>post\<close>, with the payloads of the body as a ghost argument; no answers left: status 200.\<close>

definition http_post :: "bytes list \<Rightarrow> http_sink \<Rightarrow> bytes \<Rightarrow> string \<Rightarrow> http_sink \<times> check" where
  "http_post ps k body ctype =
     (let arrived = k\<lparr>hs_answers := tl (hs_answers k), hs_posts := hs_posts k @ [(body, ctype)],
                     hs_log := hs_log k @ ps\<rparr>;
          silent = k\<lparr>hs_answers := tl (hs_answers k)\<rparr> in
      case (case hs_answers k of [] \<Rightarrow> Status 200 [] | a # r \<Rightarrow> a) of
        RequestError e \<Rightarrow> (silent, Inl (ErrWrap ''http publish request: '' e))
      | ExchangeError e got \<Rightarrow> ((if got then arrived else silent), Inl (ErrWrap ''http publish: '' e))
      | Status c b \<Rightarrow>
          (arrived, if http_ok_status c then ok
                    else failing (''http publish: status '' @ show_int c @ '': '' @ trim_space (take 1024 b))))"

definition http_publish_batch :: "http_sink \<Rightarrow> bytes list \<Rightarrow> http_sink \<times> check" where
  "http_publish_batch k ps =
     (if length ps = 0 then (k, ok)
      else (case encode_http_batch ps of (body, ctype) \<Rightarrow> http_post ps k body ctype))"

definition http_publish :: "http_sink \<Rightarrow> bytes \<Rightarrow> http_sink \<times> check" where
  "http_publish k p = http_publish_batch k [p]"

definition http_check :: "http_sink \<Rightarrow> check" where
  "http_check k = (case (case hs_answers k of [] \<Rightarrow> Status 200 [] | a # r \<Rightarrow> a) of
      RequestError e \<Rightarrow> Inl (ErrWrap ''http check request: '' e)
    | ExchangeError e got \<Rightarrow> Inl (ErrWrap ''http check: '' e)
    | Status c b \<Rightarrow> if http_ok_status c then ok
                   else failing (''http check: status '' @ show_int c @ '': '' @ trim_space (take 1024 b)))"

definition the_http_sink :: "http_sink sink" where
  "the_http_sink = \<lparr>snk_publish = http_publish, snk_batch = Some http_publish_batch\<rparr>"

section \<open>The Kafka sink\<close>

text \<open>
  The Kafka client is not part of the repository: \<open>write\<close> is its \<open>WriteMessages\<close>, on a state of its
  own.  The dialer and the partitions it reads are arguments of \<open>Check\<close>.
\<close>

definition kafka_publish_batch :: "('k \<Rightarrow> bytes list \<Rightarrow> 'k \<times> check) \<Rightarrow> 'k \<Rightarrow> bytes list \<Rightarrow> 'k \<times> check" where
  "kafka_publish_batch write k ps =
     (if length ps = 0 then (k, ok)
      else
        (case write k ps of
           (k', Inl e) \<Rightarrow> (k', Inl (ErrWrap ''kafka publish: '' e))
         | (k', Inr u) \<Rightarrow> (k', ok)))"

definition kafka_publish :: "('k \<Rightarrow> bytes list \<Rightarrow> 'k \<times> check) \<Rightarrow> 'k \<Rightarrow> bytes \<Rightarrow> 'k \<times> check" where
  "kafka_publish write k p = kafka_publish_batch write k [p]"

definition the_kafka_sink :: "('k \<Rightarrow> bytes list \<Rightarrow> 'k \<times> check) \<Rightarrow> 'k sink" where
  "the_kafka_sink write = \<lparr>snk_publish = kafka_publish write, snk_batch = Some (kafka_publish_batch write)\<rparr>"

text \<open>\<open>Check\<close>: the first broker that can be dialled decides.\<close>

fun kafka_check_from ::
  "(string \<Rightarrow> check) \<Rightarrow> (string \<Rightarrow> nat result) \<Rightarrow> string \<Rightarrow> go_error option \<Rightarrow> string list \<Rightarrow> check" where
  "kafka_check_from dial partitions topic last_err [] =
     (case last_err of
        Some e \<Rightarrow> Inl (ErrWrap ''unable to connect to kafka: '' e)
      | None \<Rightarrow> failing ''unable to connect to kafka: no brokers configured'')"
| "kafka_check_from dial partitions topic last_err (b # bs) =
     (case dial b of
        Inl e \<Rightarrow> kafka_check_from dial partitions topic (Some (ErrWrap (''broker '' @ quoted b @ '': '') e)) bs
      | Inr u \<Rightarrow>
          (case partitions b of
             Inl e \<Rightarrow> Inl (ErrWrap (''kafka topic '' @ quoted topic @ '' on broker '' @ quoted b @ '': '') e)
           | Inr n \<Rightarrow> if n = 0 then failing (''kafka topic '' @ quoted topic @ '' not found on broker '' @ quoted b) else ok))"

definition kafka_check :: "(string \<Rightarrow> check) \<Rightarrow> (string \<Rightarrow> nat result) \<Rightarrow> kafka_config \<Rightarrow> check" where
  "kafka_check dial partitions cfg = kafka_check_from dial partitions (kafka_topic cfg) None (kafka_brokers cfg)"

section \<open>The built-in sinks meet the contract\<close>

lemma fk_write_lines: "fk_write b k = (k', r) \<Longrightarrow> fk_lines k' = fk_lines k"
  by (auto simp: fk_write_def split: list.splits option.splits prod.splits)

lemma fk_write_all_log:
  "fk_write_all ps k = (k', r) \<Longrightarrow>
     (r = ok \<and> fk_lines k' = fk_lines k @ ps) \<or> (r \<noteq> ok \<and> (\<exists>n. fk_lines k' = fk_lines k @ take n ps))"
proof (induction ps arbitrary: k)
  case Nil
  then show ?case by simp
next
  case (Cons p ps)
  obtain k1 r1 where 1: "fk_write p k = (k1, r1)" by force
  obtain k2 r2 where 2: "fk_write [NL] k1 = (k2, r2)" by force
  have lines: "fk_lines k2 = fk_lines k" "fk_lines k1 = fk_lines k"
    using fk_write_lines [OF 1] fk_write_lines [OF 2] by simp_all
  show ?case
  proof (cases "r1 = ok \<and> r2 = ok")
    case True
    then have "fk_write_all ps (k2\<lparr>fk_lines := fk_lines k2 @ [p]\<rparr>) = (k', r)"
      using Cons.prems by (simp add: 1 2)
    from Cons.IH [OF this] lines show ?thesis
      by simp (metis take_Suc_Cons)
  next
    case False
    then have "r \<noteq> ok" "fk_lines k' = fk_lines k"
      using Cons.prems lines by (auto simp: 1 2 split: sum.splits)
    then show ?thesis by (metis append_Nil2 take_0)
  qed
qed

lemma fk_open_lines: "fk_open_locked k = (k', r) \<Longrightarrow> fk_lines k' = fk_lines k"
  by (auto simp: fk_open_locked_def split: if_splits sum.splits)

lemma file_batch_log:
  assumes "file_publish_batch k ps = (k', r)"
  shows "(r = ok \<and> fk_lines k' = fk_lines k @ ps) \<or> (r \<noteq> ok \<and> (\<exists>n. fk_lines k' = fk_lines k @ take n ps))"
proof -
  obtain k1 r1 where 1: "fk_open_locked k = (k1, r1)" by force
  show ?thesis
  proof (cases r1)
    case (Inl e)
    then show ?thesis
      using assms fk_open_lines [OF 1]
      by (auto simp: file_publish_batch_def 1 split: if_splits intro: exI [of _ 0])
  next
    case (Inr u)
    then show ?thesis
      using assms fk_open_lines [OF 1] fk_write_all_log [of ps k1 k' r]
      by (auto simp: file_publish_batch_def 1 split: if_splits)
  qed
qed

interpretation file_snk: sink_contract the_file_sink fk_lines
proof unfold_locales
  fix k p k' assume "snk_publish the_file_sink k p = (k', ok)"
  then show "fk_lines k' = fk_lines k @ [p]"
    using file_batch_log [of k "[p]" k' ok] by (simp add: the_file_sink_def file_publish_def)
next
  fix k p k' e assume "snk_publish the_file_sink k p = (k', Inl e)"
  then show "\<exists>xs. fk_lines k' = fk_lines k @ xs \<and> set xs \<subseteq> {p}"
    using file_batch_log [of k "[p]" k' "Inl e"] set_take_subset [of _ "[p]"]
    by (fastforce simp: the_file_sink_def file_publish_def)
next
  fix f k ps k' assume "snk_batch the_file_sink = Some f" "f k ps = (k', ok)"
  then show "fk_lines k' = fk_lines k @ ps"
    using file_batch_log [of k ps k' ok] by (simp add: the_file_sink_def)
next
  fix f k ps k' e assume "snk_batch the_file_sink = Some f" "f k ps = (k', Inl e)"
  then show "\<exists>xs. fk_lines k' = fk_lines k @ xs \<and> set xs \<subseteq> set ps"
    using file_batch_log [of k ps k' "Inl e"] set_take_subset [of _ ps]
    by (fastforce simp: the_file_sink_def)
qed

lemma http_batch_log:
  assumes "http_publish_batch k ps = (k', r)"
  shows "(r = ok \<and> hs_log k' = hs_log k @ ps) \<or> (r \<noteq> ok \<and> (hs_log k' = hs_log k \<or> hs_log k' = hs_log k @ ps))"
  using assms
  by (auto simp: http_publish_batch_def http_post_def Let_def split: if_splits prod.splits http_answer.splits)

interpretation http_snk: sink_contract the_http_sink hs_log
proof unfold_locales
  fix k p k' assume "snk_publish the_http_sink k p = (k', ok)"
  then show "hs_log k' = hs_log k @ [p]"
    using http_batch_log [of k "[p]" k' ok] by (simp add: the_http_sink_def http_publish_def)
next
  fix k p k' e assume "snk_publish the_http_sink k p = (k', Inl e)"
  then show "\<exists>xs. hs_log k' = hs_log k @ xs \<and> set xs \<subseteq> {p}"
    using http_batch_log [of k "[p]" k' "Inl e"] by (auto simp: the_http_sink_def http_publish_def)
next
  fix f k ps k' assume "snk_batch the_http_sink = Some f" "f k ps = (k', ok)"
  then show "hs_log k' = hs_log k @ ps"
    using http_batch_log [of k ps k' ok] by (simp add: the_http_sink_def)
next
  fix f k ps k' e assume "snk_batch the_http_sink = Some f" "f k ps = (k', Inl e)"
  then show "\<exists>xs. hs_log k' = hs_log k @ xs \<and> set xs \<subseteq> set ps"
    using http_batch_log [of k ps k' "Inl e"] by (auto simp: the_http_sink_def)
qed

text \<open>The Kafka sink meets it whenever the client's \<open>WriteMessages\<close> does.\<close>

lemma kafka_sink_contract:
  assumes "\<And>k ps k'. ps \<noteq> [] \<Longrightarrow> write k ps = (k', ok) \<Longrightarrow> lg k' = lg k @ ps"
    and "\<And>k ps k' e. ps \<noteq> [] \<Longrightarrow> write k ps = (k', Inl e) \<Longrightarrow> \<exists>xs. lg k' = lg k @ xs \<and> set xs \<subseteq> set ps"
  shows "sink_contract (the_kafka_sink write) lg"
proof -
  have batch: "(r = ok \<and> lg k' = lg k @ ps) \<or> (r \<noteq> ok \<and> (\<exists>xs. lg k' = lg k @ xs \<and> set xs \<subseteq> set ps))"
    if "kafka_publish_batch write k ps = (k', r)" for k ps k' r
    using that assms by (cases "ps = []") (auto simp: kafka_publish_batch_def split: prod.splits sum.splits)
  show ?thesis
  proof unfold_locales
    fix k p k' assume "snk_publish (the_kafka_sink write) k p = (k', ok)"
    then show "lg k' = lg k @ [p]"
      using batch [of k "[p]" k' ok] by (simp add: the_kafka_sink_def kafka_publish_def)
  next
    fix k p k' e assume "snk_publish (the_kafka_sink write) k p = (k', Inl e)"
    then show "\<exists>xs. lg k' = lg k @ xs \<and> set xs \<subseteq> {p}"
      using batch [of k "[p]" k' "Inl e"] by (simp add: the_kafka_sink_def kafka_publish_def)
  next
    fix f k ps k' assume "snk_batch (the_kafka_sink write) = Some f" "f k ps = (k', ok)"
    then show "lg k' = lg k @ ps"
      using batch [of k ps k' ok] by (auto simp: the_kafka_sink_def)
  next
    fix f k ps k' e assume "snk_batch (the_kafka_sink write) = Some f" "f k ps = (k', Inl e)"
    then show "\<exists>xs. lg k' = lg k @ xs \<and> set xs \<subseteq> set ps"
      using batch [of k ps k' "Inl e"] by (auto simp: the_kafka_sink_def)
  qed
qed

section \<open>Properties\<close>

text \<open>The file holds its complete lines and nothing else.\<close>

definition jsonl :: "bytes list \<Rightarrow> bytes" where
  "jsonl ps = concat (map (\<lambda>p. p @ [NL]) ps)"

definition file_clean :: "file_sink \<Rightarrow> bool" where
  "file_clean k \<longleftrightarrow> fk_content k = jsonl (fk_lines k)"

lemma fk_write_all_content:
  "fk_write_all ps k = (k', ok) \<Longrightarrow> fk_content k' = fk_content k @ jsonl ps \<and> fk_lines k' = fk_lines k @ ps"
proof (induction ps arbitrary: k)
  case Nil
  then show ?case by (simp add: jsonl_def)
next
  case (Cons p ps)
  obtain k1 r1 where 1: "fk_write p k = (k1, r1)" by force
  obtain k2 r2 where 2: "fk_write [NL] k1 = (k2, r2)" by force
  have good: "r1 = ok" "r2 = ok"
    using Cons.prems by (auto simp: 1 2 split: sum.splits)
  have c: "fk_content k2 = fk_content k @ p @ [NL]"
    using 1 2 good by (auto simp: fk_write_def split: list.splits option.splits prod.splits)
  have "fk_write_all ps (k2\<lparr>fk_lines := fk_lines k2 @ [p]\<rparr>) = (k', ok)"
    using Cons.prems good by (simp add: 1 2)
  from Cons.IH [OF this] c fk_write_lines [OF 1] fk_write_lines [OF 2] show ?case
    by (simp add: jsonl_def)
qed

text \<open>
  The file sink writes JSON lines: a publish that succeeds on a file of complete lines appends
  exactly one line per payload, and reading the file back at the newlines gives the payloads.
\<close>

theorem file_sink_appends_lines:
  assumes "file_clean k" "file_publish_batch k ps = (k', ok)"
    and "list_all (\<lambda>p. NL \<notin> set p) (fk_lines k @ ps)"
  shows "file_clean k' \<and> fk_lines k' = fk_lines k @ ps \<and>
    go_split (fk_content k') [NL] = fk_lines k @ ps @ [[]]"
proof -
  have "fk_content k' = fk_content k @ jsonl ps \<and> fk_lines k' = fk_lines k @ ps"
  proof (cases "ps = []")
    case True
    then show ?thesis using assms(2) by (auto simp: file_publish_batch_def jsonl_def)
  next
    case False
    then obtain k1 where "fk_open_locked k = (k1, ok)" "fk_write_all ps k1 = (k', ok)"
      using assms(2) by (auto simp: file_publish_batch_def split: prod.splits sum.splits)
    moreover have "fk_content k1 = fk_content k" "fk_lines k1 = fk_lines k"
      using calculation(1) by (auto simp: fk_open_locked_def split: if_splits sum.splits)
    ultimately show ?thesis using fk_write_all_content [of ps k1 k'] by simp
  qed
  then have k': "fk_content k' = jsonl (fk_lines k @ ps)" "fk_lines k' = fk_lines k @ ps"
    using assms(1) by (simp_all add: file_clean_def jsonl_def)
  have "jsonl qs = go_join [NL] (qs @ [[]])" for qs
    by (induction qs) (simp_all add: jsonl_def go_join_Cons)
  then have "go_split (fk_content k') [NL] = fk_lines k @ ps @ [[]]"
    using go_split_join [of "fk_lines k @ ps @ [[]]" NL] assms(3) k'(1) by (auto simp: list_all_iff)
  with k' show ?thesis by (simp add: file_clean_def)
qed

definition new_file :: "write_answer list \<Rightarrow> file_sink" where
  "new_file answers = \<lparr>fk_open = False, fk_mkdir = ok, fk_openfile = ok, fk_answers = answers,
     fk_content = [], fk_lines = []\<rparr>"

lemma new_file_publish: "file_publish_batch (new_file []) [''a'', ''b''] =
    ((new_file [])\<lparr>fk_open := True, fk_content := ''a'' @ NL # ''b'' @ [NL], fk_lines := [''a'', ''b'']\<rparr>, ok)"
  by (simp add: file_publish_batch_def fk_open_locked_def new_file_def fk_write_def)

theorem file_sink_appends_lines_witness:
  "go_split (''a'' @ NL # ''b'' @ [NL]) [NL] = [''a'', ''b'', []]"
  using file_sink_appends_lines [OF _ new_file_publish]
  by (simp add: new_file_def file_clean_def jsonl_def)

text \<open>
  A write that fails half-way leaves a torn line: when the next attempt succeeds, the file holds
  the fragment and the payload on one line, so the record that was reported published is not a line
  of the file.
\<close>

theorem torn_write_corrupts_the_retry:
  assumes "file_clean k" "fk_open k" "fk_answers k = [Some (n, e)]" "0 < n" "n < length p"
    and "list_all (\<lambda>p. NL \<notin> set p) (p # fk_lines k)" "p \<notin> set (fk_lines k)"
    and "file_publish k p = (k1, r1)" "file_publish k1 p = (k2, r2)"
  shows "r1 \<noteq> ok \<and> r2 = ok \<and> fk_content k2 = fk_content k @ take n p @ p @ [NL] \<and>
    p \<notin> set (go_split (fk_content k2) [NL])"
proof -
  have k1: "k1 = k\<lparr>fk_answers := [], fk_content := fk_content k @ take n p\<rparr>" "r1 \<noteq> ok"
    using assms(2,3,8) by (auto simp: file_publish_def file_publish_batch_def fk_open_locked_def fk_write_def)
  have k2: "fk_content k2 = fk_content k @ take n p @ p @ [NL]" "r2 = ok"
    using assms(2,9) unfolding k1(1)
    by (auto simp: file_publish_def file_publish_batch_def fk_open_locked_def fk_write_def)
  have "jsonl qs @ q @ [NL] = go_join [NL] (qs @ [q, []])" for qs q
    by (induction qs) (simp_all add: jsonl_def go_join_Cons)
  then have "fk_content k2 = go_join [NL] (fk_lines k @ [take n p @ p, []])"
    using assms(1) k2(1) by (metis append_assoc file_clean_def)
  moreover have "NL \<notin> set (take n p)" using assms(6) by (auto dest: in_set_takeD)
  ultimately have "go_split (fk_content k2) [NL] = fk_lines k @ [take n p @ p, []]"
    using assms(6) go_split_join [of "fk_lines k @ [take n p @ p, []]" NL] by (auto simp: list_all_iff)
  moreover have "p \<noteq> take n p @ p" "p \<noteq> []" using assms(4,5) by auto
  ultimately show ?thesis using k1 k2 assms(7) by simp
qed

theorem torn_write_corrupts_the_retry_witness:
  "\<exists>k1 r1 k2. file_publish ((new_file [Some (1, ErrText ''disk full'')])\<lparr>fk_open := True\<rparr>) ''{}'' = (k1, r1) \<and>
     file_publish k1 ''{}'' = (k2, ok) \<and> fk_content k2 = ''{{}'' @ [NL] \<and>
     ''{}'' \<notin> set (go_split (fk_content k2) [NL])"
proof -
  let ?k = "(new_file [Some (1, ErrText ''disk full'')])\<lparr>fk_open := True\<rparr>"
  obtain k1 r1 where 1: "file_publish ?k ''{}'' = (k1, r1)" by force
  obtain k2 r2 where 2: "file_publish k1 ''{}'' = (k2, r2)" by force
  show ?thesis
    using torn_write_corrupts_the_retry [OF _ _ _ _ _ _ _ 1 2, of 1 "ErrText ''disk full''"] 1 2
    by (auto simp: new_file_def file_clean_def jsonl_def)
qed

text \<open>
  The HTTP body determines the batch: one payload is sent as it is, several as one line each,
  and splitting the body at the newlines gives the payloads back.
\<close>

theorem http_body_roundtrip:
  assumes "ps \<noteq> []" "list_all (\<lambda>p. NL \<notin> set p) ps"
  shows "case encode_http_batch ps of (body, ctype) \<Rightarrow>
    (if ctype = ''application/json'' then [body] else go_split body [NL]) = ps"
proof (cases "length ps = 1")
  case True
  then obtain p where "ps = [p]" by (auto simp: length_Suc_conv)
  then show ?thesis by (simp add: encode_http_batch_def)
next
  case False
  then show ?thesis
    using assms go_split_join [of ps NL] by (auto simp: encode_http_batch_def list_all_iff)
qed

theorem http_body_roundtrip_witness:
  "go_split (go_join [NL] [''{}'', ''[]'']) [NL] = [''{}'', ''[]'']"
  using http_body_roundtrip [of "[''{}'', ''[]'']"] by (simp add: encode_http_batch_def)

end
