(* ===== verification/Publish.thy ===== *)
theory Publish
  imports Sinks "HOL-Library.Word"
begin

text \<open>
  Publishing a batch (\<open>internal/pipeline/publish.go\<close>, \<open>publish_buffer.go\<close>): the pending records,
  the buffer, and the retry loop with exponential backoff.  The loop need not end when no attempt
  limit is configured, so it is a partial function: \<open>None\<close> is not returning.  Backoffs are
  \<open>time.Duration\<close>, an \<open>int64\<close>, and are doubled at that width.
\<close>

section \<open>Pending records and the buffer\<close>

record pending =
  p_payload :: bytes
  p_path :: string
  p_offset :: nat
  p_inode :: nat

record publish_buffer =
  b_items :: "pending list"
  b_bytes :: int

definition empty_buffer :: publish_buffer where
  "empty_buffer = \<lparr>b_items = [], b_bytes = 0\<rparr>"

definition buf_append :: "publish_buffer \<Rightarrow> pending \<Rightarrow> publish_buffer" where
  "buf_append b item = b\<lparr>b_items := b_items b @ [item], b_bytes := b_bytes b + int (length (p_payload item))\<rparr>"

definition buf_drain :: "publish_buffer \<Rightarrow> publish_buffer \<times> pending list" where
  "buf_drain b = (if length (b_items b) = 0 then (b, [])
     else (b\<lparr>b_items := [], b_bytes := 0\<rparr>, b_items b))"

definition batch_bytes :: "pending list \<Rightarrow> int" where
  "batch_bytes items = sum_list (map (\<lambda>i. int (length (p_payload i))) items)"

text \<open>The counter is the size of what is buffered.\<close>

definition buf_ok :: "publish_buffer \<Rightarrow> bool" where
  "buf_ok b \<longleftrightarrow> b_bytes b = batch_bytes (b_items b)"

lemma buf_ok_empty [inv_intros]: "buf_ok empty_buffer"
  by (simp add: buf_ok_def empty_buffer_def batch_bytes_def)

lemma buf_ok_append [inv_intros]: "buf_ok b \<Longrightarrow> buf_ok (buf_append b item)"
  by (simp add: buf_ok_def buf_append_def batch_bytes_def)

lemma buf_ok_drain [inv_intros]: "buf_ok b \<Longrightarrow> buf_ok (fst (buf_drain b))"
  by (simp add: buf_ok_def buf_drain_def batch_bytes_def)

section \<open>One attempt\<close>

text \<open>\<open>publishToSink\<close>: the batch method when the sink has one, else one publish per payload.\<close>

fun publish_each :: "('k \<Rightarrow> bytes \<Rightarrow> 'k \<times> check) \<Rightarrow> 'k \<Rightarrow> bytes list \<Rightarrow> 'k \<times> check" where
  "publish_each f k [] = (k, ok)"
| "publish_each f k (p # ps) =
     (case f k p of
        (k1, Inl e) \<Rightarrow> (k1, Inl e)
      | (k1, Inr u) \<Rightarrow> publish_each f k1 ps)"

definition publish_to_sink :: "'k sink \<Rightarrow> 'k \<Rightarrow> bytes list \<Rightarrow> 'k \<times> check" where
  "publish_to_sink s k ps =
     (if length ps = 0 then (k, ok)
      else (case snk_batch s of Some f \<Rightarrow> f k ps | None \<Rightarrow> publish_each (snk_publish s) k ps))"

section \<open>The retry loop\<close>

record retry_policy =
  rp_initial :: "64 word"
  rp_max :: "64 word"
  rp_max_attempts :: int

definition retry_policy_of :: "duration_parser \<Rightarrow> pipeline_config \<Rightarrow> retry_policy" where
  "retry_policy_of pd cfg =
     \<lparr>rp_initial = word_of_int (initial_backoff_duration pd (publish_retry cfg)),
      rp_max = word_of_int (max_backoff_duration pd (publish_retry cfg)),
      rp_max_attempts = max_attempts_or_default (publish_batch cfg) (publish_retry cfg)\<rparr>"

text \<open>The wait after a failed attempt doubles up to the maximum; comparisons are signed.\<close>

definition next_backoff :: "64 word \<Rightarrow> 64 word \<Rightarrow> 64 word" where
  "next_backoff mx b =
     (if sint b < sint mx then (let d = b * 2 in if sint d > sint mx then mx else d) else b)"

text \<open>
  \<open>publishBatchWithRetry\<close> from attempt \<open>n\<close>.  \<open>done n\<close> is \<open>ctx.Err ()\<close> when the context is done
  during the wait after attempt \<open>n\<close>.  The result carries the sink, the waits made and the error.
\<close>

partial_function (option) retry_from ::
  "'k sink \<Rightarrow> retry_policy \<Rightarrow> (nat \<Rightarrow> go_error option) \<Rightarrow> bytes list \<Rightarrow> nat \<Rightarrow> 64 word \<Rightarrow> 64 word list \<Rightarrow> 'k
     \<Rightarrow> ('k \<times> 64 word list \<times> check) option" where
  "retry_from s rp dn ps n b waits k =
     (case publish_to_sink s k ps of
        (k', Inr u) \<Rightarrow> Some (k', waits, ok)
      | (k', Inl e) \<Rightarrow>
          if rp_max_attempts rp > 0 \<and> int (n + 1) \<ge> rp_max_attempts rp then
            Some (k', waits, Inl (ErrWrap (''publish failed after '' @ show_nat (n + 1) @ '' attempts: '') e))
          else
            (case dn (n + 1) of
               Some ce \<Rightarrow> Some (k', waits, Inl ce)
             | None \<Rightarrow> retry_from s rp dn ps (n + 1) (next_backoff (rp_max rp) b) (waits @ [b]) k'))"

definition publish_batch_with_retry ::
  "'k sink \<Rightarrow> retry_policy \<Rightarrow> (nat \<Rightarrow> go_error option) \<Rightarrow> bytes list \<Rightarrow> 'k \<Rightarrow> ('k \<times> 64 word list \<times> check) option" where
  "publish_batch_with_retry s rp dn ps k = retry_from s rp dn ps 0 (rp_initial rp) [] k"

section \<open>What an attempt delivers\<close>

context sink_contract
begin

lemma publish_each_ok: "publish_each (snk_publish s) k ps = (k', ok) \<Longrightarrow> log k' = log k @ ps"
  by (induction ps arbitrary: k) (auto split: prod.splits sum.splits dest!: publish_ok)

lemma publish_each_err:
  "publish_each (snk_publish s) k ps = (k', Inl e) \<Longrightarrow> \<exists>xs. log k' = log k @ xs \<and> set xs \<subseteq> set ps"
proof (induction ps arbitrary: k)
  case Nil
  then show ?case by simp
next
  case (Cons p ps)
  obtain k1 r where 1: "snk_publish s k p = (k1, r)" by force
  show ?case
  proof (cases r)
    case (Inl e')
    then show ?thesis using Cons.prems publish_err [of k p k1 e'] by (auto simp: 1)
  next
    case (Inr u)
    then obtain xs where "log k' = log k1 @ xs" "set xs \<subseteq> set ps"
      using Cons by (auto simp: 1)
    then show ?thesis
      using publish_ok [of k p k1] 1 Inr by (intro exI [of _ "p # xs"]) auto
  qed
qed

lemma attempt_ok: "publish_to_sink s k ps = (k', ok) \<Longrightarrow> log k' = log k @ ps"
  by (auto simp: publish_to_sink_def split: if_splits option.splits dest: publish_each_ok batch_ok)

lemma attempt_err:
  "publish_to_sink s k ps = (k', Inl e) \<Longrightarrow> \<exists>xs. log k' = log k @ xs \<and> set xs \<subseteq> set ps"
  by (auto simp: publish_to_sink_def split: if_splits option.splits dest: publish_each_err batch_err)

end

section \<open>Induction over the attempts of a run that returns\<close>

definition out_of_attempts :: "retry_policy \<Rightarrow> nat \<Rightarrow> bool" where
  "out_of_attempts rp n \<longleftrightarrow> rp_max_attempts rp > 0 \<and> int (n + 1) \<ge> rp_max_attempts rp"

definition attempts_error :: "nat \<Rightarrow> go_error \<Rightarrow> go_error" where
  "attempts_error n e = ErrWrap (''publish failed after '' @ show_nat (n + 1) @ '' attempts: '') e"

lemma retry_from_unfold:
  "retry_from s rp dn ps n b waits k =
     (case publish_to_sink s k ps of
        (k', Inr u) \<Rightarrow> Some (k', waits, ok)
      | (k', Inl e) \<Rightarrow>
          if out_of_attempts rp n then Some (k', waits, Inl (attempts_error n e))
          else
            (case dn (n + 1) of
               Some ce \<Rightarrow> Some (k', waits, Inl ce)
             | None \<Rightarrow> retry_from s rp dn ps (n + 1) (next_backoff (rp_max rp) b) (waits @ [b]) k'))"
  by (subst retry_from.simps)
     (auto simp: out_of_attempts_def attempts_error_def split: prod.split sum.split)

lemma retry_induct [consumes 1, case_names sent limit cancelled again]:
  assumes "retry_from s rp dn ps n b waits k = Some res"
    and sent: "\<And>n b waits k k'. publish_to_sink s k ps = (k', ok) \<Longrightarrow> P n b waits k (k', waits, ok)"
    and limit: "\<And>n b waits k k' e. publish_to_sink s k ps = (k', Inl e) \<Longrightarrow> out_of_attempts rp n \<Longrightarrow>
        P n b waits k (k', waits, Inl (attempts_error n e))"
    and cancelled: "\<And>n b waits k k' e ce. publish_to_sink s k ps = (k', Inl e) \<Longrightarrow> \<not> out_of_attempts rp n \<Longrightarrow>
        dn (n + 1) = Some ce \<Longrightarrow> P n b waits k (k', waits, Inl ce)"
    and again: "\<And>n b waits k k' e res. publish_to_sink s k ps = (k', Inl e) \<Longrightarrow> \<not> out_of_attempts rp n \<Longrightarrow>
        dn (n + 1) = None \<Longrightarrow> P (n + 1) (next_backoff (rp_max rp) b) (waits @ [b]) k' res \<Longrightarrow> P n b waits k res"
  shows "P n b waits k res"
proof -
  have "s = s \<and> rp = rp \<and> dn = dn \<and> ps = ps \<longrightarrow> P n b waits k res"
  proof (rule retry_from.raw_induct [of "\<lambda>s' rp' dn' ps' n b waits k y.
        s' = s \<and> rp' = rp \<and> dn' = dn \<and> ps' = ps \<longrightarrow> P n b waits k y", OF _ assms(1)], intro impI)
    fix f s' rp' dn' ps' n b waits k y
    assume IH: "\<And>s' rp' dn' ps' n b waits k y. f s' rp' dn' ps' n b waits k = Some y \<Longrightarrow>
        s' = s \<and> rp' = rp \<and> dn' = dn \<and> ps' = ps \<longrightarrow> P n b waits k y"
      and body: "(case publish_to_sink s' k ps' of
        (k', Inl e) \<Rightarrow>
          if 0 < rp_max_attempts rp' \<and> rp_max_attempts rp' \<le> int (n + 1)
          then Some (k', waits, Inl (ErrWrap (''publish failed after '' @ show_nat (n + 1) @ '' attempts: '') e))
          else case dn' (n + 1) of
               None \<Rightarrow> f s' rp' dn' ps' (n + 1) (next_backoff (rp_max rp') b) (waits @ [b]) k'
             | Some ce \<Rightarrow> Some (k', waits, Inl ce)
      | (k', Inr u) \<Rightarrow> Some (k', waits, ok)) = Some y"
      and eqs: "s' = s \<and> rp' = rp \<and> dn' = dn \<and> ps' = ps"
    obtain k' r where at: "publish_to_sink s k ps = (k', r)" by force
    show "P n b waits k y"
    proof (cases r)
      case (Inr u)
      then have "publish_to_sink s k ps = (k', ok)" using at by simp
      from sent [OF this] this show ?thesis using body eqs by auto
    next
      case (Inl e)
      note at' = at [unfolded Inl]
      show ?thesis
      proof (cases "out_of_attempts rp n")
        case True
        then have "y = (k', waits, Inl (attempts_error n e))"
          using body eqs at' by (auto simp: out_of_attempts_def attempts_error_def)
        then show ?thesis using limit [OF at' True] by simp
      next
        case False
        then have body': "(case dn (n + 1) of
               None \<Rightarrow> f s rp dn ps (n + 1) (next_backoff (rp_max rp) b) (waits @ [b]) k'
             | Some ce \<Rightarrow> Some (k', waits, Inl ce)) = Some y"
          using body eqs at' by (auto simp: out_of_attempts_def split: if_splits)
        show ?thesis
        proof (cases "dn (n + 1)")
          case (Some ce)
          then show ?thesis using body' cancelled [OF at' False Some] by auto
        next
          case None
          then show ?thesis using body' IH again [OF at' False None] by simp
        qed
      qed
    qed
  qed
  then show ?thesis by simp
qed

section \<open>Attempts, waits, returning\<close>

text \<open>The waits the policy prescribes from a backoff on.\<close>

fun backoffs :: "64 word \<Rightarrow> 64 word \<Rightarrow> nat \<Rightarrow> 64 word list" where
  "backoffs mx b 0 = []"
| "backoffs mx b (Suc j) = b # backoffs mx (next_backoff mx b) j"

lemma length_backoffs [simp]: "length (backoffs mx b j) = j"
  by (induction mx b j rule: backoffs.induct) simp_all

lemma retry_waits:
  "retry_from s rp dn ps n b waits k = Some (k', waits', r) \<Longrightarrow>
     \<exists>j. waits' = waits @ backoffs (rp_max rp) b j \<and>
       (rp_max_attempts rp > 0 \<longrightarrow> int (n + j) < max (rp_max_attempts rp) (int n + 1))"
proof (induction n b waits k "(k', waits', r)" arbitrary: k' waits' r rule: retry_induct)
  case (sent n b waits k k')
  then show ?case by (intro exI [of _ 0]) auto
next
  case (limit n b waits k k' e)
  then show ?case by (intro exI [of _ 0]) auto
next
  case (cancelled n b waits k k' e ce)
  then show ?case by (intro exI [of _ 0]) auto
next
  case (again n b waits k k1 e)
  then obtain j where "waits' = (waits @ [b]) @ backoffs (rp_max rp) (next_backoff (rp_max rp) b) j"
      "rp_max_attempts rp > 0 \<longrightarrow> int (n + 1 + j) < max (rp_max_attempts rp) (int (n + 1) + 1)"
    by blast
  with again(2) show ?case
    by (intro exI [of _ "Suc j"]) (auto simp: out_of_attempts_def)
qed

lemma retry_returns:
  assumes "rp_max_attempts rp > 0"
  shows "\<exists>res. retry_from s rp dn ps n b waits k = Some res"
proof (induction "nat (rp_max_attempts rp) - n" arbitrary: n b waits k)
  case 0
  then have "out_of_attempts rp n" using assms by (auto simp: out_of_attempts_def)
  then show ?case by (subst retry_from_unfold) (auto split: prod.splits sum.splits)
next
  case (Suc m)
  then have "m = nat (rp_max_attempts rp) - (n + 1)" by simp
  from Suc(1) [OF this] show ?case
    by (subst retry_from_unfold) (auto split: prod.splits sum.splits option.splits)
qed

lemma retry_never_returns:
  assumes "\<And>k. \<exists>k' e. publish_to_sink s k ps = (k', Inl e)" "rp_max_attempts rp \<le> 0" "\<And>n. dn n = None"
  shows "retry_from s rp dn ps n b waits k = None"
proof (rule ccontr)
  assume "retry_from s rp dn ps n b waits k \<noteq> None"
  then obtain res where "retry_from s rp dn ps n b waits k = Some res" by auto
  then have False
  proof (induction rule: retry_induct)
    case (sent n b waits k k')
    then show ?case using assms(1) [of k] by auto
  next
    case limit
    then show ?case using assms(2) by (simp add: out_of_attempts_def)
  next
    case cancelled
    then show ?case using assms(3) by simp
  qed
  then show False .
qed

lemma sint_double:
  fixes b :: "64 word"
  assumes "0 \<le> sint b" "sint b < 2 ^ 62"
  shows "sint (b * 2) = 2 * sint b"
proof -
  have "sint (b * 2) = signed_take_bit 63 (sint b * 2)"
    by (simp add: sint_word_ariths)
  also have "\<dots> = 2 * sint b"
    using assms by (subst signed_take_bit_int_eq_self) auto
  finally show ?thesis .
qed

lemma next_backoff_bounds:
  assumes "0 \<le> sint b" "sint b \<le> sint mx" "sint mx \<le> 2 ^ 62"
  shows "sint (next_backoff mx b) = min (2 * sint b) (sint mx)"
  using assms sint_double [of b] by (auto simp: next_backoff_def Let_def min_def)

lemma backoffs_bounds:
  assumes "0 \<le> sint b" "sint b \<le> sint mx" "sint mx \<le> 2 ^ 62" "i < j"
  shows "sint (backoffs mx b j ! i) = min (2 ^ i * sint b) (sint mx)"
  using assms
proof (induction mx b j arbitrary: i rule: backoffs.induct)
  case (1 mx b)
  then show ?case by simp
next
  case (2 mx b j)
  show ?case
  proof (cases i)
    case 0
    then show ?thesis using "2.prems" by simp
  next
    case (Suc i')
    have nb: "sint (next_backoff mx b) = min (2 * sint b) (sint mx)"
      using next_backoff_bounds "2.prems" by blast
    have "sint (backoffs mx (next_backoff mx b) j ! i') = min (2 ^ i' * min (2 * sint b) (sint mx)) (sint mx)"
      using "2.IH" [of i'] "2.prems" Suc nb by auto
    also have "\<dots> = min (2 ^ i * sint b) (sint mx)"
    proof (cases "2 * sint b \<le> sint mx")
      case True
      then show ?thesis by (simp add: Suc mult.assoc mult.left_commute)
    next
      case False
      have "sint mx \<le> 2 ^ i' * sint mx"
        using "2.prems" mult_right_mono [of 1 "2 ^ i'" "sint mx"] by simp
      moreover have "sint mx \<le> 2 ^ i * sint b"
        using False "2.prems"(1) mult_right_mono [of 1 "2 ^ i'" "2 * sint b"] by (simp add: Suc mult.assoc mult.left_commute)
      ultimately show ?thesis using False by (simp add: min_def)
    qed
    finally show ?thesis by (simp add: Suc)
  qed
qed

section \<open>What the loop delivers\<close>

context sink_contract
begin

lemma retry_delivers:
  "retry_from s rp dn ps n b waits k = Some (k', waits', r) \<Longrightarrow>
     \<exists>xs. set xs \<subseteq> set ps \<and> log k' = log k @ xs @ (if r = ok then ps else [])"
proof (induction n b waits k "(k', waits', r)" arbitrary: k' waits' r rule: retry_induct)
  case (sent n b waits k k')
  then show ?case using attempt_ok [of k ps k'] by (intro exI [of _ "[]"]) simp
next
  case (limit n b waits k k' e)
  then show ?case using attempt_err [of k ps k' e] by auto
next
  case (cancelled n b waits k k' e ce)
  then show ?case using attempt_err [of k ps k' e] by auto
next
  case (again n b waits k k1 e)
  obtain xs where "log k1 = log k @ xs" "set xs \<subseteq> set ps"
    using attempt_err [OF again(1)] by blast
  moreover obtain ys where "set ys \<subseteq> set ps" "log k' = log k1 @ ys @ (if r = ok then ps else [])"
    using again(4) by blast
  ultimately show ?case by (intro exI [of _ "xs @ ys"]) auto
qed

end

section \<open>Properties\<close>

text \<open>
  The retry loop on the file sink: when it returns without error, the last attempt has written
  every record of the batch, in order; an error means that nothing but records of this batch was
  written.  (The same holds for every sink that meets the contract.)
\<close>

theorem retry_delivers_the_batch:
  assumes "publish_batch_with_retry the_file_sink rp dn ps k = Some (k', waits, r)"
  shows "\<exists>xs. set xs \<subseteq> set ps \<and> fk_lines k' = fk_lines k @ xs @ (if r = ok then ps else [])"
  using assms unfolding publish_batch_with_retry_def by (rule file_snk.retry_delivers)

definition sample_retry :: retry_policy where
  "sample_retry = \<lparr>rp_initial = 5, rp_max = 8, rp_max_attempts = 3\<rparr>"

lemma sample_retry_run:
  "publish_batch_with_retry the_file_sink sample_retry (\<lambda>n. None) [''a''] (new_file [Some (0, ErrText ''x'')]) =
     Some ((new_file [])\<lparr>fk_open := True, fk_content := [CHR ''a'', NL], fk_lines := [''a'']\<rparr>, [5], ok)"
  unfolding publish_batch_with_retry_def
  by (subst retry_from_unfold, simp add: sample_retry_def publish_to_sink_def the_file_sink_def
      file_publish_batch_def fk_open_locked_def new_file_def fk_write_def out_of_attempts_def)
     (subst retry_from_unfold, simp add: publish_to_sink_def file_publish_batch_def fk_open_locked_def fk_write_def)

theorem retry_delivers_the_batch_witness:
  "\<exists>xs. set xs \<subseteq> {''a''} \<and> [''a''] = fk_lines (new_file [Some (0, ErrText ''x'')]) @ xs @ [''a'']"
  using retry_delivers_the_batch [OF sample_retry_run] by simp

text \<open>
  C24. The loop ends: with an attempt limit it returns after at most that many attempts (one more
  than the waits made), whatever the sink and the context do; without a limit it does not return as
  long as every attempt fails and the context lives.
\<close>

theorem retry_attempts_bounded:
  "(rp_max_attempts rp > 0 \<longrightarrow>
     (\<exists>k' waits r. publish_batch_with_retry s rp dn ps k = Some (k', waits, r) \<and>
        int (length waits + 1) \<le> rp_max_attempts rp))
   \<and> (rp_max_attempts rp \<le> 0 \<and> (\<forall>k. \<exists>k' e. publish_to_sink s k ps = (k', Inl e)) \<and> (\<forall>n. dn n = None) \<longrightarrow>
     publish_batch_with_retry s rp dn ps k = None)"
proof (intro conjI impI)
  assume lim: "rp_max_attempts rp > 0"
  obtain k' waits r where res: "retry_from s rp dn ps 0 (rp_initial rp) [] k = Some (k', waits, r)"
    using retry_returns [OF lim] by (metis prod_cases3)
  from retry_waits [OF this] lim have "int (length waits + 1) \<le> rp_max_attempts rp" by auto
  with res show "\<exists>k' waits r. publish_batch_with_retry s rp dn ps k = Some (k', waits, r) \<and>
      int (length waits + 1) \<le> rp_max_attempts rp"
    by (auto simp: publish_batch_with_retry_def)
next
  assume "rp_max_attempts rp \<le> 0 \<and> (\<forall>k. \<exists>k' e. publish_to_sink s k ps = (k', Inl e)) \<and> (\<forall>n. dn n = None)"
  then show "publish_batch_with_retry s rp dn ps k = None"
    unfolding publish_batch_with_retry_def by (intro retry_never_returns) auto
qed

definition broken_sink :: "nat sink" where
  "broken_sink = \<lparr>snk_publish = (\<lambda>k p. (k + 1, failing ''down'')), snk_batch = None\<rparr>"

theorem retry_attempts_bounded_witness:
  "(\<exists>k' waits r. publish_batch_with_retry broken_sink sample_retry (\<lambda>n. None) [''a''] 0 = Some (k', waits, r) \<and>
      int (length waits + 1) \<le> 3)
   \<and> publish_batch_with_retry broken_sink (sample_retry\<lparr>rp_max_attempts := 0\<rparr>) (\<lambda>n. None) [''a''] 0 = None"
proof -
  have fails: "\<exists>k' e. publish_to_sink broken_sink k [''a''] = (k', Inl e)" for k
    by (simp add: publish_to_sink_def broken_sink_def)
  show ?thesis
    using retry_attempts_bounded [of sample_retry broken_sink "\<lambda>n. None" "[''a'']" 0]
      retry_attempts_bounded [of "sample_retry\<lparr>rp_max_attempts := 0\<rparr>" broken_sink "\<lambda>n. None" "[''a'']" 0] fails
    by (simp add: sample_retry_def)
qed

text \<open>
  The waits grow exponentially up to the maximum: when the maximum is at most 2^62 ns (146 years)
  and the first backoff does not exceed it, wait number \<open>i\<close> is \<open>min (2^i * initial) max\<close>, so doubling
  never wraps around at 64 bits.
\<close>

theorem backoff_schedule:
  assumes "publish_batch_with_retry s rp dn ps k = Some (k', waits, r)"
    and "0 \<le> sint (rp_initial rp)" "sint (rp_initial rp) \<le> sint (rp_max rp)" "sint (rp_max rp) \<le> 2 ^ 62"
    and "i < length waits"
  shows "sint (waits ! i) = min (2 ^ i * sint (rp_initial rp)) (sint (rp_max rp))"
proof -
  obtain j where "waits = backoffs (rp_max rp) (rp_initial rp) j"
    using retry_waits [OF assms(1) [unfolded publish_batch_with_retry_def]] by auto
  then show ?thesis using assms(2-5) backoffs_bounds by simp
qed

theorem backoff_schedule_witness:
  "sint ([5 :: 64 word] ! 0) = min (2 ^ 0 * sint (rp_initial sample_retry)) (sint (rp_max sample_retry))"
  using backoff_schedule [OF sample_retry_run, of 0] by (simp add: sample_retry_def)

end
