(* ===== verification/Paths.thy ===== *)
theory Paths
  imports Prelude "HOL-Library.Sublist"
begin

text \<open>
  Slash-separated paths: \<open>filepath.Clean\<close>, \<open>Join\<close>, \<open>Base\<close>, \<open>Abs\<close> and \<open>Rel\<close> of Go's standard
  library as the program uses them on Unix, and the two path tests of \<open>internal/config/logging.go\<close>
  that keep the forwarder from tailing its own files.  The main fact relates \<open>pathInside\<close>, which
  inspects the text of a relative path, to the prefix order on path components.
\<close>

section \<open>Cleaning and joining\<close>

abbreviation SLASH :: char where
  "SLASH \<equiv> CHR ''/''"

text \<open>One element of \<open>filepath.Clean\<close>; the output is kept in reverse.\<close>

fun clean_step :: "bool \<Rightarrow> string list \<Rightarrow> string \<Rightarrow> string list" where
  "clean_step rooted out c =
     (if c = [] \<or> c = ''.'' then out
      else if c = ''..'' then
        (case out of
           [] \<Rightarrow> if rooted then [] else [''..'']
         | t # out' \<Rightarrow> if t = ''..'' then ''..'' # out else out')
      else c # out)"

definition is_rooted :: "string \<Rightarrow> bool" where
  "is_rooted p \<longleftrightarrow> has_prefix p ''/''"

text \<open>The elements of the cleaned path.\<close>

definition components :: "string \<Rightarrow> string list" where
  "components p = rev (foldl (clean_step (is_rooted p)) [] (go_split p ''/''))"

definition render_path :: "bool \<Rightarrow> string list \<Rightarrow> string" where
  "render_path rooted cs =
     (if rooted then SLASH # go_join ''/'' cs else if cs = [] then ''.'' else go_join ''/'' cs)"

definition fp_clean :: "string \<Rightarrow> string" where
  "fp_clean p = (if p = [] then ''.'' else render_path (is_rooted p) (components p))"

definition fp_join :: "string list \<Rightarrow> string" where
  "fp_join es = (let rest = dropWhile (\<lambda>e. e = []) es in if rest = [] then [] else fp_clean (go_join ''/'' rest))"

definition fp_base :: "string \<Rightarrow> string" where
  "fp_base p = (if p = [] then ''.''
     else (let t = rev (dropWhile (\<lambda>c. c = SLASH) (rev p)) in
           if t = [] then ''/'' else last (go_split t ''/'')))"

text \<open>\<open>filepath.Abs\<close>; \<open>cwd\<close> is the answer of \<open>os.Getwd\<close>.\<close>

definition fp_abs :: "string result \<Rightarrow> string \<Rightarrow> string result" where
  "fp_abs cwd p = (if is_rooted p then Inr (fp_clean p) else bind_res cwd (\<lambda>d. Inr (fp_join [d, p])))"

text \<open>
  \<open>filepath.Rel\<close> on the elements: drop the common ones, go up once per element left of the base.
  (A target "." keeps its element, as the library compares the texts.)
\<close>

fun drop_common :: "string list \<Rightarrow> string list \<Rightarrow> string list \<times> string list" where
  "drop_common (b # bs) (t # ts) = (if b = t then drop_common bs ts else (b # bs, t # ts))"
| "drop_common bs ts = (bs, ts)"

definition fp_rel :: "string \<Rightarrow> string \<Rightarrow> string result" where
  "fp_rel base targ =
     (let b = fp_clean base; t = fp_clean targ in
      if t = b then Inr ''.''
      else if is_rooted b \<noteq> is_rooted t then
        failing (''Rel: can't make '' @ targ @ '' relative to '' @ base)
      else
        (case drop_common (components base) (if t = ''.'' then [''.''] else components targ) of (bs, ts) \<Rightarrow>
           if bs \<noteq> [] \<and> ts \<noteq> [] \<and> hd bs = ''..'' then
             failing (''Rel: can't make '' @ targ @ '' relative to '' @ base)
           else Inr (go_join ''/'' (replicate (length bs) ''..'' @ ts))))"

section \<open>Path tests of the configuration\<close>

definition path_inside :: "string \<Rightarrow> string \<Rightarrow> bool" where
  "path_inside dir path =
     (let d = fp_clean dir; p = fp_clean path in
      if d = p then True
      else (case fp_rel d p of
          Inl e \<Rightarrow> False
        | Inr rel \<Rightarrow> rel \<noteq> ''..'' \<and> \<not> has_prefix rel ''../''))"

text \<open>\<open>filepath.Match\<close> is the argument \<open>fmatch\<close>: an error or whether the name matches.\<close>

definition log_file_matches_watch_pattern ::
  "(string \<Rightarrow> string \<Rightarrow> bool result) \<Rightarrow> string \<Rightarrow> string \<Rightarrow> string list \<Rightarrow> bool" where
  "log_file_matches_watch_pattern fmatch log_path watch_path patterns =
     (if \<not> path_inside watch_path log_path then False
      else list_ex (\<lambda>pat. fmatch pat (fp_base log_path) = Inr True) patterns)"

section \<open>Facts about elements\<close>

definition plain_elem :: "string \<Rightarrow> bool" where
  "plain_elem c \<longleftrightarrow> c \<noteq> [] \<and> c \<noteq> ''.'' \<and> c \<noteq> ''..'' \<and> SLASH \<notin> set c"

lemma split_single_parts: "\<lbrakk>x \<in> set (split_from [c] acc s); c \<notin> set acc\<rbrakk> \<Longrightarrow> c \<notin> set x"
  by (induction "[c]" acc s rule: split_from.induct) (auto simp: has_prefix_def split: if_splits)

lemma clean_fold_plain:
  assumes "\<forall>c \<in> set cs. SLASH \<notin> set c" "\<forall>c \<in> set out. plain_elem c"
  shows "\<forall>c \<in> set (foldl (clean_step True) out cs). plain_elem c"
  using assms
proof (induction cs arbitrary: out)
  case Nil
  then show ?case by simp
next
  case (Cons c cs)
  have "\<forall>c \<in> set (clean_step True out c). plain_elem c"
    using Cons.prems by (auto simp: plain_elem_def split: list.splits if_splits)
  then show ?case using Cons by simp
qed

lemma components_plain: "is_rooted p \<Longrightarrow> list_all plain_elem (components p)"
  using clean_fold_plain [of "go_split p ''/''" "[]"] split_single_parts [of _ SLASH "[]" p]
  by (simp add: components_def list_all_iff go_split_def)

lemma clean_fold_id:
  "list_all plain_elem cs \<Longrightarrow> foldl (clean_step r) out cs = rev cs @ out"
  by (induction cs arbitrary: out) (auto simp: plain_elem_def)

lemma is_rooted_Cons [simp]: "is_rooted (c # p) \<longleftrightarrow> c = SLASH" "\<not> is_rooted []"
  by (simp_all add: is_rooted_def has_prefix_def)

lemma components_render:
  assumes "list_all plain_elem cs"
  shows "components (SLASH # go_join ''/'' cs) = cs"
proof -
  have parts: "\<forall>c \<in> set ([] # cs). SLASH \<notin> set c"
    using assms by (auto simp: list_all_iff plain_elem_def)
  have "cs \<noteq> [] \<Longrightarrow> go_split (SLASH # go_join ''/'' cs) ''/'' = [] # cs"
    using go_split_join [OF parts] by (simp add: go_join_Cons)
  moreover have "cs = [] \<Longrightarrow> go_split (SLASH # go_join ''/'' cs) ''/'' = [[], []]"
    by (simp add: go_split_def has_prefix_def)
  ultimately have "foldl (clean_step True) [] (go_split (SLASH # go_join ''/'' cs) ''/'') = rev cs"
    using clean_fold_id [OF assms, of True "[]"] by (cases "cs = []") simp_all
  then show ?thesis by (simp add: components_def)
qed

lemma clean_rooted:
  assumes "is_rooted p"
  shows "fp_clean p = SLASH # go_join ''/'' (components p)" "is_rooted (fp_clean p)"
    "components (fp_clean p) = components p"
proof -
  have p: "p \<noteq> []" using assms by auto
  with assms show 1: "fp_clean p = SLASH # go_join ''/'' (components p)"
    by (simp add: fp_clean_def render_path_def)
  then show "is_rooted (fp_clean p)" by simp
  show "components (fp_clean p) = components p"
    unfolding 1 by (rule components_render) (rule components_plain [OF assms])
qed

lemma clean_eq_iff:
  "\<lbrakk>is_rooted p; is_rooted q\<rbrakk> \<Longrightarrow> fp_clean p = fp_clean q \<longleftrightarrow> components p = components q"
  by (metis clean_rooted(1) clean_rooted(3))

lemma clean_idem [simp]: "is_rooted p \<Longrightarrow> fp_clean (fp_clean p) = fp_clean p"
  using clean_eq_iff [of "fp_clean p" p] clean_rooted(2,3) by simp

lemma drop_common_spec:
  "drop_common bs ts = (bs', ts') \<Longrightarrow> \<exists>cs. bs = cs @ bs' \<and> ts = cs @ ts' \<and>
     (bs' = [] \<or> ts' = [] \<or> hd bs' \<noteq> hd ts')"
proof (induction bs ts rule: drop_common.induct)
  case (1 b bs t ts)
  show ?case
  proof (cases "b = t")
    case True
    then obtain cs where "bs = cs @ bs'" "ts = cs @ ts'" "bs' = [] \<or> ts' = [] \<or> hd bs' \<noteq> hd ts'"
      using 1 by auto
    with True show ?thesis by (intro exI [of _ "b # cs"]) simp
  qed (use 1 in auto)
qed auto

lemma drop_common_prefix: "fst (drop_common bs ts) = [] \<longleftrightarrow> prefix bs ts"
  by (induction bs ts rule: drop_common.induct) auto

lemma join_dotdot: "xs \<noteq> [] \<Longrightarrow> hd xs = ''..'' \<Longrightarrow> go_join ''/'' xs = ''..'' \<or> has_prefix (go_join ''/'' xs) ''../''"
  by (cases xs; cases "tl xs") (auto simp: go_join_Cons has_prefix_def)

lemma join_not_dotdot:
  assumes "xs \<noteq> []" "list_all plain_elem xs"
  shows "go_join ''/'' xs \<noteq> ''..'' \<and> \<not> has_prefix (go_join ''/'' xs) ''../''"
proof -
  have "go_split (go_join ''/'' xs) ''/'' = xs"
    using assms by (intro go_split_join) (auto simp: list_all_iff plain_elem_def)
  then have h: "hd (go_split (go_join ''/'' xs) ''/'') \<noteq> ''..''"
    using assms by (cases xs) (auto simp: plain_elem_def)
  have "go_split ''..'' ''/'' = [''..'']"
    by (simp add: go_split_def has_prefix_def)
  moreover have "hd (go_split (''../'' @ r) ''/'') = ''..''" for r
    by (simp add: go_split_def has_prefix_def)
  ultimately show ?thesis
    using h has_prefix_append [of "go_join ''/'' xs" "''../''"] by (metis list.sel(1))
qed

text \<open>The main fact.\<close>

lemma path_inside_prefix:
  assumes "is_rooted dir" "is_rooted path"
  shows "path_inside dir path \<longleftrightarrow> prefix (components dir) (components path)"
proof (cases "components dir = components path")
  case True
  then show ?thesis using assms by (simp add: path_inside_def clean_eq_iff)
next
  case False
  obtain bs ts where dc: "drop_common (components dir) (components path) = (bs, ts)" by force
  from drop_common_spec [OF this] obtain cs where
    cs: "components dir = cs @ bs" "components path = cs @ ts" by blast
  have pl: "list_all plain_elem bs" "list_all plain_elem ts"
    using components_plain [OF assms(1)] components_plain [OF assms(2)] cs by simp_all
  have neq: "fp_clean dir \<noteq> fp_clean path" "fp_clean path \<noteq> ''.''"
    using False clean_eq_iff [OF assms] clean_rooted(1) [OF assms(2)] by auto
  have ndd: "\<not> (bs \<noteq> [] \<and> ts \<noteq> [] \<and> hd bs = ''..'')"
    using pl by (cases bs) (auto simp: plain_elem_def)
  have rel: "fp_rel (fp_clean dir) (fp_clean path) = Inr (go_join ''/'' (replicate (length bs) ''..'' @ ts))"
    using neq ndd assms dc by (auto simp add: fp_rel_def Let_def clean_rooted(2,3))
  show ?thesis
  proof (cases bs)
    case Nil
    then have "ts \<noteq> []" using False cs by auto
    with Nil have "path_inside dir path"
      using join_not_dotdot [of ts] pl neq rel by (simp add: path_inside_def Let_def)
    with Nil dc show ?thesis using drop_common_prefix [of "components dir" "components path"] by simp
  next
    case (Cons b bs')
    then have "\<not> path_inside dir path"
      using join_dotdot [of "replicate (length bs) ''..'' @ ts"] neq rel by (auto simp: path_inside_def Let_def)
    with Cons dc show ?thesis using drop_common_prefix [of "components dir" "components path"] by simp
  qed
qed

text \<open>Joining a directory and a plain name.\<close>

lemma components_snoc:
  assumes "plain_elem n"
  shows "components (d @ SLASH # n) = (if d = [] then [n] else components d @ [n])"
proof -
  have n: "n \<noteq> []" "SLASH \<notin> set n" using assms by (auto simp: plain_elem_def)
  have parts: "\<forall>p \<in> set (go_split d ''/'' @ [n]). SLASH \<notin> set p"
    using split_single_parts [of _ SLASH "[]" d] n by (auto simp: go_split_def)
  have "go_join ''/'' (go_split d ''/'' @ [n]) = d @ SLASH # n"
    by (simp add: go_join_snoc join_split)
  then have "go_split (d @ SLASH # n) ''/'' = go_split d ''/'' @ [n]"
    using go_split_join [OF parts] by simp
  moreover have "d \<noteq> [] \<Longrightarrow> is_rooted (d @ SLASH # n) = is_rooted d" by (cases d) auto
  ultimately show ?thesis
    using assms by (auto simp: components_def plain_elem_def go_split_def)
qed

lemma join_under:
  assumes "plain_elem n"
  shows "fp_join [d, n] = render_path (is_rooted d) (components d @ [n])"
proof (cases "d = []")
  case True
  have n: "n \<noteq> []" "SLASH \<notin> set n" using assms by (auto simp: plain_elem_def)
  then have "go_split n ''/'' = [n]" using go_split_join [of "[n]" SLASH] by simp
  moreover have "\<not> is_rooted n" using n by (cases n) auto
  ultimately show ?thesis
    using True assms by (simp add: fp_join_def fp_clean_def components_def plain_elem_def go_split_def [of "[]"])
next
  case False
  have n: "n \<noteq> []" using assms by (auto simp: plain_elem_def)
  have "is_rooted (d @ SLASH # n) = is_rooted d" using False by (cases d) auto
  then show ?thesis using False n components_snoc [OF assms, of d] by (simp add: fp_join_def fp_clean_def)
qed

lemma join_under_inject:
  assumes "plain_elem m" "plain_elem n"
  shows "fp_join [d, m] = fp_join [d, n] \<longleftrightarrow> m = n"
  using join_under [OF assms(1)] join_under [OF assms(2)]
  by (cases "components d = []") (auto simp: render_path_def go_join_snoc)

section \<open>Properties\<close>

text \<open>
  The test that a path lies inside a directory, which compares the text of a relative path with
  "..", decides exactly whether the elements of the one path extend the elements of the other: for
  absolute paths "/var/log" contains "/var/log/a" and "/var/log/../log/a" but not "/var/log2/a".
\<close>

theorem path_inside_is_component_prefix:
  assumes "is_rooted dir" "is_rooted path"
  shows "path_inside dir path \<longleftrightarrow> prefix (components dir) (components path)"
  using assms by (rule path_inside_prefix)

theorem path_inside_is_component_prefix_witness:
  "path_inside ''/var/log'' ''/var/log/../log/a'' \<and> \<not> path_inside ''/var/log'' ''/var/log2/a''"
proof -
  have "components ''/var/log'' = [''var'', ''log'']" "components ''/var/log/../log/a'' = [''var'', ''log'', ''a'']"
      "components ''/var/log2/a'' = [''var'', ''log2'', ''a'']"
    by (simp_all add: components_def go_split_def has_prefix_def)
  then show ?thesis
    using path_inside_is_component_prefix [of "''/var/log''" "''/var/log/../log/a''"]
      path_inside_is_component_prefix [of "''/var/log''" "''/var/log2/a''"] by simp
qed

end
