(* ===== verification/DeadLetter.thy ===== *)
theory DeadLetter
  imports Watermark Paths
begin

text \<open>
  Dead letters (\<open>internal/deadletter\<close>): one JSON-lines file per batch that could not be published,
  written under a temporary name and renamed, with its metadata beside it, and the listing that
  \<open>/deadletters\<close> serves.  The disk is the one of the watermark store; every call of the operating
  system may fail, and an operation returns the disks it goes through.
\<close>

section \<open>Metadata\<close>

text \<open>\<open>Entry\<close> and \<open>WriteInfo\<close>.\<close>

record dl_entry =
  de_filename :: string
  de_created_at :: string
  de_event_count :: int
  de_bytes :: int
  de_failure_reason :: string
  de_sink_type :: string
  de_batch_attempts :: int

record write_info =
  wi_failure_reason :: string
  wi_sink_type :: string
  wi_batch_attempts :: int

definition meta_path :: "string \<Rightarrow> string \<Rightarrow> string" where
  "meta_path dir filename = fp_join [dir, filename @ ''.meta.json'']"

text \<open>\<open>json.Marshal\<close> of a struct of strings and integers: the members in the order of the fields.\<close>

definition scalar_text :: "jval \<Rightarrow> bytes" where
  "scalar_text v = (case v of JStr s \<Rightarrow> json_string s | JNum lit \<Rightarrow> lit | _ \<Rightarrow> ''null'')"

definition encode_member :: "bytes \<times> jval \<Rightarrow> bytes" where
  "encode_member kv = json_string (fst kv) @ CHR '':'' # scalar_text (snd kv)"

definition encode_struct :: "(bytes \<times> jval) list \<Rightarrow> bytes" where
  "encode_struct ms = CHR ''{'' # go_join '','' (map encode_member ms) @ ''}''"

definition entry_struct :: "dl_entry \<Rightarrow> (bytes \<times> jval) list" where
  "entry_struct e =
     [(''filename'', JStr (de_filename e)),
      (''created_at'', JStr (de_created_at e)),
      (''event_count'', JNum (show_int (de_event_count e))),
      (''bytes'', JNum (show_int (de_bytes e))),
      (''failure_reason'', JStr (de_failure_reason e)),
      (''sink_type'', JStr (de_sink_type e)),
      (''batch_attempts'', JNum (show_int (de_batch_attempts e)))]"

definition encode_dl_entry :: "dl_entry \<Rightarrow> bytes" where
  "encode_dl_entry e = encode_struct (entry_struct e)"

text \<open>\<open>json.Unmarshal\<close> into the struct.\<close>

definition zero_dl_entry :: dl_entry where
  "zero_dl_entry = \<lparr>de_filename = [], de_created_at = [], de_event_count = 0, de_bytes = 0,
     de_failure_reason = [], de_sink_type = [], de_batch_attempts = 0\<rparr>"

definition decode_str :: "(string \<Rightarrow> 'e) \<Rightarrow> 'e \<Rightarrow> jval \<Rightarrow> 'e option" where
  "decode_str upd e v = (case v of JNull \<Rightarrow> Some e | JStr s \<Rightarrow> Some (upd s) | _ \<Rightarrow> None)"

definition decode_int :: "(int \<Rightarrow> 'e) \<Rightarrow> 'e \<Rightarrow> jval \<Rightarrow> 'e option" where
  "decode_int upd e v = (case v of
      JNull \<Rightarrow> Some e | JNum lit \<Rightarrow> map_option upd (parse_int64 lit) | _ \<Rightarrow> None)"

definition decode_dl_field :: "bytes \<times> jval \<Rightarrow> dl_entry \<Rightarrow> dl_entry option" where
  "decode_dl_field kv e = (case kv of (k, v) \<Rightarrow>
     if field_matches k ''filename'' then decode_str (\<lambda>s. e\<lparr>de_filename := s\<rparr>) e v
     else if field_matches k ''created_at'' then decode_str (\<lambda>s. e\<lparr>de_created_at := s\<rparr>) e v
     else if field_matches k ''event_count'' then decode_int (\<lambda>i. e\<lparr>de_event_count := i\<rparr>) e v
     else if field_matches k ''bytes'' then decode_int (\<lambda>i. e\<lparr>de_bytes := i\<rparr>) e v
     else if field_matches k ''failure_reason'' then decode_str (\<lambda>s. e\<lparr>de_failure_reason := s\<rparr>) e v
     else if field_matches k ''sink_type'' then decode_str (\<lambda>s. e\<lparr>de_sink_type := s\<rparr>) e v
     else if field_matches k ''batch_attempts'' then decode_int (\<lambda>i. e\<lparr>de_batch_attempts := i\<rparr>) e v
     else Some e)"

definition decode_dl_entry :: "bytes \<Rightarrow> dl_entry option" where
  "decode_dl_entry data = Option.bind (json_parse data) (\<lambda>v. case v of
      JNull \<Rightarrow> Some zero_dl_entry
    | JObj ms \<Rightarrow> fold_opt decode_dl_field ms zero_dl_entry
    | _ \<Rightarrow> None)"

definition write_meta ::
  "(go_error \<times> nat option) option \<Rightarrow> string \<Rightarrow> string \<Rightarrow> dl_entry \<Rightarrow> disk \<Rightarrow> disk list \<times> check" where
  "write_meta fault dir filename entry d =
     (let data = encode_dl_entry entry;
          meta = meta_path dir (trim_suffix filename ''.jsonl'') in
      case fault of
        None \<Rightarrow> (write_trace meta data (length data) d, ok)
      | Some (e, None) \<Rightarrow> ([], Inl (ErrWrap ''write dead letter metadata: '' e))
      | Some (e, Some k) \<Rightarrow> (write_trace meta data k d, Inl (ErrWrap ''write dead letter metadata: '' e)))"

section \<open>Writing a batch\<close>

text \<open>
  What the operating system, the clock and the random source answer during one \<open>WriteBatch\<close>; a
  write that is not in the list succeeds.
\<close>

record dl_env =
  dle_mkdir :: "go_error option"
  dle_stamp :: string
  dle_id :: string
  dle_open :: "go_error option"
  dle_writes :: "(nat \<times> go_error) option list"
  dle_close :: "go_error option"
  dle_rename :: "go_error option"
  dle_now :: string
  dle_meta :: "(go_error \<times> nat option) option"
  dle_remove_fails :: bool

text \<open>
  \<open>batchID\<close>: four random bytes in hexadecimal, or the clock in nanoseconds when the random source fails.
  \<open>dle_id\<close> is what it returned.
\<close>

definition batch_id :: "nat list result \<Rightarrow> int \<Rightarrow> string" where
  "batch_id rnd unix_nano =
     (case rnd of
        Inl e \<Rightarrow> show_int unix_nano
      | Inr bs \<Rightarrow> concat (map (\<lambda>b. [hex_digit (b div 16), hex_digit (b mod 16)]) bs))"

definition batch_filename :: "dl_env \<Rightarrow> string" where
  "batch_filename env = dle_stamp env @ ''_'' @ dle_id env @ ''.jsonl''"

text \<open>One \<open>Write\<close> to an open file, byte by byte: all of the data, or its first \<open>n\<close> bytes and an error.\<close>

definition append_trace :: "string \<Rightarrow> bytes \<Rightarrow> nat \<Rightarrow> disk \<Rightarrow> disk list" where
  "append_trace p data k d =
     map (\<lambda>j. d(p \<mapsto> (case d p of None \<Rightarrow> [] | Some c \<Rightarrow> c) @ take j data)) [0..<Suc k]"

definition f_write :: "string \<Rightarrow> (nat \<times> go_error) option list \<Rightarrow> bytes \<Rightarrow> disk \<Rightarrow> disk list \<times> check" where
  "f_write p answers data d = (case answers of
      Some (n, e) # rest \<Rightarrow> (append_trace p data n d, Inl e)
    | _ \<Rightarrow> (append_trace p data (length data) d, ok))"

fun write_payloads ::
  "string \<Rightarrow> (nat \<times> go_error) option list \<Rightarrow> bytes list \<Rightarrow> disk \<Rightarrow> disk list \<times> nat \<times> check" where
  "write_payloads tmp answers [] d = ([], 0, ok)"
| "write_payloads tmp answers (p # ps) d =
     (case f_write tmp answers p d of
        (ds, Inl e) \<Rightarrow> (ds, 0, Inl (ErrWrap ''write dead letter record: '' e))
      | (ds, Inr u) \<Rightarrow>
          (case f_write tmp (drop 1 answers) [NL] (last (d # ds)) of
             (ds1, Inl e) \<Rightarrow> (ds @ ds1, 0, Inl (ErrWrap ''write dead letter newline: '' e))
           | (ds1, Inr u) \<Rightarrow>
               (case write_payloads tmp (drop 2 answers) ps (last (d # ds @ ds1)) of
                  (ds2, n, r) \<Rightarrow> (ds @ ds1 @ ds2, length p + 1 + n, r))))"

definition remove_file :: "dl_env \<Rightarrow> string \<Rightarrow> disk \<Rightarrow> disk list" where
  "remove_file env p d = (if dle_remove_fails env then [] else [d(p := None)])"

definition new_entry :: "dl_env \<Rightarrow> bytes list \<Rightarrow> write_info \<Rightarrow> nat \<Rightarrow> dl_entry" where
  "new_entry env ps info n =
     \<lparr>de_filename = batch_filename env, de_created_at = dle_now env, de_event_count = int (length ps),
      de_bytes = int n, de_failure_reason = wi_failure_reason info, de_sink_type = wi_sink_type info,
      de_batch_attempts = wi_batch_attempts info\<rparr>"

definition commit_batch ::
  "dl_env \<Rightarrow> string \<Rightarrow> bytes list \<Rightarrow> write_info \<Rightarrow> nat \<Rightarrow> disk \<Rightarrow> disk list \<times> (string \<times> nat) result" where
  "commit_batch env dir ps info n d =
     (let fn = batch_filename env; tmp = fp_join [dir, fn @ ''.tmp'']; final = fp_join [dir, fn] in
      case dle_close env of
        Some e \<Rightarrow> (remove_file env tmp d, Inl (ErrWrap ''close dead letter file: '' e))
      | None \<Rightarrow>
          (case dle_rename env of
             Some e \<Rightarrow> (remove_file env tmp d, Inl (ErrWrap ''commit dead letter file: '' e))
           | None \<Rightarrow>
               (let d1 = rename_disk tmp final d in
                case write_meta (dle_meta env) dir fn (new_entry env ps info n) d1 of
                  (ms, Inl e) \<Rightarrow> (d1 # ms @ remove_file env final (last (d1 # ms)), Inl e)
                | (ms, Inr u) \<Rightarrow> (d1 # ms, Inr (fn, n)))))"

definition write_batch ::
  "dl_env \<Rightarrow> string \<Rightarrow> bytes list \<Rightarrow> write_info \<Rightarrow> disk \<Rightarrow> disk list \<times> (string \<times> nat) result" where
  "write_batch env dir ps info d =
     (if length ps = 0 then ([], failing ''empty batch'')
      else
        (case dle_mkdir env of
           Some e \<Rightarrow> ([], Inl (ErrWrap ''create dead letter directory: '' e))
         | None \<Rightarrow>
             (let tmp = fp_join [dir, batch_filename env @ ''.tmp''] in
              case (case dle_open env of Some e \<Rightarrow> Some e
                    | None \<Rightarrow> if d tmp \<noteq> None then Some (ErrText ''file exists'') else None) of
                Some e \<Rightarrow> ([], Inl (ErrWrap ''create dead letter file: '' e))
              | None \<Rightarrow>
                  (let d1 = d(tmp \<mapsto> []) in
                   case write_payloads tmp (dle_writes env) ps d1 of
                     (ds, n, Inl e) \<Rightarrow> (d1 # ds @ remove_file env tmp (last (d1 # ds)), Inl e)
                   | (ds, n, Inr u) \<Rightarrow>
                       (case commit_batch env dir ps info n (last (d1 # ds)) of
                          (cs, r) \<Rightarrow> (d1 # ds @ cs, r))))))"

section \<open>Listing\<close>

text \<open>
  Answers during a listing: the names in the directory with whether each is a directory (\<open>Inl None\<close>:
  the directory does not exist), read and stat errors, modification times, and the text of the
  decoder's error.
\<close>

record list_env =
  le_dir :: "go_error option + (string \<times> bool) list"
  le_read :: "string \<Rightarrow> go_error option"
  le_info :: "string \<Rightarrow> go_error option"
  le_mod_time :: "string \<Rightarrow> string"
  le_json_error :: go_error

definition read_file :: "list_env \<Rightarrow> disk \<Rightarrow> string \<Rightarrow> bytes result" where
  "read_file env d p = (case le_read env p of
      Some e \<Rightarrow> Inl e
    | None \<Rightarrow> (case d p of None \<Rightarrow> failing ''no such file or directory'' | Some b \<Rightarrow> Inr b))"

definition count_jsonl_lines :: "list_env \<Rightarrow> disk \<Rightarrow> string \<Rightarrow> nat result" where
  "count_jsonl_lines env d p =
     (case read_file env d p of
        Inl e \<Rightarrow> Inl (ErrWrap (''read '' @ quoted (fp_base p) @ '': '') e)
      | Inr data \<Rightarrow>
          if length data = 0 then Inr 0
          else Inr (length (go_split (trim_suffix data [NL]) [NL])))"

definition entry_for_file :: "list_env \<Rightarrow> string \<Rightarrow> string \<Rightarrow> disk \<Rightarrow> dl_entry result" where
  "entry_for_file env dir filename d =
     (case read_file env d (meta_path dir (trim_suffix filename ''.jsonl'')) of
        Inr data \<Rightarrow>
          (case decode_dl_entry data of
             None \<Rightarrow> Inl (ErrWrap (''parse metadata for '' @ quoted filename @ '': '') (le_json_error env))
           | Some entry \<Rightarrow> Inr (if de_filename entry = [] then entry\<lparr>de_filename := filename\<rparr> else entry))
      | Inl e \<Rightarrow>
          (case le_info env filename of
             Some e \<Rightarrow> Inl (ErrWrap (''stat '' @ quoted filename @ '': '') e)
           | None \<Rightarrow>
               bind_res (count_jsonl_lines env d (fp_join [dir, filename])) (\<lambda>n.
                 Inr (zero_dl_entry\<lparr>de_filename := filename, de_created_at := le_mod_time env filename,
                   de_event_count := int n,
                   de_bytes := int (length (case d (fp_join [dir, filename]) of None \<Rightarrow> [] | Some c \<Rightarrow> c))\<rparr>))))"

definition committed_name :: "string \<times> bool \<Rightarrow> bool" where
  "committed_name ent = (case ent of (name, is_dir) \<Rightarrow>
     if is_dir then False
     else if \<not> has_suffix name ''.jsonl'' \<or> contains name ''.tmp'' then False
     else fp_base name = name)"

fun list_files :: "list_env \<Rightarrow> string \<Rightarrow> (string \<times> bool) list \<Rightarrow> disk \<Rightarrow> dl_entry list result" where
  "list_files env dir [] d = Inr []"
| "list_files env dir (ent # ents) d =
     (if \<not> committed_name ent then list_files env dir ents d
      else bind_res (entry_for_file env dir (fst ent) d) (\<lambda>e.
           bind_res (list_files env dir ents d) (\<lambda>es. Inr (e # es))))"

definition list_entries :: "list_env \<Rightarrow> string \<Rightarrow> disk \<Rightarrow> dl_entry list result" where
  "list_entries env dir d =
     (if dir = [] then Inr []
      else (case le_dir env of
          Inl None \<Rightarrow> Inr []
        | Inl (Some e) \<Rightarrow> Inl (ErrWrap ''read dead letter directory: '' e)
        | Inr ents \<Rightarrow> list_files env dir ents d))"

text \<open>\<open>ValidateWritable\<close>; the answers of \<open>Abs\<close>, \<open>MkdirAll\<close>, \<open>WriteFile\<close> and \<open>Remove\<close>.\<close>

definition validate_writable ::
  "string result \<Rightarrow> (string \<Rightarrow> check) \<Rightarrow> (string \<Rightarrow> check) \<Rightarrow> (string \<Rightarrow> check) \<Rightarrow> string \<Rightarrow> check" where
  "validate_writable cwd mkdir writef removef path =
     (if path = [] then failing ''path is required''
      else
        (case fp_abs cwd path of
           Inl e \<Rightarrow> Inl (ErrWrap ''resolve path: '' e)
         | Inr abs_path \<Rightarrow>
             (case mkdir abs_path of
                Inl e \<Rightarrow> Inl (ErrWrap ''create directory: '' e)
              | Inr u \<Rightarrow>
                  (let probe = fp_join [abs_path, ''.write-probe''] in
                   case writef probe of
                     Inl e \<Rightarrow> Inl (ErrWrap ''write probe file: '' e)
                   | Inr u \<Rightarrow>
                       (case removef probe of
                          Inl e \<Rightarrow> Inl (ErrWrap ''remove probe file: '' e)
                        | Inr u \<Rightarrow> ok)))))"

section \<open>The metadata round trip\<close>

definition plain_scalar :: "jval \<Rightarrow> bool" where
  "plain_scalar v \<longleftrightarrow> (\<exists>s. v = JStr s \<and> utf8_valid s) \<or> (\<exists>i. v = JNum (show_int i))"

lemma number_end_brace [simp]: "number_end CHR ''}''"
  by (simp add: number_end_def is_digit_def)

lemma parse_scalar:
  assumes "plain_scalar v" "number_end c"
  shows "parse_value (Suc n) (scalar_text v @ c # t) = Some (v, c # t)"
proof (cases v)
  case (JStr s)
  then have "utf8_valid s" using assms by (auto simp: plain_scalar_def)
  from parse_json_string [OF this, of "c # t"] show ?thesis
    by (simp add: JStr scalar_text_def Let_def) (simp add: json_string_def)
next
  case (JNum lit)
  then obtain i where "lit = show_int i" using assms by (auto simp: plain_scalar_def)
  then show ?thesis
    using parse_value_show_int [OF assms(2), of n i t]
    by (simp add: JNum scalar_text_def parse_value_ws)
qed (use assms in \<open>auto simp: plain_scalar_def\<close>)

lemma parse_struct_members:
  assumes "ms \<noteq> []" "\<forall>kv \<in> set ms. utf8_valid (fst kv) \<and> plain_scalar (snd kv)" "length ms < n"
  shows "parse_members n (go_join '','' (map encode_member ms) @ CHR ''}'' # t) = Some (ms, t)"
  using assms
proof (induction ms arbitrary: n)
  case Nil
  then show ?case by simp
next
  case (Cons kv ms)
  obtain k v where kv: "kv = (k, v)" by force
  obtain m where n: "n = Suc m" "length ms < m" using Cons.prems(3) by (cases n) auto
  then obtain n' where m: "m = Suc n'" by (cases m) auto
  have key: "parse_string (json_string k @ r) = Some (k, r)" for r
    using Cons.prems kv parse_json_string by simp
  have val: "number_end c \<Longrightarrow> parse_value m (scalar_text v @ c # r) = Some (v, c # r)" for c r
    unfolding m using Cons.prems kv by (intro parse_scalar) auto
  show ?case
  proof (cases "ms = []")
    case True
    then show ?thesis
      unfolding n(1) kv using key val [of "CHR ''}''" t]
      by (simp add: encode_member_def [of "(k, v)"] del: parse_value.simps)
  next
    case False
    have "parse_members m (go_join '','' (map encode_member ms) @ CHR ''}'' # t) = Some (ms, t)"
      using Cons.IH [OF False _ n(2)] Cons.prems by simp
    with False show ?thesis
      unfolding n(1) kv using key val [of "CHR '',''"]
      by (simp add: encode_member_def [of "(k, v)"] go_join_Cons del: parse_value.simps)
  qed
qed

lemma parse_struct_trailing:
  assumes "ms \<noteq> []" "\<forall>kv \<in> set ms. utf8_valid (fst kv) \<and> plain_scalar (snd kv)" "skip_ws t = []"
  shows "json_parse (encode_struct ms @ t) = Some (JObj ms)"
proof -
  let ?body = "go_join '','' (map encode_member ms)" and ?n = "2 * length (encode_struct ms @ t)"
  have "length (map encode_member ms) \<le> length ?body"
    by (rule length_go_join_ge) (auto simp: encode_member_def)
  then have len: "length ms < ?n" by (simp add: encode_struct_def)
  obtain k v ms' where ms: "ms = (k, v) # ms'" using assms(1) by (cases ms) auto
  have head: "\<exists>r. skip_ws (?body @ CHR ''}'' # t) = DQUOTE # r"
    by (cases "ms' = []") (simp_all add: ms go_join_Cons encode_member_def json_string_def)
  have "parse_members ?n (?body @ CHR ''}'' # t) = Some (ms, t)"
    using parse_struct_members [OF assms(1,2) len] .
  with head have "parse_value (?n + 1) (encode_struct ms @ t) = Some (JObj ms, t)"
    by (auto simp: encode_struct_def Let_def)
  then show ?thesis using assms(3) by (simp add: json_parse_def)
qed

lemma parse_struct:
  assumes "ms \<noteq> []" "\<forall>kv \<in> set ms. utf8_valid (fst kv) \<and> plain_scalar (snd kv)"
  shows "json_parse (encode_struct ms) = Some (JObj ms)"
  using parse_struct_trailing [OF assms, of "[]"] by simp

definition dl_storable :: "dl_entry \<Rightarrow> bool" where
  "dl_storable e \<longleftrightarrow> list_all utf8_valid [de_filename e, de_created_at e, de_failure_reason e, de_sink_type e]
     \<and> list_all (\<lambda>i. - (2 ^ 63) \<le> i \<and> i < 2 ^ 63) [de_event_count e, de_bytes e, de_batch_attempts e]"

lemma utf8_valid_names:
  "utf8_valid ''filename''" "utf8_valid ''created_at''" "utf8_valid ''event_count''" "utf8_valid ''bytes''"
  "utf8_valid ''failure_reason''" "utf8_valid ''sink_type''" "utf8_valid ''batch_attempts''"
  by (auto intro!: utf8_valid_ascii)

lemma fold_rune_lower: "\<lbrakk>r = 95 \<or> 97 \<le> r \<and> r < 123; q = 95 \<or> 97 \<le> q \<and> q < 123\<rbrakk> \<Longrightarrow> fold_rune r = fold_rune q \<longleftrightarrow> r = q"
  by (auto simp: fold_rune_def)

text \<open>A name of lower-case letters and underscores.\<close>

definition lower_name :: "string \<Rightarrow> bool" where
  "lower_name s \<longleftrightarrow> list_all (\<lambda>c. byte_val c = 95 \<or> 97 \<le> byte_val c \<and> byte_val c < 123) s"

lemma lower_name_matches:
  assumes "lower_name a" "lower_name b"
  shows "field_matches a b \<longleftrightarrow> a = b"
proof -
  have runes: "lower_name s \<Longrightarrow> runes_of s = map byte_val s" for s
    by (induction s) (auto simp: lower_name_def runes_of_def)
  have inj: "inj_on fold_rune (set (map byte_val a) \<union> set (map byte_val b))"
    using assms by (intro inj_onI) (auto simp: lower_name_def list_all_iff fold_rune_lower)
  show ?thesis
    unfolding field_matches_def runes [OF assms(1)] runes [OF assms(2)] inj_on_map_eq_map [OF inj]
    by (rule inj_map_eq_map) (auto intro!: injI)
qed

lemma lower_names [simp]:
  "lower_name ''filename''" "lower_name ''created_at''" "lower_name ''event_count''" "lower_name ''bytes''"
  "lower_name ''failure_reason''" "lower_name ''sink_type''" "lower_name ''batch_attempts''"
  by (simp_all add: lower_name_def)

lemma decode_encode_dl_entry:
  assumes "dl_storable e"
  shows "decode_dl_entry (encode_dl_entry e) = Some e"
proof -
  have "json_parse (encode_dl_entry e) = Some (JObj (entry_struct e))"
    unfolding encode_dl_entry_def
    using assms by (intro parse_struct)
      (auto simp: entry_struct_def plain_scalar_def utf8_valid_names dl_storable_def)
  then show ?thesis
    using assms
    by (simp add: decode_dl_entry_def entry_struct_def decode_dl_field_def decode_str_def decode_int_def
        dl_storable_def lower_name_matches parse_int64_show zero_dl_entry_def)
qed

section \<open>Names\<close>

definition dl_name_ok :: "dl_env \<Rightarrow> bool" where
  "dl_name_ok env \<longleftrightarrow> SLASH \<notin> set (batch_filename env)"

text \<open>The names \<open>batchFilename\<close> makes are of this kind, since the layout of the stamp has no slash.\<close>

lemma batch_id_plain:
  assumes "\<And>bs. rnd = Inr bs \<Longrightarrow> \<forall>b \<in> set bs. b < 256"
  shows "SLASH \<notin> set (batch_id rnd unix_nano)"
proof (cases rnd)
  case (Inl e)
  have "SLASH \<notin> set (show_nat n)" for n
    using show_nat_digits [of SLASH n] by auto
  then show ?thesis by (simp add: Inl batch_id_def show_int_def)
next
  case (Inr bs)
  have "hex_digit d \<noteq> SLASH" if "d < 16" for d
  proof -
    have "list_all (\<lambda>d. hex_digit d \<noteq> SLASH) [0..<16]" by code_simp
    with that show ?thesis by (simp add: list_all_iff)
  qed
  then have "\<forall>b \<in> set bs. hex_digit (b div 16) \<noteq> SLASH \<and> hex_digit (b mod 16) \<noteq> SLASH"
    using assms [OF Inr] by (simp add: less_mult_imp_div_less)
  then show ?thesis by (auto simp: Inr batch_id_def)
qed

lemma batch_names_ok:
  assumes "dle_id env = batch_id rnd unix_nano" "SLASH \<notin> set (dle_stamp env)"
    and "\<And>bs. rnd = Inr bs \<Longrightarrow> \<forall>b \<in> set bs. b < 256"
  shows "dl_name_ok env"
  using batch_id_plain [OF assms(3)] assms(1,2) by (simp add: dl_name_ok_def batch_filename_def)

abbreviation final_path :: "dl_env \<Rightarrow> string \<Rightarrow> string" where
  "final_path env dir \<equiv> fp_join [dir, batch_filename env]"

abbreviation temp_path :: "dl_env \<Rightarrow> string \<Rightarrow> string" where
  "temp_path env dir \<equiv> fp_join [dir, batch_filename env @ ''.tmp'']"

abbreviation batch_meta_path :: "dl_env \<Rightarrow> string \<Rightarrow> string" where
  "batch_meta_path env dir \<equiv> meta_path dir (trim_suffix (batch_filename env) ''.jsonl'')"

lemma trim_batch_filename: "trim_suffix (batch_filename env) ''.jsonl'' = dle_stamp env @ ''_'' @ dle_id env"
  using trim_suffix_append [of "dle_stamp env @ ''_'' @ dle_id env" "''.jsonl''"]
  by (simp add: batch_filename_def)

lemma dl_names_plain:
  assumes "dl_name_ok env"
  shows "plain_elem (batch_filename env)" "plain_elem (batch_filename env @ ''.tmp'')"
    "plain_elem ((dle_stamp env @ ''_'' @ dle_id env) @ ''.meta.json'')"
  using assms by (auto simp: dl_name_ok_def plain_elem_def batch_filename_def append_eq_Cons_conv)

lemma dl_paths_distinct:
  assumes "dl_name_ok env"
  shows "temp_path env dir \<noteq> final_path env dir" "batch_meta_path env dir \<noteq> final_path env dir"
    "batch_meta_path env dir \<noteq> temp_path env dir"
proof -
  note plain = dl_names_plain [OF assms]
  show "temp_path env dir \<noteq> final_path env dir"
    using join_under_inject [OF plain(2) plain(1), of dir] by simp
  have "(dle_stamp env @ ''_'' @ dle_id env) @ ''.meta.json'' \<noteq> batch_filename env"
    by (auto simp: batch_filename_def)
  then show "batch_meta_path env dir \<noteq> final_path env dir"
    using join_under_inject [OF plain(3) plain(1), of dir] by (simp add: meta_path_def trim_batch_filename)
  have "last ((dle_stamp env @ ''_'' @ dle_id env) @ ''.meta.json'') \<noteq> last (batch_filename env @ ''.tmp'')"
    by simp
  then have "(dle_stamp env @ ''_'' @ dle_id env) @ ''.meta.json'' \<noteq> batch_filename env @ ''.tmp''"
    by metis
  then show "batch_meta_path env dir \<noteq> temp_path env dir"
    using join_under_inject [OF plain(3) plain(2), of dir] by (simp add: meta_path_def trim_batch_filename)
qed

section \<open>What a write does to the disk\<close>

text \<open>The contents of a batch file: one line per payload.\<close>

definition jsonl :: "bytes list \<Rightarrow> bytes" where
  "jsonl ps = concat (map (\<lambda>p. p @ [NL]) ps)"

lemma jsonl_simps [simp]: "jsonl [] = []" "jsonl (p # ps) = p @ NL # jsonl ps"
  by (simp_all add: jsonl_def)

lemma append_trace_frame: "\<lbrakk>d' \<in> set (append_trace p data k d); q \<noteq> p\<rbrakk> \<Longrightarrow> d' q = d q"
  by (auto simp: append_trace_def)

lemma append_trace_last [simp]:
  "last (append_trace p data k d) = d(p \<mapsto> (case d p of None \<Rightarrow> [] | Some c \<Rightarrow> c) @ take k data)"
  "append_trace p data k d \<noteq> []"
  by (simp_all add: append_trace_def)

lemma f_write_frame: "\<lbrakk>f_write p answers data d = (ds, r); d' \<in> set ds; q \<noteq> p\<rbrakk> \<Longrightarrow> d' q = d q"
  using append_trace_frame by (fastforce simp: f_write_def split: list.splits option.splits)

lemma f_write_ok:
  "\<lbrakk>f_write p answers data d = (ds, Inr u); d p = Some c\<rbrakk> \<Longrightarrow> last (d # ds) = d(p \<mapsto> c @ data)"
  by (auto simp: f_write_def split: list.splits option.splits)

lemma last_frame: "(\<And>x. x \<in> set ds \<Longrightarrow> x q = d q) \<Longrightarrow> last (d # ds) q = d q"
  by (metis last.simps last_in_set)

lemma last_append_Cons: "last (d # ds @ ds1) = last (last (d # ds) # ds1)"
  by (cases ds1 rule: rev_cases) auto

lemma write_payloads_frame:
  "\<lbrakk>write_payloads p answers ps d = (ds, n, r); d' \<in> set ds; q \<noteq> p\<rbrakk> \<Longrightarrow> d' q = d q"
proof (induction p answers ps d arbitrary: ds n r d' rule: write_payloads.induct)
  case (1 tmp answers d)
  then show ?case by simp
next
  case (2 tmp answers p ps d)
  obtain ds1 r1 where 1: "f_write tmp answers p d = (ds1, r1)" by force
  note f1 = f_write_frame [OF 1 _ "2.prems"(3)]
  then have l1: "last (d # ds1) q = d q" by (intro last_frame)
  show ?case
  proof (cases r1)
    case (Inl e)
    then show ?thesis using 1 "2.prems" f1 by auto
  next
    case (Inr u)
    obtain ds2 r2 where w2: "f_write tmp (drop 1 answers) [NL] (last (d # ds1)) = (ds2, r2)" by force
    note f2 = f_write_frame [OF w2 _ "2.prems"(3)]
    then have l2: "last (d # ds1 @ ds2) q = d q"
      unfolding last_append_Cons using l1 last_frame [of ds2 q "last (d # ds1)"] by metis
    show ?thesis
    proof (cases r2)
      case Inl
      then show ?thesis using 1 Inr w2 "2.prems" f1 f2 l1 by auto
    next
      case (Inr u2)
      obtain ds3 m r3 where 3: "write_payloads tmp (drop 2 answers) ps (last (d # ds1 @ ds2)) = (ds3, m, r3)"
        by (metis prod_cases3)
      have "ds = ds1 @ ds2 @ ds3" using 1 \<open>r1 = Inr u\<close> w2 Inr 3 "2.prems"(1) by simp
      moreover have "x \<in> set ds3 \<Longrightarrow> x q = d q" for x
        using "2.IH" [OF 1 [symmetric] \<open>r1 = Inr u\<close> w2 [symmetric] Inr 3 _ "2.prems"(3)] l2 by simp
      ultimately show ?thesis using "2.prems"(2) f1 f2 l1 by auto
    qed
  qed
qed

lemma write_payloads_ok:
  "\<lbrakk>write_payloads p answers ps d = (ds, n, Inr u); d p = Some c\<rbrakk>
     \<Longrightarrow> last (d # ds) p = Some (c @ jsonl ps) \<and> n = length (jsonl ps)"
proof (induction p answers ps d arbitrary: ds n u c rule: write_payloads.induct)
  case (1 tmp answers d)
  then show ?case by simp
next
  case (2 tmp answers p ps d)
  obtain ds1 u1 where 1: "f_write tmp answers p d = (ds1, Inr u1)"
    using "2.prems"(1) by (auto split: prod.splits sum.splits)
  obtain ds2 u2 where w2: "f_write tmp (drop 1 answers) [NL] (last (d # ds1)) = (ds2, Inr u2)"
    using "2.prems"(1) 1 by (auto split: prod.splits sum.splits)
  obtain ds3 m r3 where 3: "write_payloads tmp (drop 2 answers) ps (last (d # ds1 @ ds2)) = (ds3, m, r3)"
    by (metis prod_cases3)
  have eqs: "ds = ds1 @ ds2 @ ds3" "n = length p + 1 + m" "r3 = Inr u"
    using 1 w2 3 "2.prems"(1) by simp_all
  have l1: "last (d # ds1) = d(tmp \<mapsto> c @ p)" using f_write_ok [OF 1 "2.prems"(2)] .
  have "last (d # ds1 @ ds2) = d(tmp \<mapsto> c @ p @ [NL])"
    unfolding last_append_Cons using f_write_ok [OF w2] l1 by (simp del: last.simps)
  then have "last (d # ds1 @ ds2) tmp = Some (c @ p @ [NL])" by (simp del: last.simps)
  from "2.IH" [OF 1 [symmetric] refl w2 [symmetric] refl 3 [unfolded eqs(3)] this]
  show ?case using eqs last_append_Cons [of d "ds1 @ ds2" ds3] by simp
qed

lemma write_meta_frame:
  "\<lbrakk>write_meta f dir fn e d = (ms, r); d' \<in> set ms; q \<noteq> meta_path dir (trim_suffix fn ''.jsonl'')\<rbrakk> \<Longrightarrow> d' q = d q"
  using write_trace_frame [of d' "meta_path dir (trim_suffix fn ''.jsonl'')" _ _ d q]
  by (auto simp: write_meta_def Let_def split: option.splits)

lemma write_meta_ok:
  "write_meta f dir fn e d = (ms, Inr u) \<Longrightarrow>
     ms \<noteq> [] \<and> last ms = d(meta_path dir (trim_suffix fn ''.jsonl'') \<mapsto> encode_dl_entry e)"
  by (auto simp: write_meta_def Let_def split: option.splits)

text \<open>
  The disks on the way: the final name holds nothing or the whole batch, and only the three files of
  the batch differ from the disk before.
\<close>

definition batch_disk :: "dl_env \<Rightarrow> string \<Rightarrow> bytes list \<Rightarrow> disk \<Rightarrow> disk \<Rightarrow> bool" where
  "batch_disk env dir ps d d' \<longleftrightarrow>
     (d' (final_path env dir) = None \<or> d' (final_path env dir) = Some (jsonl ps)) \<and>
     (\<forall>q. q \<notin> {final_path env dir, temp_path env dir, batch_meta_path env dir} \<longrightarrow> d' q = d q)"

text \<open>What is left when the call returns.\<close>

definition batch_outcome ::
  "dl_env \<Rightarrow> string \<Rightarrow> bytes list \<Rightarrow> write_info \<Rightarrow> (string \<times> nat) result \<Rightarrow> disk \<Rightarrow> bool" where
  "batch_outcome env dir ps info r d' = (case r of
      Inr (fn, n) \<Rightarrow> fn = batch_filename env \<and> n = length (jsonl ps) \<and>
        d' (final_path env dir) = Some (jsonl ps) \<and> d' (temp_path env dir) = None \<and>
        d' (batch_meta_path env dir) = Some (encode_dl_entry (new_entry env ps info n))
    | Inl e \<Rightarrow> \<not> dle_remove_fails env \<longrightarrow> d' (final_path env dir) = None)"

lemma commit_batch_trace:
  assumes nm: "dl_name_ok env" and d: "d (final_path env dir) = None" "d (temp_path env dir) = Some (jsonl ps)"
    and c: "commit_batch env dir ps info (length (jsonl ps)) d = (cs, r)"
  shows "(\<forall>d' \<in> set cs. batch_disk env dir ps d d') \<and> batch_outcome env dir ps info r (last (d # cs))"
proof -
  let ?fn = "batch_filename env" and ?tmp = "temp_path env dir" and ?fin = "final_path env dir"
    and ?meta = "batch_meta_path env dir" and ?e = "new_entry env ps info (length (jsonl ps))"
  note dist = dl_paths_distinct [OF nm, of dir]
  have gave_up: "(\<forall>d' \<in> set (remove_file env ?tmp d). batch_disk env dir ps d d') \<and>
      batch_outcome env dir ps info (Inl e) (last (d # remove_file env ?tmp d))" for e
    using d dist by (auto simp: remove_file_def batch_disk_def batch_outcome_def)
  show ?thesis
  proof (cases "dle_close env = None \<and> dle_rename env = None")
    case False
    then show ?thesis using c gave_up by (auto simp: commit_batch_def Let_def split: option.splits)
  next
    case True
    define d1 where "d1 = rename_disk ?tmp ?fin d"
    have d1: "d1 ?fin = Some (jsonl ps)" "d1 ?tmp = None"
        "\<And>q. q \<noteq> ?fin \<Longrightarrow> q \<noteq> ?tmp \<Longrightarrow> d1 q = d q"
      using d dist by (auto simp: d1_def rename_disk_def)
    obtain ms mr where m: "write_meta (dle_meta env) dir ?fn ?e d1 = (ms, mr)" by force
    have fr: "x \<in> set (d1 # ms) \<Longrightarrow> q \<noteq> ?meta \<Longrightarrow> x q = d1 q" for x q
      using write_meta_frame [OF m] by auto
    have steps: "batch_disk env dir ps d x" if x: "x \<in> set (d1 # ms)" for x
      using fr [OF x, of ?fin] fr [OF x] d1 dist by (auto simp: batch_disk_def)
    have lst: "last (d1 # ms) \<in> set (d1 # ms)" by (rule last_in_set) simp
    show ?thesis
    proof (cases mr)
      case (Inr u)
      then have "cs = d1 # ms" "r = Inr (?fn, length (jsonl ps))"
        using c True m by (simp_all add: commit_batch_def Let_def d1_def)
      moreover have "ms \<noteq> []" "last ms ?meta = Some (encode_dl_entry ?e)"
        using write_meta_ok [OF m [unfolded Inr]] by simp_all
      ultimately show ?thesis
        using steps fr [OF lst, of ?fin] fr [OF lst, of ?tmp] d1 dist by (auto simp: batch_outcome_def)
    next
      case (Inl e)
      then have cs: "cs = d1 # ms @ remove_file env ?fin (last (d1 # ms))" and r: "r = Inl e"
        using c True m by (simp_all add: commit_batch_def Let_def d1_def)
      have "batch_disk env dir ps d ((last (d1 # ms))(?fin := None))"
        using steps [OF lst] by (auto simp: batch_disk_def)
      then have "\<forall>d' \<in> set cs. batch_disk env dir ps d d'"
        using steps by (auto simp: cs remove_file_def)
      moreover have "\<not> dle_remove_fails env \<Longrightarrow> last (d # cs) ?fin = None"
        by (simp add: cs remove_file_def)
      ultimately show ?thesis by (simp add: r batch_outcome_def)
    qed
  qed
qed

lemma batch_disk_trans:
  "\<lbrakk>batch_disk env dir ps d1 d'; \<And>q. q \<notin> {final_path env dir, temp_path env dir, batch_meta_path env dir} \<Longrightarrow> d1 q = d q\<rbrakk>
     \<Longrightarrow> batch_disk env dir ps d d'"
  by (auto simp: batch_disk_def)

lemma write_batch_trace:
  assumes nm: "dl_name_ok env" and d: "d (final_path env dir) = None"
    and w: "write_batch env dir ps info d = (ds, r)"
  shows "(\<forall>d' \<in> set ds. batch_disk env dir ps d d') \<and> batch_outcome env dir ps info r (last (d # ds))"
proof -
  let ?tmp = "temp_path env dir" and ?fin = "final_path env dir"
  note dist = dl_paths_distinct [OF nm, of dir]
  show ?thesis
  proof (cases "ps = [] \<or> dle_mkdir env \<noteq> None \<or> dle_open env \<noteq> None \<or> d ?tmp \<noteq> None")
    case True
    then obtain e where "ds = []" "r = Inl e"
      using w by (auto simp: write_batch_def Let_def split: option.splits if_splits)
    then show ?thesis using d by (simp add: batch_outcome_def)
  next
    case False
    define d1 where "d1 = d(?tmp \<mapsto> [])"
    obtain ds1 n r1 where p: "write_payloads ?tmp (dle_writes env) ps d1 = (ds1, n, r1)"
      by (metis prod_cases3)
    have fr: "x \<in> set (d1 # ds1) \<Longrightarrow> q \<noteq> ?tmp \<Longrightarrow> x q = d q" for x q
      using write_payloads_frame [OF p, of x q] by (auto simp: d1_def)
    have steps: "batch_disk env dir ps d x" if "x \<in> set (d1 # ds1)" for x
      using fr [OF that] d dist by (auto simp: batch_disk_def)
    have lst: "last (d1 # ds1) \<in> set (d1 # ds1)" by (rule last_in_set) simp
    show ?thesis
    proof (cases r1)
      case (Inl e)
      then have ds: "ds = d1 # ds1 @ remove_file env ?tmp (last (d1 # ds1))" and r: "r = Inl e"
        using w False p by (simp_all add: write_batch_def Let_def d1_def)
      have "batch_disk env dir ps d ((last (d1 # ds1))(?tmp := None))"
        using steps [OF lst] dist by (auto simp: batch_disk_def)
      moreover have "last (d # ds) ?fin = None"
        using fr [OF lst, of ?fin] d dist by (auto simp: ds remove_file_def)
      ultimately show ?thesis using steps by (auto simp: ds r remove_file_def batch_outcome_def)
    next
      case (Inr u)
      define dl where "dl = last (d1 # ds1)"
      have dl: "dl ?tmp = Some (jsonl ps)" "n = length (jsonl ps)" "dl ?fin = None"
        using write_payloads_ok [OF p [unfolded Inr], of "[]"] fr [OF lst, of ?fin] d dist
        by (simp_all add: dl_def d1_def del: last.simps)
      obtain cs r2 where c: "commit_batch env dir ps info n dl = (cs, r2)" by force
      have ds: "ds = d1 # ds1 @ cs" and r: "r = r2"
        using w False p c Inr by (simp_all add: write_batch_def Let_def d1_def dl_def)
      from commit_batch_trace [OF nm dl(3,1) c [unfolded dl(2)]]
      have cs: "\<forall>d' \<in> set cs. batch_disk env dir ps dl d'" "batch_outcome env dir ps info r (last (dl # cs))"
        by (simp_all add: r)
      have "\<forall>d' \<in> set cs. batch_disk env dir ps d d'"
        using cs(1) batch_disk_trans [of env dir ps dl _ d] fr [OF lst] by (auto simp: dl_def)
      moreover have "last (d # ds) = last (dl # cs)"
        using last_append_Cons [of d1 ds1 cs] by (simp add: ds dl_def)
      ultimately show ?thesis using steps cs(2) by (auto simp: ds)
    qed
  qed
qed

text \<open>Before the metadata is there, its file is empty.\<close>

lemma torn_metadata_disk:
  assumes nm: "dl_name_ok env" and d: "d (final_path env dir) = None"
    and w: "write_batch env dir ps info d = (ds, Inr (fn, n))"
  shows "\<exists>d' \<in> set ds. d' (final_path env dir) = Some (jsonl ps) \<and> d' (batch_meta_path env dir) = Some []"
proof -
  let ?fn = "batch_filename env" and ?tmp = "temp_path env dir" and ?fin = "final_path env dir"
    and ?meta = "batch_meta_path env dir"
  note dist = dl_paths_distinct [OF nm, of dir]
  define d1 where "d1 = d(?tmp \<mapsto> [])"
  obtain ds1 m u where p: "write_payloads ?tmp (dle_writes env) ps d1 = (ds1, m, Inr u)"
    using w by (auto simp: write_batch_def Let_def d1_def split: if_splits option.splits prod.splits sum.splits)
  define d2 where "d2 = rename_disk ?tmp ?fin (last (d1 # ds1))"
  obtain ms v where ms: "write_meta (dle_meta env) dir ?fn (new_entry env ps info m) d2 = (ms, Inr v)"
      and ds: "ds = d1 # ds1 @ d2 # ms"
    using w p by (auto simp: write_batch_def commit_batch_def Let_def d1_def d2_def
        split: if_splits option.splits prod.splits sum.splits)
  have "last (d1 # ds1) ?tmp = Some (jsonl ps)"
    using write_payloads_ok [OF p, of "[]"] by (simp add: d1_def)
  then have fin: "d2 ?fin = Some (jsonl ps)" using dist by (auto simp: d2_def rename_disk_def)
  have "d2(?meta \<mapsto> []) \<in> set ms"
    using ms by (auto simp: write_meta_def write_trace_def Let_def image_iff split: option.splits intro!: bexI [of _ 0])
  then show ?thesis
    using fin dist by (intro bexI [of _ "d2(?meta \<mapsto> [])"]) (auto simp: ds)
qed

section \<open>Counting lines\<close>

lemma jsonl_join: "ps \<noteq> [] \<Longrightarrow> jsonl ps = go_join [NL] ps @ [NL]"
proof (induction ps)
  case Nil
  then show ?case by simp
next
  case (Cons p ps)
  then show ?case by (cases "ps = []") (simp_all add: go_join_Cons)
qed

lemma count_jsonl:
  assumes "ps \<noteq> []" "\<forall>p \<in> set ps. NL \<notin> set p" "le_read env p = None" "d p = Some (jsonl ps)"
  shows "count_jsonl_lines env d p = Inr (length ps)"
proof -
  have "go_split (trim_suffix (jsonl ps) [NL]) [NL] = ps"
    using go_split_join [OF assms(2,1)] assms(1) by (simp add: jsonl_join)
  then show ?thesis using assms by (simp add: count_jsonl_lines_def read_file_def jsonl_join)
qed

text \<open>What the listing says of a batch whose metadata is complete, missing, or empty.\<close>

lemma entry_from_meta:
  assumes "le_read env (meta_path dir (trim_suffix fn ''.jsonl'')) = None"
    and "d (meta_path dir (trim_suffix fn ''.jsonl'')) = Some (encode_dl_entry e)"
    and "dl_storable e" "de_filename e \<noteq> []"
  shows "entry_for_file env dir fn d = Inr e"
  using assms by (simp add: entry_for_file_def read_file_def decode_encode_dl_entry)

lemma entry_without_meta:
  assumes "le_read env = (\<lambda>_. None)" "le_info env fn = None"
    and "d (meta_path dir (trim_suffix fn ''.jsonl'')) = None" "d (fp_join [dir, fn]) = Some (jsonl ps)"
    and "ps \<noteq> []" "\<forall>p \<in> set ps. NL \<notin> set p"
  shows "entry_for_file env dir fn d = Inr (zero_dl_entry\<lparr>de_filename := fn, de_created_at := le_mod_time env fn,
      de_event_count := int (length ps), de_bytes := int (length (jsonl ps))\<rparr>)"
  using assms by (simp add: entry_for_file_def read_file_def count_jsonl)

lemma decode_empty: "decode_dl_entry [] = None"
  by (simp add: decode_dl_entry_def json_parse_def)

lemma entry_empty_meta:
  assumes "le_read env (meta_path dir (trim_suffix fn ''.jsonl'')) = None"
    and "d (meta_path dir (trim_suffix fn ''.jsonl'')) = Some []"
  shows "\<exists>e. entry_for_file env dir fn d = Inl e"
  using assms by (simp add: entry_for_file_def read_file_def decode_empty)

lemma list_files_error:
  assumes "ent \<in> set ents" "committed_name ent" "entry_for_file env dir (fst ent) d = Inl e"
  shows "\<exists>e. list_files env dir ents d = Inl e"
  using assms
proof (induction ents)
  case Nil
  then show ?case by simp
next
  case (Cons x ents)
  show ?case
  proof (cases "x = ent")
    case True
    then show ?thesis using Cons.prems by simp
  next
    case False
    then obtain e' where e': "list_files env dir ents d = Inl e'" using Cons by auto
    show ?thesis using e' by (cases "entry_for_file env dir (fst x) d") auto
  qed
qed

section \<open>Properties\<close>

text \<open>
  C22. Writing a dead-letter batch is all or nothing at its final name: whatever calls of the
  operating system fail, and wherever the process dies, the final file is absent or holds every
  payload of the batch, one per line; no file but the three of the batch is touched.  A successful
  return means that the file is there with its size and its metadata, and an error (when removing
  works) that it is not.
\<close>

theorem dead_letter_write_is_atomic:
  assumes "dl_name_ok env" "d (final_path env dir) = None"
    and "write_batch env dir ps info d = (ds, r)"
  shows "(\<forall>d' \<in> set ds. batch_disk env dir ps d d') \<and> batch_outcome env dir ps info r (last (d # ds))"
  using assms by (rule write_batch_trace)

definition sample_dl_env :: dl_env where
  "sample_dl_env = \<lparr>dle_mkdir = None, dle_stamp = ''t'', dle_id = ''x'', dle_open = None,
     dle_writes = [None, Some (0, ErrText ''disk full'')], dle_close = None, dle_rename = None, dle_now = ''n'',
     dle_meta = None, dle_remove_fails = False\<rparr>"

definition sample_info :: write_info where
  "sample_info = \<lparr>wi_failure_reason = ''down'', wi_sink_type = ''kafka'', wi_batch_attempts = 3\<rparr>"

lemma sample_dl_names [simp]:
  "batch_filename sample_dl_env = ''t_x.jsonl''" "dl_name_ok sample_dl_env"
  "batch_filename (sample_dl_env\<lparr>dle_writes := a\<rparr>) = ''t_x.jsonl''" "dl_name_ok (sample_dl_env\<lparr>dle_writes := a\<rparr>)"
  by (simp_all add: sample_dl_env_def batch_filename_def dl_name_ok_def)

lemma sample_remove: "\<not> dle_remove_fails sample_dl_env"
  by (simp add: sample_dl_env_def)

theorem dead_letter_write_is_atomic_witness:
  "\<exists>ds r. write_batch sample_dl_env ''/dlq'' [''{}''] sample_info (\<lambda>_. None) = (ds, r) \<and>
     last ((\<lambda>_. None) # ds) (fp_join [''/dlq'', ''t_x.jsonl'']) \<noteq> Some ''{''"
proof -
  obtain ds r where w: "write_batch sample_dl_env ''/dlq'' [''{}''] sample_info (\<lambda>_. None) = (ds, r)" by force
  from dead_letter_write_is_atomic [OF _ _ w]
  have "batch_outcome sample_dl_env ''/dlq'' [''{}''] sample_info r (last ((\<lambda>_. None) # ds))" by simp
  then have "last ((\<lambda>_. None) # ds) (fp_join [''/dlq'', ''t_x.jsonl'']) \<noteq> Some ''{''"
    by (auto simp: batch_outcome_def sample_remove split: sum.splits prod.splits)
  with w show ?thesis by blast
qed

text \<open>
  The listing tells the truth about a batch: after a successful write it returns the recorded
  metadata, with the number of payloads and the size of the file; and when the metadata was never
  written (the process died in between), it still counts the payloads correctly, because a payload
  is one line.
\<close>

theorem listing_counts_the_batch:
  assumes nm: "dl_name_ok env" and fresh: "d (final_path env dir) = None"
    and w: "write_batch env dir ps info d = (ds, r)" and ps: "ps \<noteq> []" "\<forall>p \<in> set ps. NL \<notin> set p"
    and le: "le_read lenv = (\<lambda>_. None)" "le_info lenv (batch_filename env) = None"
  shows "(\<forall>fn n. r = Inr (fn, n) \<and> dl_storable (new_entry env ps info n) \<longrightarrow>
            entry_for_file lenv dir fn (last (d # ds)) = Inr (new_entry env ps info n) \<and>
            de_event_count (new_entry env ps info n) = int (length ps) \<and> n = length (jsonl ps))
       \<and> (\<forall>d' \<in> set ds. d' (final_path env dir) \<noteq> None \<and> d' (batch_meta_path env dir) = None \<longrightarrow>
            (\<exists>e. entry_for_file lenv dir (batch_filename env) d' = Inr e \<and>
               de_event_count e = int (length ps) \<and> de_bytes e = int (length (jsonl ps))))"
proof (intro conjI allI ballI impI)
  note tr = write_batch_trace [OF nm fresh w]
  {
    fix fn n assume r: "r = Inr (fn, n) \<and> dl_storable (new_entry env ps info n)"
    then have out: "fn = batch_filename env" "n = length (jsonl ps)"
        "last (d # ds) (batch_meta_path env dir) = Some (encode_dl_entry (new_entry env ps info n))"
      using tr by (auto simp: batch_outcome_def)
    show "entry_for_file lenv dir fn (last (d # ds)) = Inr (new_entry env ps info n)"
      using out r le by (intro entry_from_meta) (simp_all add: new_entry_def batch_filename_def del: last.simps)
    show "de_event_count (new_entry env ps info n) = int (length ps)" by (simp add: new_entry_def)
    show "n = length (jsonl ps)" by (rule out)
  }
  fix d' assume d': "d' \<in> set ds" "d' (final_path env dir) \<noteq> None \<and> d' (batch_meta_path env dir) = None"
  then have "d' (final_path env dir) = Some (jsonl ps)" using tr by (auto simp: batch_disk_def)
  with entry_without_meta [OF le _ _ ps, of d' dir] d'(2)
  show "\<exists>e. entry_for_file lenv dir (batch_filename env) d' = Inr e \<and>
               de_event_count e = int (length ps) \<and> de_bytes e = int (length (jsonl ps))"
    by simp
qed

definition sample_list_env :: list_env where
  "sample_list_env = \<lparr>le_dir = Inr [(''t_x.jsonl'', False)], le_read = (\<lambda>_. None), le_info = (\<lambda>_. None),
     le_mod_time = (\<lambda>_. ''m''), le_json_error = ErrText ''unexpected end of JSON input''\<rparr>"

lemma sample_list_simps [simp]:
  "le_read sample_list_env = (\<lambda>_. None)" "le_info sample_list_env f = None"
  "le_dir sample_list_env = Inr [(''t_x.jsonl'', False)]"
  by (simp_all add: sample_list_env_def)

lemma sample_fields:
  "dle_mkdir (sample_dl_env\<lparr>dle_writes := a\<rparr>) = None" "dle_open (sample_dl_env\<lparr>dle_writes := a\<rparr>) = None"
  "dle_writes (sample_dl_env\<lparr>dle_writes := a\<rparr>) = a" "dle_close (sample_dl_env\<lparr>dle_writes := a\<rparr>) = None"
  "dle_rename (sample_dl_env\<lparr>dle_writes := a\<rparr>) = None" "dle_meta (sample_dl_env\<lparr>dle_writes := a\<rparr>) = None"
  "dle_now (sample_dl_env\<lparr>dle_writes := a\<rparr>) = ''n''"
  by (simp_all add: sample_dl_env_def)

lemma sample_commit:
  "\<exists>ds. write_batch (sample_dl_env\<lparr>dle_writes := []\<rparr>) ''/dlq'' [''{}''] sample_info (\<lambda>_. None) = (ds, Inr (''t_x.jsonl'', 3))"
  by (simp add: write_batch_def commit_batch_def write_meta_def f_write_def Let_def sample_fields)

lemma sample_storable: "dl_storable (new_entry (sample_dl_env\<lparr>dle_writes := []\<rparr>) [''{}''] sample_info 3)"
  by (auto simp: dl_storable_def new_entry_def sample_fields sample_info_def intro!: utf8_valid_ascii)

theorem listing_counts_the_batch_witness:
  "\<exists>ds. entry_for_file sample_list_env ''/dlq'' ''t_x.jsonl'' (last ((\<lambda>_. None) # ds)) =
     Inr (new_entry (sample_dl_env\<lparr>dle_writes := []\<rparr>) [''{}''] sample_info 3)"
proof -
  obtain ds where w: "write_batch (sample_dl_env\<lparr>dle_writes := []\<rparr>) ''/dlq'' [''{}''] sample_info (\<lambda>_. None) = (ds, Inr (''t_x.jsonl'', 3))"
    using sample_commit by blast
  show ?thesis
    using listing_counts_the_batch [OF _ _ w, of sample_list_env] sample_storable by auto
qed

text \<open>
  The metadata is not written atomically: every successful write goes through a disk on which the
  batch is complete under its final name and its metadata file exists but is empty.  If the process
  dies there, \<open>ListEntries\<close> fails for the whole directory, whatever other batches it holds.
\<close>

theorem torn_metadata_blocks_the_listing:
  assumes "dl_name_ok env" "d (final_path env dir) = None"
    and "write_batch env dir ps info d = (ds, Inr (fn, n))"
    and "le_read lenv = (\<lambda>_. None)" "le_dir lenv = Inr ents" "(fn, False) \<in> set ents"
    and "committed_name (fn, False)" "dir \<noteq> []"
  shows "\<exists>d' \<in> set ds. d' (final_path env dir) = Some (jsonl ps) \<and> (\<exists>e. list_entries lenv dir d' = Inl e)"
proof -
  have "batch_outcome env dir ps info (Inr (fn, n)) (last (d # ds))"
    using write_batch_trace [OF assms(1-3)] by simp
  then have fn: "fn = batch_filename env" by (simp add: batch_outcome_def)
  obtain d' where d': "d' \<in> set ds" "d' (final_path env dir) = Some (jsonl ps)"
      "d' (batch_meta_path env dir) = Some []"
    using torn_metadata_disk [OF assms(1-3)] by blast
  obtain e where "entry_for_file lenv dir fn d' = Inl e"
    using entry_empty_meta [of lenv dir fn d'] d'(3) assms(4) fn by auto
  then obtain e' where "list_files lenv dir ents d' = Inl e'"
    using list_files_error [OF assms(6,7), of lenv dir d' e] by auto
  then show ?thesis using d'(1,2) assms(5,8) by (auto simp: list_entries_def)
qed

theorem torn_metadata_blocks_the_listing_witness:
  "\<exists>d'. d' (fp_join [''/dlq'', ''t_x.jsonl'']) = Some (''{}'' @ [NL]) \<and>
     (\<exists>e. list_entries sample_list_env ''/dlq'' d' = Inl e)"
proof -
  obtain ds where w: "write_batch (sample_dl_env\<lparr>dle_writes := []\<rparr>) ''/dlq'' [''{}''] sample_info (\<lambda>_. None) = (ds, Inr (''t_x.jsonl'', 3))"
    using sample_commit by blast
  have "fp_base ''t_x.jsonl'' = ''t_x.jsonl''"
    by (simp add: fp_base_def go_split_def has_prefix_def Let_def)
  then have "committed_name (''t_x.jsonl'', False)"
    by (simp add: committed_name_def has_suffix_def has_prefix_def)
  then show ?thesis
    using torn_metadata_blocks_the_listing [OF _ _ w, of sample_list_env "[(''t_x.jsonl'', False)]"] by auto
qed

end
