(* ===== verification/Flush.thy ===== *)
theory Flush
  imports Publish DeadLetter
begin

text \<open>
  Flushing a batch (\<open>flushItems\<close> and \<open>publishAndAdvance\<close> of \<open>internal/pipeline/publish.go\<close>,
  \<open>deadletter.go\<close>, and the two transitions of \<open>hibernate.go\<close>): publish with retries, then move the
  watermarks of the batch; on failure hibernate, write a dead letter, or report the error, as
  \<open>on_flush_failure\<close> says.  This is the sequential meaning of one flush; how flushes interleave
  with the rest of the pipeline is the subject of \<open>Flusher\<close>.
\<close>

section \<open>Hibernation\<close>

text \<open>The part of \<open>Pipeline\<close> that the flushes share: the hibernation and dead-letter counters.\<close>

record pipe_state =
  hibernating :: bool
  hibernate_detail :: string
  hibernate_batch :: "pending list"
  wake_running :: bool
  consecutive_dlq :: int

definition new_pipe_state :: pipe_state where
  "new_pipe_state = \<lparr>hibernating = False, hibernate_detail = [], hibernate_batch = [], wake_running = False,
     consecutive_dlq = 0\<rparr>"

text \<open>\<open>enterHibernate\<close>; the second value tells whether the wake loop is started.\<close>

definition enter_hibernate :: "bool \<Rightarrow> go_error \<Rightarrow> pending list \<Rightarrow> pipe_state \<Rightarrow> pipe_state \<times> bool" where
  "enter_hibernate wake_enabled err batch p0 =
     (let p = (if length batch > 0 then p0\<lparr>hibernate_batch := batch\<rparr> else p0) in
      if hibernating p then (p\<lparr>hibernate_detail := err_msg err\<rparr>, False)
      else
        (let p1 = p\<lparr>hibernating := True, hibernate_detail := err_msg err\<rparr> in
         if wake_enabled \<and> \<not> wake_running p1 then (p1\<lparr>wake_running := True\<rparr>, True) else (p1, False)))"

definition exit_hibernate :: "pipe_state \<Rightarrow> pipe_state" where
  "exit_hibernate p = (if \<not> hibernating p then p
     else p\<lparr>hibernating := False, hibernate_detail := [], hibernate_batch := []\<rparr>)"

definition reset_consecutive_dlq :: "pipe_state \<Rightarrow> pipe_state" where
  "reset_consecutive_dlq p = p\<lparr>consecutive_dlq := 0\<rparr>"

definition increment_consecutive_dlq :: "pipe_state \<Rightarrow> pipe_state \<times> int" where
  "increment_consecutive_dlq p =
     (let n = consecutive_dlq p + 1 in (p\<lparr>consecutive_dlq := n\<rparr>, n))"

section \<open>The world of a flush\<close>

text \<open>
  The sink, the watermark store (\<open>None\<close>: no store is configured), the disk with the list of disks
  gone through, the answers to come of the operating system, and the shared part of the pipeline.
\<close>

record 'k world =
  w_sink :: 'k
  w_marks :: "wm_store option"
  w_disk :: disk
  w_disks :: "disk list"
  w_persist :: "persist_env list"
  w_dl :: "dl_env list"
  w_pipe :: pipe_state

definition next_persist :: "'k world \<Rightarrow> persist_env" where
  "next_persist w = (case w_persist w of [] \<Rightarrow> no_fault | env # rest \<Rightarrow> env)"

definition default_dl_env :: dl_env where
  "default_dl_env = \<lparr>dle_mkdir = None, dle_stamp = ''2006-01-02T15-04-05Z'', dle_id = ''00000000'', dle_open = None,
     dle_writes = [], dle_close = None, dle_rename = None, dle_now = ''2006-01-02T15:04:05Z'', dle_meta = None,
     dle_remove_fails = False\<rparr>"

definition next_dl :: "'k world \<Rightarrow> dl_env" where
  "next_dl w = (case w_dl w of [] \<Rightarrow> default_dl_env | env # rest \<Rightarrow> env)"

definition add_disks :: "disk list \<Rightarrow> 'k world \<Rightarrow> 'k world" where
  "add_disks ds w = w\<lparr>w_disk := last (w_disk w # ds), w_disks := w_disks w @ ds\<rparr>"

text \<open>\<open>p.watermarks.Set\<close> behind its nil test, with the wrapped error.\<close>

definition set_mark :: "string \<Rightarrow> int \<Rightarrow> nat \<Rightarrow> 'k world \<Rightarrow> 'k world \<times> check" where
  "set_mark p off ino w =
     (case w_marks w of
        None \<Rightarrow> (w, ok)
      | Some st \<Rightarrow>
          (case wm_set (next_persist w) p off ino st (w_disk w) of
             (st', ds, r) \<Rightarrow>
               (add_disks ds (w\<lparr>w_marks := Some st', w_persist := drop 1 (w_persist w)\<rparr>),
                case r of Inl e \<Rightarrow> Inl (ErrWrap ''update watermark: '' e) | Inr u \<Rightarrow> ok)))"

fun advance_watermarks :: "pending list \<Rightarrow> 'k world \<Rightarrow> 'k world \<times> check" where
  "advance_watermarks [] w = (w, ok)"
| "advance_watermarks (it # items) w =
     (case set_mark (p_path it) (int (p_offset it)) (p_inode it) w of
        (w1, Inl e) \<Rightarrow> (w1, Inl e)
      | (w1, Inr u) \<Rightarrow> advance_watermarks items w1)"

section \<open>One flush\<close>

text \<open>\<open>deadLetterEnabled\<close>.\<close>

definition dead_letter_enabled :: "duration_parser \<Rightarrow> pipeline_config \<Rightarrow> bool" where
  "dead_letter_enabled pd cfg \<longleftrightarrow> publish_batch_enabled pd (publish_batch cfg) \<and>
     on_flush_failure_or_default (publish_batch cfg) = ''dead_letter''"

definition limit_error :: "int \<Rightarrow> go_error \<Rightarrow> go_error" where
  "limit_error n e = ErrWrap (''dead letter consecutive batch limit '' @ show_int n @
     '' reached after publish failure: '') e"

text \<open>\<open>handleDeadLetterFlush\<close>.\<close>

definition handle_dead_letter_flush ::
  "pipeline_config \<Rightarrow> string \<Rightarrow> pending list \<Rightarrow> go_error \<Rightarrow> 'k world \<Rightarrow> 'k world \<times> check" where
  "handle_dead_letter_flush cfg stype items err w =
     (case write_batch (next_dl w) (dl_path (pb_dead_letter (publish_batch cfg))) (map p_payload items)
         \<lparr>wi_failure_reason = err_msg err, wi_sink_type = stype,
          wi_batch_attempts = max_attempts_or_default (publish_batch cfg) (publish_retry cfg)\<rparr> (w_disk w) of
        (ds, r) \<Rightarrow>
          (let w1 = add_disks ds (w\<lparr>w_dl := drop 1 (w_dl w)\<rparr>) in
           case r of
             Inl e \<Rightarrow> (w1, Inl (ErrWrap ''write dead letter batch: '' e))
           | Inr v \<Rightarrow>
               (case advance_watermarks items w1 of
                  (w2, Inl e) \<Rightarrow> (w2, Inl e)
                | (w2, Inr u) \<Rightarrow>
                    (let (p1, n) = increment_consecutive_dlq (w_pipe w2);
                         mx = max_consecutive_batches_or_default (pb_dead_letter (publish_batch cfg));
                         p2 = (if n \<ge> mx
                               then fst (enter_hibernate (hib_wake_enabled (pb_hibernate (publish_batch cfg)))
                                           (limit_error mx err) [] p1)
                               else p1)
                     in (w2\<lparr>w_pipe := p2\<rparr>, ok)))))"

text \<open>\<open>flushItems\<close>; \<open>None\<close> when the retry loop does not return.\<close>

definition flush_failed ::
  "duration_parser \<Rightarrow> pipeline_config \<Rightarrow> string \<Rightarrow> pending list \<Rightarrow> go_error \<Rightarrow> 'k world \<Rightarrow> 'k world \<times> check" where
  "flush_failed pd cfg stype items err w =
     (let pol = on_flush_failure_or_default (publish_batch cfg) in
      if pol = ''hibernate'' \<and> publish_batch_enabled pd (publish_batch cfg) then
        (w\<lparr>w_pipe := fst (enter_hibernate (hib_wake_enabled (pb_hibernate (publish_batch cfg))) err items (w_pipe w))\<rparr>, ok)
      else if pol = ''dead_letter'' \<and> dead_letter_enabled pd cfg then
        handle_dead_letter_flush cfg stype items err w
      else (w, Inl err))"

definition flush_published :: "pending list \<Rightarrow> 'k world \<Rightarrow> 'k world \<times> check" where
  "flush_published items w =
     (case advance_watermarks items w of
        (w1, Inl e) \<Rightarrow> (w1, Inl e)
      | (w1, Inr u) \<Rightarrow> (w1\<lparr>w_pipe := exit_hibernate (reset_consecutive_dlq (w_pipe w1))\<rparr>, ok))"

definition flush_items ::
  "'k sink \<Rightarrow> duration_parser \<Rightarrow> pipeline_config \<Rightarrow> string \<Rightarrow> (nat \<Rightarrow> go_error option) \<Rightarrow> pending list \<Rightarrow> 'k world
     \<Rightarrow> ('k world \<times> check) option" where
  "flush_items s pd cfg stype dn items w =
     (if length items = 0 then Some (w, ok)
      else
        (case publish_batch_with_retry s (retry_policy_of pd cfg) dn (map p_payload items) (w_sink w) of
           None \<Rightarrow> None
         | Some (k, waits, Inl e) \<Rightarrow> Some (flush_failed pd cfg stype items e (w\<lparr>w_sink := k\<rparr>))
         | Some (k, waits, Inr u) \<Rightarrow> Some (flush_published items (w\<lparr>w_sink := k\<rparr>))))"

text \<open>\<open>publishAndAdvance\<close>, the path without batching.\<close>

definition publish_and_advance ::
  "'k sink \<Rightarrow> duration_parser \<Rightarrow> pipeline_config \<Rightarrow> (nat \<Rightarrow> go_error option) \<Rightarrow> pending list \<Rightarrow> 'k world
     \<Rightarrow> ('k world \<times> check) option" where
  "publish_and_advance s pd cfg dn items w =
     (if length items = 0 then Some (w, ok)
      else
        (case publish_batch_with_retry s (retry_policy_of pd cfg) dn (map p_payload items) (w_sink w) of
           None \<Rightarrow> None
         | Some (k, waits, Inl e) \<Rightarrow> Some (w\<lparr>w_sink := k\<rparr>, Inl e)
         | Some (k, waits, Inr u) \<Rightarrow> Some (advance_watermarks items (w\<lparr>w_sink := k\<rparr>))))"

text \<open>\<open>drainHibernateBatch\<close> and \<open>retryHibernateBatch\<close>.\<close>

definition drain_hibernate_batch ::
  "'k sink \<Rightarrow> duration_parser \<Rightarrow> pipeline_config \<Rightarrow> string \<Rightarrow> (nat \<Rightarrow> go_error option) \<Rightarrow> 'k world
     \<Rightarrow> ('k world \<times> check) option" where
  "drain_hibernate_batch s pd cfg stype dn w =
     (if \<not> hibernating (w_pipe w) then Some (w, ok)
      else if length (hibernate_batch (w_pipe w)) = 0 then Some (w, ok)
      else flush_items s pd cfg stype dn (hibernate_batch (w_pipe w)) w)"

definition retry_hibernate_batch ::
  "'k sink \<Rightarrow> duration_parser \<Rightarrow> pipeline_config \<Rightarrow> string \<Rightarrow> (nat \<Rightarrow> go_error option) \<Rightarrow> 'k world
     \<Rightarrow> 'k world option" where
  "retry_hibernate_batch s pd cfg stype dn w =
     (if \<not> hibernating (w_pipe w) then Some w
      else if length (hibernate_batch (w_pipe w)) = 0 then Some w
      else map_option fst (flush_items s pd cfg stype dn (hibernate_batch (w_pipe w)) w))"

section \<open>Moving watermarks\<close>

definition files_of :: "'k world \<Rightarrow> wm_files option" where
  "files_of w = map_option s_files (w_marks w)"

definition item_mark :: "pending \<Rightarrow> wm_files \<Rightarrow> wm_files" where
  "item_mark it m = gm_put m (p_path it) \<lparr>w_offset = int (p_offset it), w_inode = p_inode it\<rparr>"

definition mark_all :: "pending list \<Rightarrow> wm_files \<Rightarrow> wm_files" where
  "mark_all items m = foldl (\<lambda>m it. item_mark it m) m items"

lemma mark_all_simps [simp]:
  "mark_all [] m = m" "mark_all (it # items) m = mark_all items (item_mark it m)"
  by (simp_all add: mark_all_def)

lemma mark_all_fun [simp]: "mark_all [] = (\<lambda>m. m)" "mark_all [it] = item_mark it"
  by (simp_all add: fun_eq_iff)

lemma world_frames [simp]:
  "files_of (w\<lparr>w_sink := k\<rparr>) = files_of w" "files_of (w\<lparr>w_pipe := p\<rparr>) = files_of w"
  "files_of (w\<lparr>w_dl := l\<rparr>) = files_of w"
  "files_of (add_disks ds w) = files_of w" "w_sink (add_disks ds w) = w_sink w" "w_pipe (add_disks ds w) = w_pipe w"
  by (simp_all add: files_of_def add_disks_def)

text \<open>The table moves even when persisting it fails; nothing else of the world but the disk does.\<close>

lemma set_mark_result:
  assumes "set_mark p off ino w = (w', r)"
  shows "files_of w' = map_option (\<lambda>m. gm_put m p \<lparr>w_offset = off, w_inode = ino\<rparr>) (files_of w)"
    "w_sink w' = w_sink w" "w_pipe w' = w_pipe w"
proof -
  show "files_of w' = map_option (\<lambda>m. gm_put m p \<lparr>w_offset = off, w_inode = ino\<rparr>) (files_of w)"
  proof (cases "w_marks w")
    case None
    then show ?thesis using assms by (auto simp: set_mark_def files_of_def)
  next
    case (Some st)
    obtain st' ds q where s: "wm_set (next_persist w) p off ino st (w_disk w) = (st', ds, q)"
      by (metis prod_cases3)
    have "w_marks w' = Some st'"
      using assms Some s by (auto simp: set_mark_def add_disks_def)
    then show ?thesis using Some set_result(1) [OF s] by (simp add: files_of_def)
  qed
  show "w_sink w' = w_sink w" "w_pipe w' = w_pipe w"
    using assms by (auto simp: set_mark_def split: option.splits prod.splits)
qed

lemma advance_result:
  "advance_watermarks items w = (w', r) \<Longrightarrow>
     \<exists>j \<le> length items. files_of w' = map_option (mark_all (take j items)) (files_of w) \<and>
       (r = ok \<longrightarrow> j = length items) \<and> w_sink w' = w_sink w \<and> w_pipe w' = w_pipe w"
proof (induction items arbitrary: w)
  case Nil
  then show ?case by (simp add: option.map_ident)
next
  case (Cons it items)
  obtain w1 q where s: "set_mark (p_path it) (int (p_offset it)) (p_inode it) w = (w1, q)" by force
  note m = set_mark_result [OF s]
  have m1: "files_of w1 = map_option (item_mark it) (files_of w)"
    using m(1) by (simp add: item_mark_def [abs_def])
  show ?case
  proof (cases q)
    case (Inl e)
    then have "w' = w1" "r \<noteq> ok" using Cons.prems s by auto
    then show ?thesis using m m1 by (intro exI [of _ 1]) simp
  next
    case (Inr u)
    then have "advance_watermarks items w1 = (w', r)" using Cons.prems s by simp
    from Cons.IH [OF this] obtain j where j: "j \<le> length items"
      "files_of w' = map_option (mark_all (take j items)) (files_of w1)"
      "r = ok \<longrightarrow> j = length items" "w_sink w' = w_sink w1" "w_pipe w' = w_pipe w1" by blast
    have "files_of w' = map_option (mark_all (take (Suc j) (it # items))) (files_of w)"
      using j(2) m1 by (cases "files_of w") simp_all
    with j(1,3-5) m(2,3) show ?thesis by (intro exI [of _ "Suc j"]) (simp del: mark_all_simps take_Suc_Cons)
  qed
qed

section \<open>The outcomes of a flush\<close>

lemma enter_hibernate_state:
  "hibernating (fst (enter_hibernate wk e batch p))"
  "batch \<noteq> [] \<Longrightarrow> hibernate_batch (fst (enter_hibernate wk e batch p)) = batch"
  "hibernate_batch (fst (enter_hibernate wk e [] p)) = hibernate_batch p"
  "consecutive_dlq (fst (enter_hibernate wk e batch p)) = consecutive_dlq p"
  by (auto simp: enter_hibernate_def Let_def)

lemma exit_hibernate_state [simp]:
  "\<not> hibernating (exit_hibernate p)" "consecutive_dlq (exit_hibernate p) = consecutive_dlq p"
  by (auto simp: exit_hibernate_def)

text \<open>The files that moving watermarks may touch.\<close>

definition mark_paths :: "'k world \<Rightarrow> string set" where
  "mark_paths w = (case w_marks w of None \<Rightarrow> {} | Some st \<Rightarrow> {s_path st, tmp_path (s_path st)})"

lemma mark_paths_frames [simp]:
  "mark_paths (w\<lparr>w_sink := k\<rparr>) = mark_paths w" "mark_paths (w\<lparr>w_dl := l\<rparr>) = mark_paths w"
  "mark_paths (add_disks ds w) = mark_paths w"
  by (simp_all add: mark_paths_def add_disks_def)

lemma last_disk_frame: "(\<And>d'. d' \<in> set ds \<Longrightarrow> d' q = d q) \<Longrightarrow> last (d # ds) q = d q"
  by (cases ds rule: rev_cases) auto

lemma set_mark_disk:
  assumes "set_mark p off ino w = (w', r)"
  shows "mark_paths w' = mark_paths w" "q \<notin> mark_paths w \<Longrightarrow> w_disk w' q = w_disk w q"
proof -
  have "mark_paths w' = mark_paths w \<and> (q \<notin> mark_paths w \<longrightarrow> w_disk w' q = w_disk w q)"
  proof (cases "w_marks w")
    case None
    then show ?thesis using assms by (auto simp: set_mark_def)
  next
    case (Some st)
    obtain st' ds x where m: "wm_set (next_persist w) p off ino st (w_disk w) = (st', ds, x)" by (metis prod_cases3)
    have w': "w_marks w' = Some st'" "w_disk w' = last (w_disk w # ds)"
      using assms Some m by (auto simp: set_mark_def add_disks_def)
    have "last (w_disk w # ds) q = w_disk w q" if "q \<noteq> s_path st" "q \<noteq> tmp_path (s_path st)"
      using m that persist_atomic(2) by (intro last_disk_frame) (fastforce simp: wm_set_def Let_def split: if_splits)
    then show ?thesis using Some w' set_result(2) [OF m] by (simp add: mark_paths_def)
  qed
  then show "mark_paths w' = mark_paths w" "q \<notin> mark_paths w \<Longrightarrow> w_disk w' q = w_disk w q" by blast+
qed

lemma advance_disk:
  "advance_watermarks items w = (w', r) \<Longrightarrow> q \<notin> mark_paths w \<Longrightarrow> w_disk w' q = w_disk w q"
proof (induction items arbitrary: w)
  case (Cons it items)
  obtain w1 x where s: "set_mark (p_path it) (int (p_offset it)) (p_inode it) w = (w1, x)" by force
  show ?case
  proof (cases x)
    case (Inl e)
    then show ?thesis using Cons.prems s set_mark_disk(2) [OF s] by simp
  next
    case (Inr u)
    then show ?thesis using Cons s set_mark_disk(1) [OF s] set_mark_disk(2) [OF s] by simp
  qed
qed simp

lemma hibernating_enter: "hibernating (fst (enter_hibernate wk e batch p))"
  "hibernate_detail (fst (enter_hibernate wk e batch p)) = err_msg e"
  by (simp_all add: enter_hibernate_def Let_def)

lemma dead_letter_flush_result:
  assumes "handle_dead_letter_flush cfg stype items e w = (w', r)" "items \<noteq> []"
    and dl: "dl_path (pb_dead_letter (publish_batch cfg)) = dir" "next_dl w = env" "dl_name_ok env"
    and fresh: "w_disk w (final_path env dir) = None" "final_path env dir \<notin> mark_paths w"
  shows "\<exists>j \<le> length items. files_of w' = map_option (mark_all (take j items)) (files_of w) \<and> w_sink w' = w_sink w \<and>
     (r = ok \<or> 0 < j \<longrightarrow> w_disk w' (final_path env dir) = Some (jsonl (map p_payload items))) \<and>
     (r = ok \<longrightarrow> j = length items \<and> consecutive_dlq (w_pipe w') = consecutive_dlq (w_pipe w) + 1 \<and>
        (hibernating (w_pipe w') \<longleftrightarrow> hibernating (w_pipe w) \<or>
           consecutive_dlq (w_pipe w') \<ge> max_consecutive_batches_or_default (pb_dead_letter (publish_batch cfg)))) \<and>
     (r \<noteq> ok \<longrightarrow> w_pipe w' = w_pipe w)"
proof -
  define info where "info = \<lparr>wi_failure_reason = err_msg e, wi_sink_type = stype,
          wi_batch_attempts = max_attempts_or_default (publish_batch cfg) (publish_retry cfg)\<rparr>"
  obtain ds wr where wb: "write_batch env dir (map p_payload items) info (w_disk w) = (ds, wr)" by force
  define w1 where "w1 = add_disks ds (w\<lparr>w_dl := drop 1 (w_dl w)\<rparr>)"
  have w1: "files_of w1 = files_of w" "w_sink w1 = w_sink w" "w_pipe w1 = w_pipe w" "mark_paths w1 = mark_paths w"
    by (simp_all add: w1_def)
  note unf = assms(1) [unfolded handle_dead_letter_flush_def Let_def info_def [symmetric] dl wb prod.case, folded w1_def]
  show ?thesis
  proof (cases wr)
    case (Inl e')
    then have "w' = w1" "r \<noteq> ok" using unf by auto
    then show ?thesis using w1 by (intro exI [of _ 0]) (simp add: option.map_ident del: mark_all_simps)
  next
    case (Inr v)
    have "batch_outcome env dir (map p_payload items) info wr (last (w_disk w # ds))"
      using write_batch_trace [OF dl(3) fresh(1) wb] by blast
    then have stored: "w_disk w1 (final_path env dir) = Some (jsonl (map p_payload items))"
      using Inr by (auto simp: batch_outcome_def w1_def add_disks_def split: prod.splits)
    obtain w2 q where adv: "advance_watermarks items w1 = (w2, q)" by force
    have stored2: "w_disk w2 (final_path env dir) = Some (jsonl (map p_payload items))"
      using advance_disk [OF adv] fresh(2) w1(4) stored by simp
    from advance_result [OF adv] obtain j where j: "j \<le> length items"
      "files_of w2 = map_option (mark_all (take j items)) (files_of w1)"
      "q = ok \<longrightarrow> j = length items" "w_sink w2 = w_sink w1" "w_pipe w2 = w_pipe w1" by blast
    show ?thesis
    proof (cases q)
      case (Inl e')
      then have "w' = w2" "r \<noteq> ok" using unf Inr adv by auto
      then show ?thesis using j w1 stored2 by (intro exI [of _ j]) simp
    next
      case (Inr u)
      then show ?thesis
        using unf \<open>wr = Inr v\<close> adv j w1 stored2
        by (intro exI [of _ j])
           (auto simp: increment_consecutive_dlq_def Let_def enter_hibernate_state split: if_splits)
    qed
  qed
qed

context sink_contract
begin

lemma flush_items_result:
  assumes f: "flush_items s pd cfg stype dn items w = Some (w', r)" and ne: "items \<noteq> []"
    and dl: "dl_path (pb_dead_letter (publish_batch cfg)) = dir" "next_dl w = env" "dl_name_ok env"
    and fresh: "w_disk w (final_path env dir) = None" "final_path env dir \<notin> mark_paths w"
  shows "\<exists>waits q xs j.
     publish_batch_with_retry s (retry_policy_of pd cfg) dn (map p_payload items) (w_sink w) = Some (w_sink w', waits, q) \<and>
     set xs \<subseteq> set (map p_payload items) \<and>
     log (w_sink w') = log (w_sink w) @ xs @ (if q = ok then map p_payload items else []) \<and>
     j \<le> length items \<and> files_of w' = map_option (mark_all (take j items)) (files_of w) \<and>
     (case q of
        Inr u \<Rightarrow> (\<forall>x. x \<notin> mark_paths w \<longrightarrow> w_disk w' x = w_disk w x) \<and> (r = ok \<longrightarrow> j = length items) \<and>
          w_pipe w' = (if r = ok then exit_hibernate (reset_consecutive_dlq (w_pipe w)) else w_pipe w)
      | Inl e \<Rightarrow>
          if on_flush_failure_or_default (publish_batch cfg) = ''hibernate'' \<and> publish_batch_enabled pd (publish_batch cfg) then
            r = ok \<and> j = 0 \<and> w_disk w' = w_disk w \<and> hibernating (w_pipe w') \<and> hibernate_batch (w_pipe w') = items \<and>
            hibernate_detail (w_pipe w') = err_msg e
          else if on_flush_failure_or_default (publish_batch cfg) = ''dead_letter'' \<and> dead_letter_enabled pd cfg then
            (r = ok \<or> 0 < j \<longrightarrow> w_disk w' (final_path env dir) = Some (jsonl (map p_payload items))) \<and>
            (r = ok \<longrightarrow> j = length items \<and> consecutive_dlq (w_pipe w') = consecutive_dlq (w_pipe w) + 1 \<and>
               (hibernating (w_pipe w') \<longleftrightarrow> hibernating (w_pipe w) \<or>
                  consecutive_dlq (w_pipe w') \<ge> max_consecutive_batches_or_default (pb_dead_letter (publish_batch cfg)))) \<and>
            (r \<noteq> ok \<longrightarrow> w_pipe w' = w_pipe w)
          else r = Inl e \<and> j = 0 \<and> w_disk w' = w_disk w \<and> w_pipe w' = w_pipe w)"
proof -
  obtain k waits q where p: "publish_batch_with_retry s (retry_policy_of pd cfg) dn (map p_payload items) (w_sink w) =
      Some (k, waits, q)"
    using f ne by (auto simp: flush_items_def split: option.splits)
  from retry_delivers [OF p [unfolded publish_batch_with_retry_def]] obtain xs
    where xs: "set xs \<subseteq> set (map p_payload items)"
      "log k = log (w_sink w) @ xs @ (if q = ok then map p_payload items else [])" by blast
  show ?thesis
  proof (cases q)
    case (Inr u)
    have fp: "flush_published items (w\<lparr>w_sink := k\<rparr>) = (w', r)"
      using f ne p Inr by (simp add: flush_items_def)
    obtain w1 a where adv: "advance_watermarks items (w\<lparr>w_sink := k\<rparr>) = (w1, a)" by force
    from advance_result [OF adv] obtain j where j: "j \<le> length items"
      "files_of w1 = map_option (mark_all (take j items)) (files_of w)"
      "a = ok \<longrightarrow> j = length items" "w_sink w1 = k" "w_pipe w1 = w_pipe w" by auto
    have dk: "x \<notin> mark_paths w \<Longrightarrow> w_disk w1 x = w_disk w x" for x using advance_disk [OF adv] by simp
    have "files_of w' = files_of w1" "w_sink w' = k" "w_disk w' = w_disk w1" "r = ok \<longleftrightarrow> a = ok"
      "w_pipe w' = (if r = ok then exit_hibernate (reset_consecutive_dlq (w_pipe w)) else w_pipe w)"
      using fp adv j by (auto simp: flush_published_def split: sum.splits)
    then show ?thesis using j xs dk Inr p by (intro exI [of _ waits] exI [of _ q] exI [of _ xs] exI [of _ j]) auto
  next
    case (Inl e)
    let ?pol = "on_flush_failure_or_default (publish_batch cfg)" and ?w = "w\<lparr>w_sink := k\<rparr>"
    have ff: "flush_failed pd cfg stype items e ?w = (w', r)"
      using f ne p Inl by (simp add: flush_items_def)
    consider (hib) "?pol = ''hibernate'' \<and> publish_batch_enabled pd (publish_batch cfg)"
      | (dlq) "\<not> (?pol = ''hibernate'' \<and> publish_batch_enabled pd (publish_batch cfg))" "?pol = ''dead_letter'' \<and> dead_letter_enabled pd cfg"
      | (other) "\<not> (?pol = ''hibernate'' \<and> publish_batch_enabled pd (publish_batch cfg))"
        "\<not> (?pol = ''dead_letter'' \<and> dead_letter_enabled pd cfg)" by blast
    then show ?thesis
    proof cases
      case hib
      then show ?thesis
        using ff ne xs p Inl
        by (intro exI [of _ waits] exI [of _ q] exI [of _ xs] exI [of _ 0])
          (auto simp: flush_failed_def enter_hibernate_state hibernating_enter option.map_ident)
    next
      case dlq
      then have h: "handle_dead_letter_flush cfg stype items e ?w = (w', r)" using ff by (simp add: flush_failed_def)
      from dead_letter_flush_result [OF h ne dl(1) _ dl(3)] dl(2) fresh obtain j where
        "j \<le> length items" "files_of w' = map_option (mark_all (take j items)) (files_of w)" "w_sink w' = k"
        "(r = ok \<or> 0 < j \<longrightarrow> w_disk w' (final_path env dir) = Some (jsonl (map p_payload items))) \<and>
         (r = ok \<longrightarrow> j = length items \<and> consecutive_dlq (w_pipe w') = consecutive_dlq (w_pipe w) + 1 \<and>
            (hibernating (w_pipe w') \<longleftrightarrow> hibernating (w_pipe w) \<or>
               consecutive_dlq (w_pipe w') \<ge> max_consecutive_batches_or_default (pb_dead_letter (publish_batch cfg)))) \<and>
         (r \<noteq> ok \<longrightarrow> w_pipe w' = w_pipe w)"
        by (auto simp: next_dl_def)
      with dlq xs p Inl show ?thesis
        by (intro exI [of _ waits] exI [of _ q] exI [of _ xs] exI [of _ j]) simp
    next
      case other
      then have "w' = ?w" "r = Inl e" using ff by (auto simp: flush_failed_def Let_def split: if_splits)
      with other xs p Inl show ?thesis
        by (intro exI [of _ waits] exI [of _ q] exI [of _ xs] exI [of _ 0]) (auto simp: option.map_ident)
    qed
  qed
qed

end

section \<open>Properties\<close>

text \<open>
  C21. One flush into the file sink, on every branch, with the policy that selects it.  The retries end
  with a result \<open>q\<close>, and only records of the batch were written, all of them in order when \<open>q\<close> is nil.
  Published: the watermarks move over a prefix of the batch, over all of it unless writing them fails,
  no other file changes, and a nil return has reset the dead-letter counter and ended hibernation.
  Failed under \<open>hibernate\<close>: nil is returned, the batch is kept whole with the error as the detail, no
  watermark moves and the disk is untouched.  Failed under \<open>dead_letter\<close>: no watermark moves and nil is
  not returned unless the dead-letter file with every payload of the batch is on the disk; a nil return
  has moved all of them, counted one more dead letter and, at the limit, started hibernation; an error
  leaves the pipeline as it was.  Otherwise the error is returned and nothing but the sink has changed.
\<close>

theorem flush_items_outcome:
  assumes "flush_items the_file_sink pd cfg stype dn items w = Some (w', r)" "items \<noteq> []"
    "dl_path (pb_dead_letter (publish_batch cfg)) = dir" "next_dl w = env" "dl_name_ok env"
    "w_disk w (final_path env dir) = None" "final_path env dir \<notin> mark_paths w"
  shows "\<exists>waits q xs j.
     publish_batch_with_retry the_file_sink (retry_policy_of pd cfg) dn (map p_payload items) (w_sink w) = Some (w_sink w', waits, q) \<and>
     set xs \<subseteq> set (map p_payload items) \<and>
     fk_lines (w_sink w') = fk_lines (w_sink w) @ xs @ (if q = ok then map p_payload items else []) \<and>
     j \<le> length items \<and> files_of w' = map_option (mark_all (take j items)) (files_of w) \<and>
     (case q of
        Inr u \<Rightarrow> (\<forall>x. x \<notin> mark_paths w \<longrightarrow> w_disk w' x = w_disk w x) \<and> (r = ok \<longrightarrow> j = length items) \<and>
          w_pipe w' = (if r = ok then exit_hibernate (reset_consecutive_dlq (w_pipe w)) else w_pipe w)
      | Inl e \<Rightarrow>
          if on_flush_failure_or_default (publish_batch cfg) = ''hibernate'' \<and> publish_batch_enabled pd (publish_batch cfg) then
            r = ok \<and> j = 0 \<and> w_disk w' = w_disk w \<and> hibernating (w_pipe w') \<and> hibernate_batch (w_pipe w') = items \<and>
            hibernate_detail (w_pipe w') = err_msg e
          else if on_flush_failure_or_default (publish_batch cfg) = ''dead_letter'' \<and> dead_letter_enabled pd cfg then
            (r = ok \<or> 0 < j \<longrightarrow> w_disk w' (final_path env dir) = Some (jsonl (map p_payload items))) \<and>
            (r = ok \<longrightarrow> j = length items \<and> consecutive_dlq (w_pipe w') = consecutive_dlq (w_pipe w) + 1 \<and>
               (hibernating (w_pipe w') \<longleftrightarrow> hibernating (w_pipe w) \<or>
                  consecutive_dlq (w_pipe w') \<ge> max_consecutive_batches_or_default (pb_dead_letter (publish_batch cfg)))) \<and>
            (r \<noteq> ok \<longrightarrow> w_pipe w' = w_pipe w)
          else r = Inl e \<and> j = 0 \<and> w_disk w' = w_disk w \<and> w_pipe w' = w_pipe w)"
  using assms by (rule file_snk.flush_items_result)

text \<open>One attempt, then a dead letter; the sink's disk is full.\<close>

definition sample_pd :: duration_parser where
  "sample_pd = (\<lambda>s. failing ''no duration'')"

definition sample_item :: pending where
  "sample_item = \<lparr>p_payload = ''{}'', p_path = ''/a'', p_offset = 3, p_inode = 7\<rparr>"

definition sample_world :: "write_answer list \<Rightarrow> file_sink world" where
  "sample_world answers = \<lparr>w_sink = new_file answers,
     w_marks = Some (fresh_store ''/w'' \<lparr>o_flush_interval = 1, o_flush_every = 0, o_reset_on_corrupt = False\<rparr>),
     w_disk = (\<lambda>_. None), w_disks = [], w_persist = [], w_dl = [sample_dl_env\<lparr>dle_writes := []\<rparr>], w_pipe = new_pipe_state\<rparr>"

definition once_config :: pipeline_config where
  "once_config = (let c = cfg_pipeline (default_config []) in
     c\<lparr>publish_retry := \<lparr>initial_backoff = [], max_backoff = [], retry_max_attempts = 1\<rparr>,
       publish_batch := (publish_batch c)\<lparr>pb_on_flush_failure := ''dead_letter'',
         pb_dead_letter := \<lparr>dl_path = ''/dlq'', dl_max_consecutive_batches = 1\<rparr>\<rparr>\<rparr>)"

lemma once_values [simp]:
  "rp_max_attempts (retry_policy_of sample_pd once_config) = 1"
  "on_flush_failure_or_default (publish_batch once_config) = ''dead_letter''"
  "publish_batch_enabled sample_pd (publish_batch once_config)"
  "dl_path (pb_dead_letter (publish_batch once_config)) = ''/dlq''"
  "max_consecutive_batches_or_default (pb_dead_letter (publish_batch once_config)) = 1"
  by (simp_all add: retry_policy_of_def max_attempts_or_default_def once_config_def default_config_def Let_def
      on_flush_failure_or_default_def publish_batch_enabled_def max_consecutive_batches_or_default_def)

lemma sample_attempt:
  "\<exists>k e. publish_batch_with_retry the_file_sink (retry_policy_of sample_pd once_config) (\<lambda>_. None) [''{}'']
      (new_file [Some (0, ErrText ''full'')]) = Some (k, [], Inl e) \<and> fk_lines k = []"
  unfolding publish_batch_with_retry_def
  by (subst retry_from_unfold) (simp add: publish_to_sink_def the_file_sink_def
      file_publish_batch_def fk_open_locked_def new_file_def fk_write_def out_of_attempts_def)

lemma sample_final: "fp_join [''/dlq'', ''t_x.jsonl''] = ''/dlq/t_x.jsonl''"
  by code_simp

lemma sample_write:
  "\<exists>ds. write_batch (sample_dl_env\<lparr>dle_writes := []\<rparr>) ''/dlq'' [''{}''] info (\<lambda>_. None) = (ds, Inr (''t_x.jsonl'', 3))"
  by (simp add: write_batch_def commit_batch_def write_meta_def f_write_def Let_def sample_fields)

lemma sample_flush:
  "\<exists>w'. flush_items the_file_sink sample_pd once_config ''file'' (\<lambda>_. None) [sample_item]
       (sample_world [Some (0, ErrText ''full'')]) = Some (w', ok) \<and> fk_lines (w_sink w') = [] \<and>
     files_of w' = Some [(''/a'', \<lparr>w_offset = 3, w_inode = 7\<rparr>)] \<and> hibernate_batch (w_pipe w') = []"
proof -
  obtain k e where k: "publish_batch_with_retry the_file_sink (retry_policy_of sample_pd once_config) (\<lambda>_. None) [''{}'']
      (new_file [Some (0, ErrText ''full'')]) = Some (k, [], Inl e)" "fk_lines k = []"
    using sample_attempt by blast
  obtain ds where ds: "write_batch (sample_dl_env\<lparr>dle_writes := []\<rparr>) ''/dlq'' [''{}''] \<lparr>wi_failure_reason = err_msg e,
      wi_sink_type = ''file'', wi_batch_attempts = max_attempts_or_default (publish_batch once_config) (publish_retry once_config)\<rparr>
      (\<lambda>_. None) = (ds, Inr (''t_x.jsonl'', 3))"
    using sample_write by blast
  show ?thesis
    using k by (simp add: flush_items_def sample_item_def sample_world_def flush_failed_def Let_def dead_letter_enabled_def
        handle_dead_letter_flush_def next_dl_def ds add_disks_def set_mark_def wm_set_def should_persist_def fresh_store_def
        increment_consecutive_dlq_def files_of_def case_prod_beta gm_empty_def new_pipe_state_def enter_hibernate_def)
qed

theorem flush_items_outcome_witness:
  "\<exists>w'. flush_items the_file_sink sample_pd once_config ''file'' (\<lambda>_. None) [sample_item]
       (sample_world [Some (0, ErrText ''full'')]) = Some (w', ok) \<and>
     w_disk w' (fp_join [''/dlq'', ''t_x.jsonl'']) = Some (''{}'' @ [NL]) \<and>
     files_of w' = Some [(''/a'', \<lparr>w_offset = 3, w_inode = 7\<rparr>)] \<and> hibernating (w_pipe w')"
proof -
  let ?w = "sample_world [Some (0, ErrText ''full'')]" and ?env = "sample_dl_env\<lparr>dle_writes := []\<rparr>"
  obtain w' where w': "flush_items the_file_sink sample_pd once_config ''file'' (\<lambda>_. None) [sample_item] ?w = Some (w', ok)"
      "fk_lines (w_sink w') = []" "files_of w' = Some [(''/a'', \<lparr>w_offset = 3, w_inode = 7\<rparr>)]"
    using sample_flush by blast
  have w: "next_dl ?w = ?env" "w_disk ?w q = None" "mark_paths ?w = {''/w'', tmp_path ''/w''}" "w_pipe ?w = new_pipe_state"
    "fk_lines (w_sink ?w) = []" for q
    by (simp_all add: sample_world_def next_dl_def mark_paths_def fresh_store_def new_file_def)
  have fin: "final_path ?env ''/dlq'' = fp_join [''/dlq'', ''t_x.jsonl'']" "final_path ?env ''/dlq'' \<notin> mark_paths ?w"
    by (simp_all add: w(3) sample_final tmp_path_def)
  obtain k e where k: "publish_batch_with_retry the_file_sink (retry_policy_of sample_pd once_config) (\<lambda>_. None) [''{}''] (w_sink ?w) =
      Some (k, [], Inl e)"
    using sample_attempt by (auto simp: sample_world_def)
  have "w_disk w' (final_path ?env ''/dlq'') = Some (''{}'' @ [NL]) \<and> hibernating (w_pipe w')"
    using flush_items_outcome [OF w'(1) _ once_values(4) w(1) _ w(2) fin(2)] k
    by (auto simp: w new_pipe_state_def sample_item_def dead_letter_enabled_def)
  then show ?thesis using w' fin(1) by auto
qed

end
