(* ===== verification/Pipeline.thy ===== *)
theory Pipeline
  imports Truncate Parser RecordFilter Enrich Flush
begin

text \<open>
  The pipeline (\<open>internal/pipeline/pipeline.go\<close>): construction, what \<open>process\<close> makes of a record, and
  \<open>Run\<close> without batching, where every record is published and its watermark moved before the next.
  With batching the outcome of \<open>process\<close> is handed to the flusher (\<open>BatchPipeline\<close>).
\<close>

section \<open>Construction\<close>

text \<open>The registries of the four kinds of stages and what the libraries under them provide.\<close>

record ('l, 't) registries =
  reg_parsers :: "string \<rightharpoonup> parser_factory"
  reg_transforms :: "string \<rightharpoonup> transform_factory"
  reg_enrichers :: "string \<rightharpoonup> enricher_factory"
  reg_filters :: "string \<rightharpoonup> filter_factory"
  reg_parser_names :: "string list"
  reg_transform_names :: "string list"
  reg_filter_names :: "string list"
  reg_time :: "('l, 't) time_pkg"

text \<open>The stages of a \<open>Pipeline\<close>; the sink, the watermarks and the counters are in the world of \<open>Flush\<close>.\<close>

record 'l pipeline =
  pl_cfg :: config
  pl_parser :: builtin_parser
  pl_transformer :: transformer
  pl_normalizer :: "'l normalizer option"
  pl_filter :: predicate
  pl_enrichers :: "enricher list"
  pl_batch_enabled :: bool

definition new_pipeline :: "('l, 't) registries \<Rightarrow> duration_parser \<Rightarrow> config \<Rightarrow> 'l pipeline result" where
  "new_pipeline regs pd cfg =
     bind_res (new_parser (reg_parsers regs) (reg_parser_names regs) (cfg_parser cfg)) (\<lambda>p.
     bind_res (new_transformer (reg_transforms regs) (reg_transform_names regs) (cfg_transform cfg)) (\<lambda>t.
     bind_res (new_chain (reg_enrichers regs) (cfg_enrichers cfg)) (\<lambda>chain.
     bind_res (new_normalizer (reg_time regs) (cfg_timestamp cfg)) (\<lambda>n.
     bind_res (new_filter (reg_filters regs) (reg_filter_names regs) (cfg_filter cfg)) (\<lambda>f.
       Inr \<lparr>pl_cfg = cfg, pl_parser = p, pl_transformer = t, pl_normalizer = n, pl_filter = f,
            pl_enrichers = chain, pl_batch_enabled = publish_batch_enabled pd (publish_batch (cfg_pipeline cfg))\<rparr>)))))"

section \<open>What becomes of one record\<close>

text \<open>
  The outside of \<open>process\<close>: package \<open>time\<close>, \<open>strings.EqualFold\<close>, the clock when a record is
  processed, and the order in which Go ranges over a map.
\<close>

record ('l, 't) stage_env =
  se_time :: "('l, 't) time_pkg"
  se_equal_fold :: "string \<Rightarrow> string \<Rightarrow> bool"
  se_now :: "event \<Rightarrow> string"
  se_visit :: "go_record \<Rightarrow> (bytes \<times> gval) list"

datatype fate =
    Passed bytes bool
  | Skipped
  | Filtered
  | Refused go_error

definition wrap_record :: "event \<Rightarrow> go_error \<Rightarrow> go_record" where
  "wrap_record ev e =
     gm_put (gm_put (gm_put gm_empty ''_raw'' (VStr (ev_data ev))) ''_path'' (VStr (ev_path ev))) ''_error'' (VStr (err_msg e))"

text \<open>The stages after the transformer.\<close>

definition finish_stages :: "('l, 't) stage_env \<Rightarrow> 'l pipeline \<Rightarrow> event \<Rightarrow> go_record \<Rightarrow> fate" where
  "finish_stages env p ev r =
     (let r1 = gm_put r ''_path'' (VStr (ev_path ev));
          r2 = fst (normalize (se_time env) (se_now env ev) (pl_normalizer p) r1) in
      if \<not> predicate_match (se_equal_fold env) (pl_filter p) r2 then Filtered
      else
        (let r3 = apply_chain (pl_enrichers p) r2; pc = cfg_pipeline (pl_cfg p) in
         case marshal_publish_payload r3 (se_visit env r3) (max_publish_bytes pc)
             (truncate_field_or_default pc) (truncate_suffix_or_default pc) of
           Inl e \<Rightarrow> Refused e
         | Inr v \<Rightarrow> Passed (fst v) (snd v)))"

definition run_stages :: "('l, 't) stage_env \<Rightarrow> 'l pipeline \<Rightarrow> event \<Rightarrow> fate" where
  "run_stages env p ev =
     (case transform_line (pl_transformer p) (ev_data ev) of
        Inr r \<Rightarrow> finish_stages env p ev r
      | Inl e \<Rightarrow>
          (let pol = transform_on_error (cfg_transform (pl_cfg p)) in
           if pol = ''skip'' then Skipped
           else if pol = ''wrap'' then finish_stages env p ev (wrap_record ev e)
           else Refused e))"

definition pending_of :: "event \<Rightarrow> bytes \<Rightarrow> pending" where
  "pending_of ev payload = \<lparr>p_payload = payload, p_path = ev_path ev, p_offset = ev_offset ev, p_inode = ev_inode ev\<rparr>"

section \<open>Run without batching\<close>

text \<open>
  The rest of the outside: the sink, durations, the type of the sink for dead letters, and, for the
  publish of a record, the error of the context when it is done during the \<open>n\<close>th wait.
\<close>

record ('k, 'l, 't) run_env =
  re_stages :: "('l, 't) stage_env"
  re_sink :: "'k sink"
  re_durations :: duration_parser
  re_done :: "event \<Rightarrow> nat \<Rightarrow> go_error option"
  re_drain_done :: "nat \<Rightarrow> go_error option"

text \<open>\<open>process\<close> when batching is off; \<open>None\<close> when the retries do not end.\<close>

definition process_event ::
  "('k, 'l, 't) run_env \<Rightarrow> 'l pipeline \<Rightarrow> event \<Rightarrow> 'k world \<Rightarrow> ('k world \<times> check) option" where
  "process_event env p ev w =
     (case run_stages (re_stages env) p ev of
        Refused e \<Rightarrow> Some (w, Inl e)
      | Passed payload truncated \<Rightarrow>
          publish_and_advance (re_sink env) (re_durations env) (cfg_pipeline (pl_cfg p)) (re_done env ev)
            [pending_of ev payload] w
      | Skipped \<Rightarrow> Some (set_mark (ev_path ev) (int (ev_offset ev)) (ev_inode ev) w)
      | Filtered \<Rightarrow> Some (set_mark (ev_path ev) (int (ev_offset ev)) (ev_inode ev) w))"

fun process_events ::
  "('k, 'l, 't) run_env \<Rightarrow> 'l pipeline \<Rightarrow> event list \<Rightarrow> 'k world \<Rightarrow> ('k world \<times> check) option" where
  "process_events env p [] w = Some (w, ok)"
| "process_events env p (ev # evs) w =
     (case process_event env p ev w of
        None \<Rightarrow> None
      | Some (w1, Inl e) \<Rightarrow> Some (w1, Inl e)
      | Some (w1, Inr u) \<Rightarrow> process_events env p evs w1)"

text \<open>\<open>flushParser\<close>; \<open>order\<close> is the order in which the parser ranges over its buffers.\<close>

definition run_flush_parser ::
  "('k, 'l, 't) run_env \<Rightarrow> 'l pipeline \<Rightarrow> string list \<Rightarrow> ml_state \<Rightarrow> 'k world \<Rightarrow> ((ml_state \<times> 'k world) \<times> check) option" where
  "run_flush_parser env p order ps w =
     (case parser_flush (pl_parser p) order ps of (ps', evs) \<Rightarrow>
        map_option (\<lambda>wr. ((ps', fst wr), snd wr)) (process_events env p evs w))"

definition run_shutdown ::
  "('k, 'l, 't) run_env \<Rightarrow> 'l pipeline \<Rightarrow> string list \<Rightarrow> ml_state \<Rightarrow> 'k world \<Rightarrow> ('k world \<times> check) option" where
  "run_shutdown env p order ps w =
     (case run_flush_parser env p order ps w of
        None \<Rightarrow> None
      | Some ((ps', w1), Inl e) \<Rightarrow> Some (w1, Inl e)
      | Some ((ps', w1), Inr u) \<Rightarrow>
          drain_hibernate_batch (re_sink env) (re_durations env) (cfg_pipeline (pl_cfg p)) (sink_type (cfg_sink (pl_cfg p)))
            (re_drain_done env) w1)"

text \<open>\<open>exitErr\<close>: the error of the run wins over that of the shutdown.\<close>

definition exit_err ::
  "('k, 'l, 't) run_env \<Rightarrow> 'l pipeline \<Rightarrow> string list \<Rightarrow> go_error \<Rightarrow> ml_state \<Rightarrow> 'k world \<Rightarrow> ('k world \<times> check) option" where
  "exit_err env p order e ps w = map_option (\<lambda>wr. (fst wr, Inl e)) (run_shutdown env p order ps w)"

text \<open>What the \<open>select\<close> of \<open>Run\<close> finds: a line, or the idle timer of the parser.  The list ends when
the channel is closed or the context is cancelled.\<close>

datatype run_input = InLine line_event | InIdle "string list"

fun run_pipeline ::
  "('k, 'l, 't) run_env \<Rightarrow> 'l pipeline \<Rightarrow> string list \<Rightarrow> run_input list \<Rightarrow> ml_state \<Rightarrow> 'k world \<Rightarrow> ('k world \<times> check) option" where
  "run_pipeline env p order [] ps w = run_shutdown env p order ps w"
| "run_pipeline env p order (InIdle order1 # ins) ps w =
     (case run_flush_parser env p order1 ps w of
        None \<Rightarrow> None
      | Some ((ps1, w1), Inl e) \<Rightarrow> exit_err env p order e ps1 w1
      | Some ((ps1, w1), Inr u) \<Rightarrow> run_pipeline env p order ins ps1 w1)"
| "run_pipeline env p order (InLine l # ins) ps w =
     (case parser_feed (pl_parser p) ps l of (ps1, evs) \<Rightarrow>
        (case process_events env p evs w of
           None \<Rightarrow> None
         | Some (w1, Inl e) \<Rightarrow> exit_err env p order e ps1 w1
         | Some (w1, Inr u) \<Rightarrow> run_pipeline env p order ins ps1 w1))"

section \<open>The records of a run\<close>

text \<open>All records the parser emits in a run, the flushes included.\<close>

fun parser_run ::
  "('s \<Rightarrow> line_event \<Rightarrow> 's \<times> event list) \<Rightarrow> (string list \<Rightarrow> 's \<Rightarrow> 's \<times> event list) \<Rightarrow> string list \<Rightarrow>
     run_input list \<Rightarrow> 's \<Rightarrow> event list" where
  "parser_run feed flush order [] s = snd (flush order s)"
| "parser_run feed flush order (InIdle order1 # ins) s =
     (case flush order1 s of (s1, es) \<Rightarrow> es @ parser_run feed flush order ins s1)"
| "parser_run feed flush order (InLine l # ins) s =
     (case feed s l of (s1, es) \<Rightarrow> es @ parser_run feed flush order ins s1)"

text \<open>Every flush of the run visits all buffers.\<close>

fun flushes_visit_all ::
  "('s \<Rightarrow> line_event \<Rightarrow> 's \<times> event list) \<Rightarrow> (string list \<Rightarrow> 's \<Rightarrow> 's \<times> event list) \<Rightarrow> (string list \<Rightarrow> 's \<Rightarrow> bool) \<Rightarrow>
     string list \<Rightarrow> run_input list \<Rightarrow> 's \<Rightarrow> bool" where
  "flushes_visit_all feed flush visited order [] s = visited order s"
| "flushes_visit_all feed flush visited order (InIdle order1 # ins) s =
     (visited order1 s \<and> flushes_visit_all feed flush visited order ins (fst (flush order1 s)))"
| "flushes_visit_all feed flush visited order (InLine l # ins) s =
     flushes_visit_all feed flush visited order ins (fst (feed s l))"

definition lines_of :: "run_input list \<Rightarrow> line_event list" where
  "lines_of ins = concat (map (\<lambda>i. case i of InLine l \<Rightarrow> [l] | InIdle order \<Rightarrow> []) ins)"

lemma lines_of_simps [simp]:
  "lines_of [] = []" "lines_of (InLine l # ins) = l # lines_of ins" "lines_of (InIdle order # ins) = lines_of ins"
  by (simp_all add: lines_of_def)

context record_parser
begin

lemma parser_run_cuts:
  "\<lbrakk>rep g s; flushes_visit_all feed flush all_visited order ins s\<rbrakk> \<Longrightarrow>
     cuts p (g p @ of_path p (lines_of ins)) (parser_run feed flush order ins s) []"
proof (induction ins arbitrary: g s)
  case Nil
  obtain s1 es where f: "flush order s = (s1, es)" by force
  show ?case using flush_cuts [OF Nil.prems(1) _ f] Nil.prems(2) f by (simp add: of_path_def)
next
  case (Cons i ins)
  show ?case
  proof (cases i)
    case (InLine l)
    obtain s1 es where f: "feed s l = (s1, es)" by force
    obtain g1 where g1: "rep g1 s1" "\<And>p. cuts p (g p @ of_path p [l]) es (g1 p)"
      using feed_cuts [OF Cons.prems(1) f] by blast
    have "cuts p (g1 p @ of_path p (lines_of ins)) (parser_run feed flush order ins s1) []"
      using Cons.IH [OF g1(1)] Cons.prems(2) f InLine by simp
    moreover have "of_path p (lines_of (i # ins)) = of_path p [l] @ of_path p (lines_of ins)"
      using InLine by (simp add: of_path_def)
    ultimately show ?thesis using cuts_append [OF g1(2)] f InLine by simp
  next
    case (InIdle order1)
    obtain s1 es where f: "flush order1 s = (s1, es)" by force
    have v: "all_visited order1 s" using Cons.prems(2) InIdle by simp
    have "cuts p ([] @ of_path p (lines_of ins)) (parser_run feed flush order ins s1) []"
      using Cons.IH [of "\<lambda>p. []" s1] flush_cuts [OF Cons.prems(1) v f] Cons.prems(2) f InIdle by simp
    moreover have "cuts p (g p) es []" using flush_cuts [OF Cons.prems(1) v f] by blast
    ultimately have "cuts p (g p @ of_path p (lines_of ins)) (es @ parser_run feed flush order ins s1) []"
      by (rule cuts_append [rotated])
    then show ?thesis using f InIdle by simp
  qed
qed

end

text \<open>The parser behind the interface is one of the two of \<open>Parser\<close>.\<close>

definition bp_visited :: "builtin_parser \<Rightarrow> string list \<Rightarrow> ml_state \<Rightarrow> bool" where
  "bp_visited pr order s = (case pr of LineParser \<Rightarrow> True | MultilineParser start \<Rightarrow> visits_all order s)"

definition bp_rep :: "builtin_parser \<Rightarrow> (string \<Rightarrow> line_event list) \<Rightarrow> ml_state \<Rightarrow> bool" where
  "bp_rep pr g s = (case pr of LineParser \<Rightarrow> line_rep g () | MultilineParser start \<Rightarrow> ml_rep g s)"

interpretation bp: record_parser "parser_feed pr" "parser_flush pr" "bp_visited pr" "bp_rep pr" for pr
proof
  fix g s e s' es
  assume "bp_rep pr g s" "parser_feed pr s e = (s', es)"
  then show "\<exists>g'. bp_rep pr g' s' \<and> (\<forall>p. cuts p (g p @ of_path p [e]) es (g' p))"
    using lp.feed_cuts [of g "()" e "()"] ml.feed_cuts [of g s _ e]
    by (cases pr) (auto simp: bp_rep_def parser_feed_def line_feed_def)
next
  fix g s order s' es
  assume "bp_rep pr g s" "bp_visited pr order s" "parser_flush pr order s = (s', es)"
  then show "bp_rep pr (\<lambda>p. []) s' \<and> (\<forall>p. cuts p (g p) es [])"
    using lp.flush_cuts [of g "()" order "()"] ml.flush_cuts [of g s order]
    by (cases pr) (auto simp: bp_rep_def bp_visited_def parser_flush_def line_flush_def)
qed

lemma bp_rep_init: "bp_rep pr (\<lambda>p. []) parser_init"
  by (cases pr) (simp_all add: bp_rep_def line_rep_def ml_rep_init)

section \<open>What a run delivers\<close>

definition payloads_of :: "('l, 't) stage_env \<Rightarrow> 'l pipeline \<Rightarrow> event list \<Rightarrow> bytes list" where
  "payloads_of env p evs = concat (map (\<lambda>ev. case run_stages env p ev of Passed payload t \<Rightarrow> [payload] | _ \<Rightarrow> []) evs)"

lemma payloads_of_simps [simp]:
  "payloads_of env p [] = []"
  "payloads_of env p (ev # evs) =
     (case run_stages env p ev of Passed payload t \<Rightarrow> [payload] | _ \<Rightarrow> []) @ payloads_of env p evs"
  by (simp_all add: payloads_of_def)

definition event_mark :: "event \<Rightarrow> wm_files \<Rightarrow> wm_files" where
  "event_mark ev m = gm_put m (ev_path ev) \<lparr>w_offset = int (ev_offset ev), w_inode = ev_inode ev\<rparr>"

definition mark_events :: "event list \<Rightarrow> wm_files \<Rightarrow> wm_files" where
  "mark_events evs m = foldl (\<lambda>m ev. event_mark ev m) m evs"

lemma mark_events_simps [simp]:
  "mark_events [] m = m" "mark_events (ev # evs) m = mark_events evs (event_mark ev m)"
  by (simp_all add: mark_events_def)

lemma mark_events_fun [simp]: "mark_events [] = (\<lambda>m. m)" "mark_events [ev] = event_mark ev"
  by (simp_all add: fun_eq_iff)

text \<open>Each element one or more times, in order.\<close>

inductive repeated :: "'a list \<Rightarrow> 'a list \<Rightarrow> bool" where
  repeated_Nil: "repeated [] []"
| repeated_Cons: "\<lbrakk>repeated ys xs; 0 < n\<rbrakk> \<Longrightarrow> repeated (y # ys) (replicate n y @ xs)"

inductive_cases repeated_NilE: "repeated [] xs"

lemma repeated_set: "repeated ys xs \<Longrightarrow> set xs = set ys"
  by (induction rule: repeated.induct) auto

lemma item_mark_pending [simp]: "item_mark (pending_of ev payload) = event_mark ev"
  by (simp add: fun_eq_iff item_mark_def event_mark_def pending_of_def)

lemma set_mark_event:
  assumes "set_mark (ev_path ev) (int (ev_offset ev)) (ev_inode ev) w = (w', r)"
  shows "files_of w' = map_option (event_mark ev) (files_of w)" "w_sink w' = w_sink w" "w_pipe w' = w_pipe w"
  using set_mark_result [OF assms] by (simp_all add: event_mark_def [abs_def])

context sink_contract
begin

lemma replicate_of_set: "set xs \<subseteq> {x} \<Longrightarrow> xs = replicate (length xs) x"
  by (induction xs) auto

lemma publish_one:
  assumes "publish_and_advance s pd cfg dn [it] w = Some (w', r)"
  shows "\<exists>n. log (w_sink w') = log (w_sink w) @ replicate n (p_payload it) \<and> w_pipe w' = w_pipe w \<and>
     (0 < n \<and> files_of w' = map_option (item_mark it) (files_of w) \<or> r \<noteq> ok \<and> files_of w' = files_of w)"
proof -
  obtain k waits q where p: "publish_batch_with_retry s (retry_policy_of pd cfg) dn [p_payload it] (w_sink w) = Some (k, waits, q)"
    using assms by (auto simp: publish_and_advance_def split: option.splits)
  from retry_delivers [OF p [unfolded publish_batch_with_retry_def]] obtain xs
    where xs: "set xs \<subseteq> {p_payload it}" "log k = log (w_sink w) @ xs @ (if q = ok then [p_payload it] else [])" by auto
  define n where "n = length xs"
  have rep: "xs = replicate n (p_payload it)" using replicate_of_set [OF xs(1)] by (simp add: n_def)
  show ?thesis
  proof (cases q)
    case (Inl e)
    then have "w' = w\<lparr>w_sink := k\<rparr>" "r \<noteq> ok" using assms p by (auto simp: publish_and_advance_def)
    then show ?thesis using xs(2) rep Inl by (intro exI [of _ n]) simp
  next
    case (Inr u)
    have adv: "advance_watermarks [it] (w\<lparr>w_sink := k\<rparr>) = (w', r)"
      using assms p Inr by (simp add: publish_and_advance_def)
    then obtain q' where "set_mark (p_path it) (int (p_offset it)) (p_inode it) (w\<lparr>w_sink := k\<rparr>) = (w', q')"
      by (auto split: prod.splits sum.splits)
    note m = set_mark_result [OF this]
    have "log k = log (w_sink w) @ replicate (Suc n) (p_payload it)"
      using xs(2) rep Inr by (simp add: replicate_append_same)
    then show ?thesis using m by (intro exI [of _ "Suc n"]) (simp add: item_mark_def [abs_def])
  qed
qed

lemma pending_payload [simp]: "p_payload (pending_of ev payload) = payload" "concat (replicate n [x]) = replicate n x"
  by (simp add: pending_of_def) (induction n, simp_all)

lemma process_event_result:
  assumes "process_event env p ev w = Some (w', r)" "re_sink env = s"
  shows "w_pipe w' = w_pipe w \<and>
     (\<exists>n. log (w_sink w') = log (w_sink w) @ concat (replicate n (payloads_of (re_stages env) p [ev])) \<and>
       (0 < n \<and> files_of w' = map_option (mark_events [ev]) (files_of w) \<or> r \<noteq> ok \<and> files_of w' = files_of w))"
proof (cases "run_stages (re_stages env) p ev")
  case (Passed payload t)
  have "publish_and_advance s (re_durations env) (cfg_pipeline (pl_cfg p)) (re_done env ev) [pending_of ev payload] w = Some (w', r)"
    using assms Passed by (simp add: process_event_def)
  from publish_one [OF this] Passed show ?thesis
    by (auto simp: pending_payload)
next
  case (Refused e)
  then show ?thesis using assms by (auto simp: process_event_def)
next
  case Skipped
  then have "set_mark (ev_path ev) (int (ev_offset ev)) (ev_inode ev) w = (w', r)" using assms(1) by (simp add: process_event_def)
  from set_mark_event [OF this] show ?thesis using Skipped by (auto intro: exI [of _ 1])
next
  case Filtered
  then have "set_mark (ev_path ev) (int (ev_offset ev)) (ev_inode ev) w = (w', r)" using assms(1) by (simp add: process_event_def)
  from set_mark_event [OF this] show ?thesis using Filtered by (auto intro: exI [of _ 1])
qed

text \<open>The records before the one that failed were delivered and marked, and nothing after it was.\<close>

lemma process_events_result:
  assumes "process_events env p evs w = Some (w', r)" "re_sink env = s"
  shows "w_pipe w' = w_pipe w \<and>
     (\<exists>k xs ys. k \<le> length evs \<and> (r = ok \<longrightarrow> k = length evs \<and> ys = []) \<and>
       log (w_sink w') = log (w_sink w) @ xs @ ys \<and> repeated (payloads_of (re_stages env) p (take k evs)) xs \<and>
       set ys \<subseteq> set (payloads_of (re_stages env) p (take 1 (drop k evs))) \<and>
       files_of w' = map_option (mark_events (take k evs)) (files_of w))"
  using assms
proof (induction evs arbitrary: w)
  case Nil
  then show ?case
    by (intro conjI exI [of _ 0] exI [of _ "[]"]) (auto intro: repeated_Nil simp: option.map_ident)
next
  case (Cons ev evs)
  obtain w1 q where e: "process_event env p ev w = Some (w1, q)"
    using Cons.prems(1) by (auto split: option.splits prod.splits sum.splits)
  from process_event_result [OF e Cons.prems(2)] obtain n where n: "w_pipe w1 = w_pipe w"
    "log (w_sink w1) = log (w_sink w) @ concat (replicate n (payloads_of (re_stages env) p [ev]))"
    "0 < n \<and> files_of w1 = map_option (event_mark ev) (files_of w) \<or> q \<noteq> ok \<and> files_of w1 = files_of w" by auto
  let ?one = "concat (replicate n (payloads_of (re_stages env) p [ev]))"
  have one: "repeated (payloads_of (re_stages env) p (ev # es)) (?one @ xs)"
    if "0 < n" "repeated (payloads_of (re_stages env) p es) xs" for es xs
    using that by (cases "run_stages (re_stages env) p ev") (auto intro: repeated_Cons)
  show ?case
  proof (cases q)
    case (Inl x)
    then have w1: "w' = w1" "r \<noteq> ok" using Cons.prems(1) e by auto
    show ?thesis
    proof (cases "0 < n \<and> files_of w1 = map_option (event_mark ev) (files_of w)")
      case True
      then show ?thesis
        using n w1 one [of "[]" "[]"] repeated_Nil
        by - (rule conjI, simp, rule exI [of _ 1], rule exI [of _ ?one], rule exI [of _ "[]"], simp)
    next
      case False
      then have "files_of w1 = files_of w" using n(3) by blast
      moreover have "set ?one \<subseteq> set (payloads_of (re_stages env) p [ev])" by auto
      ultimately show ?thesis
        using n w1 repeated_Nil
        by - (rule conjI, simp, rule exI [of _ 0], rule exI [of _ "[]"], rule exI [of _ ?one], simp add: option.map_ident)
    qed
  next
    case (Inr u)
    then have pos: "0 < n" "files_of w1 = map_option (event_mark ev) (files_of w)" using n(3) by auto
    have "process_events env p evs w1 = Some (w', r)" using Cons.prems(1) e Inr by simp
    from Cons.IH [OF this Cons.prems(2)] obtain k xs ys where k: "w_pipe w' = w_pipe w1" "k \<le> length evs"
      "r = ok \<longrightarrow> k = length evs \<and> ys = []" "log (w_sink w') = log (w_sink w1) @ xs @ ys"
      "repeated (payloads_of (re_stages env) p (take k evs)) xs"
      "set ys \<subseteq> set (payloads_of (re_stages env) p (take 1 (drop k evs)))"
      "files_of w' = map_option (mark_events (take k evs)) (files_of w1)" by blast
    have "files_of w' = map_option (\<lambda>m. mark_events (take k evs) (event_mark ev m)) (files_of w)"
      using k(7) pos(2) by (simp add: option.map_comp comp_def)
    then show ?thesis
      using k n pos one [OF pos(1) k(5)]
      by - (rule conjI, simp, rule exI [of _ "Suc k"], rule exI [of _ "?one @ xs"], rule exI [of _ ys], simp)
  qed
qed

lemma process_events_ok:
  assumes "process_events env p evs w = Some (w', ok)" "re_sink env = s"
  shows "\<exists>xs. log (w_sink w') = log (w_sink w) @ xs \<and> repeated (payloads_of (re_stages env) p evs) xs \<and>
     files_of w' = map_option (mark_events evs) (files_of w) \<and> w_pipe w' = w_pipe w"
  using process_events_result [OF assms] by auto

text \<open>A run that returns nil has processed every record the parser emitted.\<close>

lemma run_flush_parser_ok:
  assumes "run_flush_parser env p order ps w = Some ((ps1, w1), ok)"
  shows "process_events env p (snd (parser_flush (pl_parser p) order ps)) w = Some (w1, ok)"
    "ps1 = fst (parser_flush (pl_parser p) order ps)"
  using assms by (auto simp: run_flush_parser_def split: prod.splits)

lemma run_shutdown_ok:
  assumes "run_shutdown env p order ps w = Some (w', ok)" "\<not> hibernating (w_pipe w)" "re_sink env = s"
  shows "process_events env p (snd (parser_flush (pl_parser p) order ps)) w = Some (w', ok)"
proof -
  obtain ps1 w1 q where f: "run_flush_parser env p order ps w = Some ((ps1, w1), q)"
    using assms(1) by (auto simp: run_shutdown_def split: option.splits)
  then have q: "q = ok" using assms(1) by (cases q) (auto simp: run_shutdown_def)
  note pe = run_flush_parser_ok(1) [OF f [unfolded q]]
  have "\<not> hibernating (w_pipe w1)" using process_events_ok [OF pe assms(3)] assms(2) by auto
  then show ?thesis using assms(1) f q pe by (simp add: run_shutdown_def drain_hibernate_batch_def)
qed

lemma run_pipeline_ok:
  assumes "run_pipeline env p order ins ps w = Some (w', ok)" "\<not> hibernating (w_pipe w)" "re_sink env = s"
  shows "process_events env p (parser_run (parser_feed (pl_parser p)) (parser_flush (pl_parser p)) order ins ps) w = Some (w', ok)"
  using assms
proof (induction ins arbitrary: ps w)
  case Nil
  then show ?case using run_shutdown_ok by simp
next
  case (Cons i ins)
  have app: "process_events env p (es @ fs) v = Some (v', ok)"
    if "process_events env p es v = Some (v1, ok)" "process_events env p fs v1 = Some (v', ok)" for es fs v v1 v'
    using that by (induction es arbitrary: v) (auto split: option.splits prod.splits sum.splits)
  have no_err: "exit_err env p order e qs v \<noteq> Some (w', ok)" for e qs v by (auto simp: exit_err_def)
  have go: ?case
    if es: "process_events env p es w = Some (w1, ok)" "run_pipeline env p order ins ps1 w1 = Some (w', ok)"
      "parser_run (parser_feed (pl_parser p)) (parser_flush (pl_parser p)) order (i # ins) ps =
        es @ parser_run (parser_feed (pl_parser p)) (parser_flush (pl_parser p)) order ins ps1" for es w1 ps1
  proof -
    have "\<not> hibernating (w_pipe w1)" using process_events_ok [OF es(1) Cons.prems(3)] Cons.prems(2) by auto
    from Cons.IH [OF es(2) this Cons.prems(3)] show ?thesis using app [OF es(1)] es(3) by simp
  qed
  show ?case
  proof (cases i)
    case (InLine l)
    obtain ps1 es where f: "parser_feed (pl_parser p) ps l = (ps1, es)" by force
    obtain w1 q where e: "process_events env p es w = Some (w1, q)"
      using Cons.prems(1) InLine f by (auto split: option.splits)
    have "q = ok" using Cons.prems(1) InLine f e no_err by (cases q) auto
    then show ?thesis using Cons.prems(1) InLine f e by (intro go [of es w1 ps1]) simp_all
  next
    case (InIdle order1)
    obtain ps1 w1 q where f: "run_flush_parser env p order1 ps w = Some ((ps1, w1), q)"
      using Cons.prems(1) InIdle by (auto split: option.splits)
    have q: "q = ok" using Cons.prems(1) InIdle f no_err by (cases q) auto
    show ?thesis using Cons.prems(1) InIdle f q run_flush_parser_ok [OF f [unfolded q]]
      by (intro go [of "snd (parser_flush (pl_parser p) order1 ps)" w1 ps1]) (auto split: prod.splits)
  qed
qed

end

section \<open>Properties\<close>

lemma process_events_accepts:
  "\<lbrakk>process_events env p evs w = Some (w', ok); ev \<in> set evs\<rbrakk> \<Longrightarrow> run_stages (re_stages env) p ev \<noteq> Refused e"
  by (induction evs arbitrary: w) (auto simp: process_event_def split: option.splits prod.splits sum.splits)

text \<open>
  C2.
  Without batching every line is accounted for, end to end: when \<open>Run\<close> returns nil, the lines of
  every file were cut into consecutive records, none lost, repeated or reordered; no record was
  refused by a stage; the file sink holds, after what it held, the payload of every record that was
  not skipped or filtered, in order and each at least once; and the watermark table is the initial
  one moved over exactly these records, so a restart begins after the last of them.
\<close>

theorem every_line_is_accounted_for:
  assumes "run_pipeline env p order ins parser_init w = Some (w', ok)" "re_sink env = the_file_sink"
    "\<not> hibernating (w_pipe w)"
    "flushes_visit_all (parser_feed (pl_parser p)) (parser_flush (pl_parser p)) (bp_visited (pl_parser p)) order ins parser_init"
  shows "\<exists>evs xs. (\<forall>path. cuts path (of_path path (lines_of ins)) evs []) \<and>
     (\<forall>ev \<in> set evs. \<forall>e. run_stages (re_stages env) p ev \<noteq> Refused e) \<and>
     fk_lines (w_sink w') = fk_lines (w_sink w) @ xs \<and> repeated (payloads_of (re_stages env) p evs) xs \<and>
     files_of w' = map_option (mark_events evs) (files_of w)"
proof -
  let ?evs = "parser_run (parser_feed (pl_parser p)) (parser_flush (pl_parser p)) order ins parser_init"
  have "\<forall>path. cuts path (of_path path (lines_of ins)) ?evs []"
    using bp.parser_run_cuts [OF bp_rep_init assms(4)] by simp
  moreover have r: "process_events env p ?evs w = Some (w', ok)"
    by (rule file_snk.run_pipeline_ok [OF assms(1,3,2)])
  moreover note file_snk.process_events_ok [OF r assms(2)]
  ultimately show ?thesis using process_events_accepts by (intro exI [of _ ?evs]) blast
qed

text \<open>
  C37.
  At least once, on every outcome: when processing a list of records stops, with or without an
  error, the watermarks have moved over a prefix of them and no further, the payloads of that prefix
  are in the file sink, in order and each at least once, and nothing else was written except possibly
  copies of the record at which it stopped.
\<close>

theorem watermark_moves_over_delivered_prefix:
  assumes "process_events env p evs w = Some (w', r)" "re_sink env = the_file_sink"
  shows "\<exists>k xs ys. k \<le> length evs \<and> (r = ok \<longrightarrow> k = length evs \<and> ys = []) \<and>
     fk_lines (w_sink w') = fk_lines (w_sink w) @ xs @ ys \<and> repeated (payloads_of (re_stages env) p (take k evs)) xs \<and>
     set ys \<subseteq> set (payloads_of (re_stages env) p (take 1 (drop k evs))) \<and>
     files_of w' = map_option (mark_events (take k evs)) (files_of w)"
  using file_snk.process_events_result [OF assms] by blast

section \<open>A sample pipeline\<close>

definition text_event :: "string \<Rightarrow> nat \<Rightarrow> event" where
  "text_event s n = \<lparr>ev_path = ''/a'', ev_data = s, ev_offset = n, ev_inode = 7\<rparr>"

definition text_line :: "string \<Rightarrow> nat \<Rightarrow> line_event" where
  "text_line s n = \<lparr>le_path = ''/a'', le_line = s, le_offset = n, le_inode = 7\<rparr>"

definition unbatched_config :: config where
  "unbatched_config = (default_config [])\<lparr>cfg_pipeline := once_config
     \<lparr>publish_batch := (publish_batch once_config)\<lparr>pb_max_bytes := 0, pb_flush_interval := ''0''\<rparr>, max_publish_bytes := 0\<rparr>\<rparr>"

definition text_pipeline :: "builtin_parser \<Rightarrow> unit pipeline" where
  "text_pipeline pr = \<lparr>pl_cfg = unbatched_config, pl_parser = pr,
     pl_transformer = CustomT (\<lambda>b. Inr [(''message'', VStr b)]), pl_normalizer = None, pl_filter = PassAll,
     pl_enrichers = [], pl_batch_enabled = False\<rparr>"

definition text_env :: "(file_sink, unit, nat) run_env" where
  "text_env = \<lparr>re_stages = \<lparr>se_time = sample_time, se_equal_fold = (=), se_now = (\<lambda>ev. ''now''), se_visit = (\<lambda>r. r)\<rparr>,
     re_sink = the_file_sink, re_durations = sample_pd, re_done = (\<lambda>ev n. None), re_drain_done = (\<lambda>n. None)\<rparr>"

lemma text_stages: "\<exists>pl. run_stages (re_stages text_env) (text_pipeline pr) (text_event s n) = Passed pl False"
proof -
  have "\<exists>pl. json_marshal (gm_put [(''message'', VStr s)] ''_path'' (VStr ''/a'')) = Inr pl"
    by (simp add: json_marshal_supported supported_def)
  then show ?thesis
    by (auto simp: run_stages_def finish_stages_def text_env_def text_pipeline_def text_event_def transform_line_def
        normalize_def apply_chain_def marshal_publish_payload_def unbatched_config_def Let_def)
qed

lemma unbatched_policy:
  "rp_max_attempts (retry_policy_of sample_pd (cfg_pipeline unbatched_config)) = 1"
  by (simp add: retry_policy_of_def max_attempts_or_default_def unbatched_config_def once_config_def default_config_def Let_def)

definition open_file :: "bytes list \<Rightarrow> file_sink" where
  "open_file ls = (new_file [])\<lparr>fk_open := True, fk_content := concat (map (\<lambda>l. l @ [NL]) ls), fk_lines := ls\<rparr>"

text \<open>The first write of the sink fails; a later one succeeds.\<close>

lemma text_publish_fails:
  "\<exists>e. publish_and_advance the_file_sink sample_pd (cfg_pipeline unbatched_config) dn [it] (sample_world [Some (0, ErrText ''full'')]) =
     Some ((sample_world [])\<lparr>w_sink := open_file []\<rparr>, Inl e)"
  unfolding publish_and_advance_def publish_batch_with_retry_def
  by (subst retry_from_unfold) (simp add: unbatched_policy publish_to_sink_def the_file_sink_def
        file_publish_batch_def fk_open_locked_def new_file_def fk_write_def out_of_attempts_def sample_world_def open_file_def)

lemma text_publish_works:
  "\<exists>w'. publish_and_advance the_file_sink sample_pd (cfg_pipeline unbatched_config) dn [it] ((sample_world [])\<lparr>w_sink := k\<rparr>) =
     Some (w', ok) \<and> fk_lines (w_sink w') = [p_payload it] \<and> files_of w' = Some (item_mark it []) \<and> \<not> hibernating (w_pipe w')"
  if "k \<in> {new_file [], open_file []}" for k
  using that
  unfolding publish_and_advance_def publish_batch_with_retry_def
  by (subst retry_from_unfold) (auto simp: unbatched_policy publish_to_sink_def the_file_sink_def
        file_publish_batch_def fk_open_locked_def new_file_def fk_write_def out_of_attempts_def sample_world_def open_file_def
        set_mark_def wm_set_def should_persist_def fresh_store_def Let_def add_disks_def files_of_def item_mark_def gm_empty_def new_pipe_state_def)

lemma text_env_simps [simp]:
  "re_sink text_env = the_file_sink" "re_durations text_env = sample_pd" "pl_cfg (text_pipeline pr) = unbatched_config"
  "pl_parser (text_pipeline pr) = pr" "re_done text_env ev = (\<lambda>n. None)"
  by (simp_all add: text_env_def text_pipeline_def)

lemma text_event_simps [simp]:
  "ev_path (text_event s n) = ''/a''" "ev_offset (text_event s n) = n" "ev_inode (text_event s n) = 7"
  "event_of_line (text_line s n) = text_event s n" "le_path (text_line s n) = ''/a''"
  by (simp_all add: text_event_def text_line_def event_of_line_def)

lemma text_event_works:
  "\<exists>w'. process_event text_env (text_pipeline pr) (text_event s n) ((sample_world [])\<lparr>w_sink := k\<rparr>) = Some (w', ok) \<and>
     fk_lines (w_sink w') = payloads_of (re_stages text_env) (text_pipeline pr) [text_event s n] \<and>
     files_of w' = Some [(''/a'', \<lparr>w_offset = int n, w_inode = 7\<rparr>)] \<and> \<not> hibernating (w_pipe w')"
  if k: "k \<in> {new_file [], open_file []}" for k
proof -
  obtain pl where pl: "run_stages (re_stages text_env) (text_pipeline pr) (text_event s n) = Passed pl False"
    using text_stages by blast
  from text_publish_works [OF k, of "\<lambda>n. None" "pending_of (text_event s n) pl"] pl show ?thesis
    by (auto simp: process_event_def event_mark_def)
qed

lemma text_run:
  "\<exists>w'. run_pipeline text_env (text_pipeline LineParser) [] [InLine (text_line ''x'' 2)] parser_init (sample_world []) = Some (w', ok)"
proof -
  have "sample_world [] = (sample_world [])\<lparr>w_sink := new_file []\<rparr>" by (simp add: sample_world_def)
  then obtain w' where "process_event text_env (text_pipeline LineParser) (text_event ''x'' 2) (sample_world []) = Some (w', ok)"
    "\<not> hibernating (w_pipe w')"
    using text_event_works [of "new_file []" LineParser "''x''" 2] by auto
  then show ?thesis
    by (simp add: parser_feed_def line_feed_def run_shutdown_def run_flush_parser_def parser_flush_def line_flush_def
        drain_hibernate_batch_def)
qed

theorem every_line_is_accounted_for_witness:
  "\<exists>w' evs. run_pipeline text_env (text_pipeline LineParser) [] [InLine (text_line ''x'' 2)] parser_init (sample_world []) = Some (w', ok) \<and>
     cuts ''/a'' [text_line ''x'' 2] evs [] \<and> files_of w' = Some (mark_events evs [])"
proof -
  obtain w' where w': "run_pipeline text_env (text_pipeline LineParser) [] [InLine (text_line ''x'' 2)] parser_init
      (sample_world []) = Some (w', ok)" using text_run by blast
  have "\<not> hibernating (w_pipe (sample_world []))" "files_of (sample_world []) = Some []"
    by (simp_all add: sample_world_def new_pipe_state_def files_of_def fresh_store_def gm_empty_def)
  with every_line_is_accounted_for [OF w'] obtain evs where "cuts ''/a'' (of_path ''/a'' [text_line ''x'' 2]) evs []"
    "files_of w' = Some (mark_events evs [])"
    by (auto simp: bp_visited_def)
  then show ?thesis using w' by (auto simp: of_path_def)
qed

text \<open>The first of two records fails to publish.\<close>

lemma text_event_fails:
  "\<exists>e. process_event text_env (text_pipeline pr) (text_event s n) (sample_world [Some (0, ErrText ''full'')]) =
     Some ((sample_world [])\<lparr>w_sink := open_file []\<rparr>, Inl e)"
proof -
  obtain pl where pl: "run_stages (re_stages text_env) (text_pipeline pr) (text_event s n) = Passed pl False"
    using text_stages by blast
  from text_publish_fails [of "\<lambda>n. None" "pending_of (text_event s n) pl"] pl show ?thesis
    by (auto simp: process_event_def)
qed

theorem watermark_moves_over_delivered_prefix_witness:
  "\<exists>w' e. process_events text_env (text_pipeline LineParser) [text_event ''x'' 2, text_event ''y'' 4]
       (sample_world [Some (0, ErrText ''full'')]) = Some (w', Inl e) \<and> fk_lines (w_sink w') = [] \<and>
     (\<exists>k \<le> 2. files_of w' = Some (mark_events (take k [text_event ''x'' 2, text_event ''y'' 4]) []))"
proof -
  obtain e where e: "process_events text_env (text_pipeline LineParser) [text_event ''x'' 2, text_event ''y'' 4]
       (sample_world [Some (0, ErrText ''full'')]) = Some ((sample_world [])\<lparr>w_sink := open_file []\<rparr>, Inl e)"
    using text_event_fails [of LineParser "''x''" 2] by auto
  have f: "files_of (sample_world [Some (0, ErrText ''full'')]) = Some []" "fk_lines (open_file []) = []"
    by (simp_all add: sample_world_def files_of_def fresh_store_def gm_empty_def open_file_def)
  let ?w = "(sample_world [])\<lparr>w_sink := open_file []\<rparr>"
  obtain k where "k \<le> length [text_event ''x'' 2, text_event ''y'' 4]"
      "files_of ?w = map_option (mark_events (take k [text_event ''x'' 2, text_event ''y'' 4]))
         (files_of (sample_world [Some (0, ErrText ''full'')]))"
    using watermark_moves_over_delivered_prefix [OF e text_env_simps(1)] by blast
  then have "k \<le> 2" "files_of ?w = Some (mark_events (take k [text_event ''x'' 2, text_event ''y'' 4]) [])"
    using f(1) by simp_all
  then show ?thesis using e f(2) by (intro exI [of _ ?w] exI [of _ e]) auto
qed

text \<open>
  C38.
  The shutdown after an error skips the record that failed: when publishing a multiline record
  fails for good, \<open>exitErr\<close> still flushes the parser, the next record of the same file is published, and
  its watermark moves past the record that was never delivered; after a restart it is not read again.
\<close>

theorem shutdown_skips_the_failed_record:
  "\<exists>w' e pl. run_pipeline text_env (text_pipeline (MultilineParser starts_S)) [''/a'']
       [InLine (text_line ''S1'' 3), InLine (text_line ''S2'' 6)] parser_init (sample_world [Some (0, ErrText ''full'')]) =
         Some (w', Inl e) \<and>
     run_stages (re_stages text_env) (text_pipeline (MultilineParser starts_S)) (text_event ''S2'' 6) = Passed pl False \<and>
     fk_lines (w_sink w') = [pl] \<and> files_of w' = Some [(''/a'', \<lparr>w_offset = 6, w_inode = 7\<rparr>)]"
proof -
  let ?p = "text_pipeline (MultilineParser starts_S)"
  obtain pl where pl: "run_stages (re_stages text_env) ?p (text_event ''S2'' 6) = Passed pl False" using text_stages by blast
  obtain e where e: "process_event text_env ?p (text_event ''S1'' 3) (sample_world [Some (0, ErrText ''full'')]) =
      Some ((sample_world [])\<lparr>w_sink := open_file []\<rparr>, Inl e)" using text_event_fails by blast
  obtain w' where w': "process_event text_env ?p (text_event ''S2'' 6) ((sample_world [])\<lparr>w_sink := open_file []\<rparr>) = Some (w', ok)"
    "fk_lines (w_sink w') = payloads_of (re_stages text_env) ?p [text_event ''S2'' 6]"
    "files_of w' = Some [(''/a'', \<lparr>w_offset = int 6, w_inode = 7\<rparr>)]" "\<not> hibernating (w_pipe w')"
    using text_event_works [of "open_file []"] by blast
  have b: "flush_buffer \<lparr>mb_path = ''/a'', mb_inode = 7, mb_lines = [s], mb_offset = n\<rparr> = text_event s n" for s n
    by (simp add: flush_buffer_def text_event_def)
  have f: "parser_feed (MultilineParser starts_S) parser_init (text_line ''S1'' 3) =
      ([(''/a'', \<lparr>mb_path = ''/a'', mb_inode = 7, mb_lines = [''S1''], mb_offset = 3\<rparr>)], [])"
    "parser_feed (MultilineParser starts_S) [(''/a'', \<lparr>mb_path = ''/a'', mb_inode = 7, mb_lines = [''S1''], mb_offset = 3\<rparr>)]
      (text_line ''S2'' 6) =
      ([(''/a'', \<lparr>mb_path = ''/a'', mb_inode = 7, mb_lines = [''S2''], mb_offset = 6\<rparr>)], [text_event ''S1'' 3])"
    "parser_flush (MultilineParser starts_S) [''/a''] [(''/a'', \<lparr>mb_path = ''/a'', mb_inode = 7, mb_lines = [''S2''], mb_offset = 6\<rparr>)] =
      ([], [text_event ''S2'' 6])"
    using b by (simp_all add: parser_feed_def parser_flush_def ml_feed_def text_line_def starts_S_def has_prefix_def
        parser_init_def gm_empty_def gm_get_def gm_del_def)
  show ?thesis
    using w' pl by (simp add: f e exit_err_def run_shutdown_def run_flush_parser_def drain_hibernate_batch_def)
qed

end
