(* ===== verification/Automaton.thy ===== *)
theory Automaton
  imports Prelude
begin

text \<open>
  Runs of a labelled step function that may refuse a label: an executable reading (a list of labels)
  and an inductive one (reachability), their equivalence, and the rule that carries an invariant from
  the single steps to all reachable states.  The concurrent components of the program are step
  functions of this kind.
\<close>

fun run_steps :: "('l \<Rightarrow> 's \<Rightarrow> 's option) \<Rightarrow> 'l list \<Rightarrow> 's \<Rightarrow> 's option" where
  "run_steps step [] s = Some s"
| "run_steps step (l # ls) s = (case step l s of None \<Rightarrow> None | Some s' \<Rightarrow> run_steps step ls s')"

text \<open>States reached with labels from a set.\<close>

inductive reaches :: "('l \<Rightarrow> 's \<Rightarrow> 's option) \<Rightarrow> ('l \<Rightarrow> bool) \<Rightarrow> 's \<Rightarrow> 's \<Rightarrow> bool"
  for step :: "'l \<Rightarrow> 's \<Rightarrow> 's option" and ok_label :: "'l \<Rightarrow> bool" and s0 :: 's where
  reaches_start: "reaches step ok_label s0 s0"
| reaches_step: "\<lbrakk>reaches step ok_label s0 s; ok_label l; step l s = Some s'\<rbrakk> \<Longrightarrow> reaches step ok_label s0 s'"

lemma run_steps_append:
  "run_steps step (ls @ ks) s = Option.bind (run_steps step ls s) (run_steps step ks)"
  by (induction ls arbitrary: s) (auto split: option.split)

lemma run_reaches_from:
  "\<lbrakk>reaches step P s0 s; run_steps step ls s = Some s'; list_all P ls\<rbrakk> \<Longrightarrow> reaches step P s0 s'"
  by (induction ls arbitrary: s) (auto split: option.splits intro: reaches_step)

lemma run_reaches: "\<lbrakk>run_steps step ls s0 = Some s; list_all P ls\<rbrakk> \<Longrightarrow> reaches step P s0 s"
  using run_reaches_from [OF reaches_start] .

lemma reaches_run: "reaches step P s0 s \<Longrightarrow> \<exists>ls. list_all P ls \<and> run_steps step ls s0 = Some s"
proof (induction rule: reaches.induct)
  case reaches_start
  then show ?case by (intro exI [of _ "[]"]) simp
next
  case (reaches_step s l s')
  then obtain ls where "list_all P ls" "run_steps step ls s0 = Some s" by blast
  with reaches_step show ?case
    by (intro exI [of _ "ls @ [l]"]) (simp add: run_steps_append)
qed

text \<open>An invariant: true at the start, kept by every step the environment may make.\<close>

locale invariant_of =
  fixes step :: "'l \<Rightarrow> 's \<Rightarrow> 's option" and ok_label :: "'l \<Rightarrow> bool" and start :: "'s \<Rightarrow> bool"
    and inv :: "'s \<Rightarrow> bool"
  assumes inv_start: "start s \<Longrightarrow> inv s"
    and inv_step: "\<lbrakk>inv s; ok_label l; step l s = Some s'\<rbrakk> \<Longrightarrow> inv s'"
begin

lemma inv_reaches: "\<lbrakk>reaches step ok_label s0 s; inv s0\<rbrakk> \<Longrightarrow> inv s"
  by (induction rule: reaches.induct) (auto intro: inv_step)

lemma inv_run: "\<lbrakk>run_steps step ls s0 = Some s; list_all ok_label ls; inv s0\<rbrakk> \<Longrightarrow> inv s"
  using run_reaches inv_reaches by metis

lemma reachable_inv: "\<lbrakk>reaches step ok_label s0 s; start s0\<rbrakk> \<Longrightarrow> inv s"
  using inv_reaches inv_start by blast

end

text \<open>An invariant about the inputs so far: every step adds what its label carries.\<close>

locale history_invariant =
  fixes step :: "'l \<Rightarrow> 's \<Rightarrow> 's option" and carried :: "'l \<Rightarrow> 'h list" and hinv :: "'h list \<Rightarrow> 's \<Rightarrow> bool"
  assumes hinv_step: "\<lbrakk>hinv h s; step l s = Some s'\<rbrakk> \<Longrightarrow> hinv (h @ carried l) s'"
begin

lemma hinv_run: "\<lbrakk>run_steps step ls s = Some s'; hinv h s\<rbrakk> \<Longrightarrow> hinv (h @ concat (map carried ls)) s'"
proof (induction ls arbitrary: h s)
  case (Cons l ls)
  then obtain s1 where "step l s = Some s1" "run_steps step ls s1 = Some s'" by (auto split: option.splits)
  with Cons.IH [of s1 "h @ carried l"] hinv_step [OF Cons.prems(2)] show ?case by simp
qed simp

end

text \<open>Interleavings of two lists that grow at the end.\<close>

lemma shuffles_snoc_left: "zs \<in> shuffles xs ys \<Longrightarrow> zs @ [x] \<in> shuffles (xs @ [x]) ys"
proof (induction xs ys arbitrary: zs rule: shuffles.induct)
  case (1 ys)
  then show ?case by (induction ys arbitrary: zs) (auto simp: Cons_in_shuffles_iff)
qed (auto simp: Cons_in_shuffles_iff)

lemma shuffles_snoc_right: "zs \<in> shuffles xs ys \<Longrightarrow> zs @ [y] \<in> shuffles xs (ys @ [y])"
  using shuffles_snoc_left [of zs ys xs y] by (simp add: shuffles_commutes)

lemma shuffles_append_left: "ws \<in> shuffles xs ys \<Longrightarrow> ws @ zs \<in> shuffles (xs @ zs) ys"
proof (induction zs arbitrary: ws xs)
  case (Cons z zs)
  from Cons.IH [OF shuffles_snoc_left [OF Cons.prems]] show ?case by simp
qed simp

lemma shuffles_append_right: "ws \<in> shuffles xs ys \<Longrightarrow> ws @ zs \<in> shuffles xs (ys @ zs)"
  using shuffles_append_left [of ws ys xs zs] by (simp add: shuffles_commutes)

end
