(* ===== verification/Flusher.thy ===== *)
theory Flusher
  imports Flush Automaton
begin

text \<open>
  The publish flusher with its goroutines (\<open>internal/pipeline/publish_flusher.go\<close>, \<open>hibernate.go\<close>,
  \<open>flushItems\<close> of \<open>publish.go\<close> and \<open>deadletter.go\<close> cut into atomic steps).  Three threads of control
  share a \<open>Pipeline\<close>: the goroutine of \<open>Run\<close>, which enqueues records and waits; the flush it started,
  asynchronous or its own; and the wake loop of a hibernating pipeline.  A step is what one of them
  does between two points where it can block or where another can see what it did; the label carries
  what the outside answers (a publish that succeeds or fails, an error of the disk, a timer, a
  cancellation).  \<open>fstep\<close> refuses a label that is not enabled.  What the three transitions of
  hibernation and the counters do is what \<open>Flush\<close> defines.

  The fields from \<open>fs_accepted\<close> on record what happened, for the statements; no step reads them.
  \<open>fs_others\<close> and \<open>fs_extra_wakes\<close> hold what must never exist: a flush that was still there when the
  next one was started, and a wake loop started besides another one.
\<close>

section \<open>State\<close>

text \<open>Who runs \<open>flushItems\<close>, and where it is: publishing; moving watermarks (of a published batch, or
  of one stored as a dead letter after an error); between \<open>resetConsecutiveDLQ\<close> and \<open>exitHibernate\<close>;
  between \<open>incrementConsecutiveDLQ\<close> and the \<open>enterHibernate\<close> of the limit (each takes a mutex of its
  own); or about to return.\<close>

datatype flush_kind = AsyncFlush | SyncFlush | DrainFlush | WakeFlush

datatype flush_stage =
    Publishing
  | Advancing "pending list" "go_error option"
  | Clearing
  | LimitHit go_error
  | Returning check

record flight =
  fl_kind :: flush_kind
  fl_batch :: "pending list"
  fl_stage :: flush_stage

text \<open>What \<open>enqueue\<close> or \<open>triggerFlush\<close> does after \<open>swapAndStartFlushLocked\<close>.\<close>

datatype after_swap = ThenEnqueue pending | ThenAppendAlone pending | ThenReturn

text \<open>
  Where the goroutine of \<open>Run\<close> is: between records; in the loop of \<open>enqueue\<close>; in
  \<open>waitWhileHibernating\<close>, which it calls with the flusher's mutex held; in \<open>waitForFlushLocked\<close>,
  which releases it, called from a swap, after an oversize record or from \<open>syncFlush\<close>; at the end of
  \<open>swapAndStartFlushLocked\<close>, which has released the mutex to start a flush and takes it again; in
  \<open>flushItems\<close>, called from \<open>syncFlush\<close> or \<open>drainHibernateBatch\<close>; returned.
\<close>

datatype main_pc =
    MRun
  | MEnqueue pending
  | MHibernate pending
  | MSwapWait after_swap
  | MSwapped after_swap
  | MAloneWait
  | MSyncWait
  | MSyncFlush
  | MDrain
  | MDone check

datatype wake_pc = WakeOff | WakeSleep | WakeFlushing | WakeLeaving

text \<open>\<open>fs_exit\<close> is \<open>None\<close> in the loop of \<open>Run\<close> and then the error that \<open>exitErr\<close> was called with.\<close>

record fstate =
  fs_active :: publish_buffer
  fs_running :: bool
  fs_err :: "go_error option"
  fs_shutting :: bool
  fs_pipe :: pipe_state
  fs_marks :: "wm_files option"
  fs_ctx :: "go_error option"
  fs_main :: main_pc
  fs_exit :: "check option"
  fs_flight :: "flight option"
  fs_wake_flight :: "flight option"
  fs_wake :: wake_pc
  fs_accepted :: "pending list"
  fs_started :: "pending list list"
  fs_delivered :: "pending list"
  fs_dead :: "pending list"
  fs_advanced :: "pending list"
  fs_others :: "flight list"
  fs_extra_wakes :: nat

definition new_fstate :: "wm_files option \<Rightarrow> fstate" where
  "new_fstate m = \<lparr>fs_active = empty_buffer, fs_running = False, fs_err = None, fs_shutting = False,
     fs_pipe = new_pipe_state, fs_marks = m, fs_ctx = None, fs_main = MRun, fs_exit = None,
     fs_flight = None, fs_wake_flight = None, fs_wake = WakeOff, fs_accepted = [], fs_started = [],
     fs_delivered = [], fs_dead = [], fs_advanced = [], fs_others = [], fs_extra_wakes = 0\<rparr>"

section \<open>The goroutine of Run\<close>

definition exit_result :: "check \<Rightarrow> check \<Rightarrow> check" where
  "exit_result run_err shut_err = (if shut_err \<noteq> ok \<and> run_err = ok then shut_err else run_err)"

text \<open>\<open>shutdown\<close> returns with this error (\<open>exitErr\<close> prefers the error of the run).\<close>

definition leave_with :: "check \<Rightarrow> fstate \<Rightarrow> fstate" where
  "leave_with r s = s\<lparr>fs_main := MDone (exit_result (case fs_exit s of None \<Rightarrow> ok | Some r0 \<Rightarrow> r0) r)\<rparr>"

text \<open>
  \<open>process\<close> or \<open>flushPublishBuffer\<close> returns: an error in the loop of \<open>Run\<close> starts the shutdown, one in
  the \<open>flushParser\<close> of the shutdown ends it.
\<close>

definition finish_record :: "check \<Rightarrow> fstate \<Rightarrow> fstate" where
  "finish_record r s =
     (if r = ok then s\<lparr>fs_main := MRun\<rparr>
      else (case fs_exit s of
          None \<Rightarrow> s\<lparr>fs_main := MRun, fs_exit := Some r\<rparr>
        | Some r0 \<Rightarrow> leave_with r s))"

definition ctx_result :: "fstate \<Rightarrow> check" where
  "ctx_result s = (case fs_ctx s of None \<Rightarrow> ok | Some e \<Rightarrow> Inl e)"

text \<open>A flush goes into \<open>fs_flight\<close>; one that is still there would run beside it.\<close>

definition launch :: "flight \<Rightarrow> fstate \<Rightarrow> fstate" where
  "launch fl s = s\<lparr>fs_flight := Some fl,
     fs_others := (case fs_flight s of None \<Rightarrow> fs_others s | Some old \<Rightarrow> old # fs_others s)\<rparr>"

definition start_flush :: "flush_kind \<Rightarrow> fstate \<Rightarrow> fstate" where
  "start_flush kind s =
     (case buf_drain (fs_active s) of (b, batch) \<Rightarrow>
        launch \<lparr>fl_kind = kind, fl_batch = batch, fl_stage = Publishing\<rparr>
          (s\<lparr>fs_err := None, fs_active := b, fs_running := True, fs_started := fs_started s @ [batch]\<rparr>))"

definition accept :: "pending \<Rightarrow> fstate \<Rightarrow> fstate" where
  "accept it s = s\<lparr>fs_active := buf_append (fs_active s) it, fs_accepted := fs_accepted s @ [it]\<rparr>"

text \<open>
  What the caller of \<open>swapAndStartFlushLocked\<close> does next, and the part of it after the wait: with an
  empty buffer it returns at once; otherwise it starts the flush with the mutex released, so that other
  goroutines may run before it has the mutex again.
\<close>

definition after_swapping :: "after_swap \<Rightarrow> fstate \<Rightarrow> fstate" where
  "after_swapping k s = (case k of
      ThenEnqueue it \<Rightarrow> s\<lparr>fs_main := MEnqueue it\<rparr>
    | ThenAppendAlone it \<Rightarrow>
        (let s1 = accept it s in
         if fs_running s1 then s1\<lparr>fs_main := MAloneWait\<rparr> else finish_record ok s1)
    | ThenReturn \<Rightarrow> finish_record ok s)"

definition swap_now :: "after_swap \<Rightarrow> fstate \<Rightarrow> fstate" where
  "swap_now k s =
     (if length (b_items (fs_active s)) = 0 then after_swapping k s
      else (start_flush AsyncFlush s)\<lparr>fs_main := MSwapped k\<rparr>)"

definition swap_and_start :: "after_swap \<Rightarrow> fstate \<Rightarrow> fstate" where
  "swap_and_start k s = (if fs_running s then s\<lparr>fs_main := MSwapWait k\<rparr> else swap_now k s)"

text \<open>One turn of the loop of \<open>enqueue\<close>; \<open>mx\<close> is \<open>f.maxBytes\<close>.\<close>

definition enqueue_turn :: "int \<Rightarrow> pending \<Rightarrow> fstate \<Rightarrow> fstate" where
  "enqueue_turn mx it s =
     (let size = int (length (p_payload it)) in
      if fs_shutting s then finish_record (ctx_result s) s
      else if hibernating (fs_pipe s) then s\<lparr>fs_main := MHibernate it\<rparr>
      else if mx > 0 \<and> size > mx then swap_and_start (ThenAppendAlone it) s
      else if mx > 0 \<and> b_bytes (fs_active s) > 0 \<and> b_bytes (fs_active s) + size > mx then
        swap_and_start (ThenEnqueue it) s
      else finish_record ok (accept it s))"

definition trigger_flush :: "fstate \<Rightarrow> fstate" where
  "trigger_flush s =
     (if hibernating (fs_pipe s) then s
      else if length (b_items (fs_active s)) = 0 then s
      else swap_and_start ThenReturn s)"

text \<open>\<open>drainHibernateBatch\<close> starts; the head of the loop of \<open>syncFlush\<close>; \<open>publishFlusher.shutdown\<close>.\<close>

definition drain_now :: "fstate \<Rightarrow> fstate" where
  "drain_now s =
     (if \<not> hibernating (fs_pipe s) \<or> length (hibernate_batch (fs_pipe s)) = 0 then leave_with ok s
      else (launch \<lparr>fl_kind = DrainFlush, fl_batch = hibernate_batch (fs_pipe s), fl_stage = Publishing\<rparr> s)\<lparr>fs_main := MDrain\<rparr>)"

definition sync_turn :: "fstate \<Rightarrow> fstate" where
  "sync_turn s =
     (if fs_running s then s\<lparr>fs_main := MSyncWait\<rparr>
      else if length (b_items (fs_active s)) = 0 then
        (case fs_err s of Some e \<Rightarrow> leave_with (Inl e) s | None \<Rightarrow> drain_now s)
      else (start_flush SyncFlush s)\<lparr>fs_main := MSyncFlush\<rparr>)"

definition flusher_shutdown :: "fstate \<Rightarrow> fstate" where
  "flusher_shutdown s = sync_turn (s\<lparr>fs_shutting := True\<rparr>)"

text \<open>
  A wait of \<open>waitForFlushLocked\<close> ends: with the error of the flush that was waited for, or because
  no flush is running any more; or with the error of the context.
\<close>

definition resume_with :: "check \<Rightarrow> fstate \<Rightarrow> fstate option" where
  "resume_with r s = (case fs_main s of
      MSwapWait k \<Rightarrow> Some (if r = ok then swap_now k s else finish_record r s)
    | MAloneWait \<Rightarrow> Some (finish_record r s)
    | MSyncWait \<Rightarrow> Some (if r = ok then sync_turn s else leave_with r s)
    | _ \<Rightarrow> None)"

section \<open>The flushes\<close>

text \<open>The flush of \<open>runFlush\<close>, \<open>syncFlush\<close> or the shutdown, and that of the wake loop.\<close>

datatype flush_slot = MainSlot | WakeSlot

definition get_flight :: "flush_slot \<Rightarrow> fstate \<Rightarrow> flight option" where
  "get_flight w s = (case w of MainSlot \<Rightarrow> fs_flight s | WakeSlot \<Rightarrow> fs_wake_flight s)"

definition put_flight :: "flush_slot \<Rightarrow> flight option \<Rightarrow> fstate \<Rightarrow> fstate" where
  "put_flight w fl s = (case w of
      MainSlot \<Rightarrow> s\<lparr>fs_flight := fl\<rparr> | WakeSlot \<Rightarrow> s\<lparr>fs_wake_flight := fl\<rparr>)"

definition to_stage :: "flush_slot \<Rightarrow> flight \<Rightarrow> flush_stage \<Rightarrow> fstate \<Rightarrow> fstate" where
  "to_stage w fl st s = put_flight w (Some (fl\<lparr>fl_stage := st\<rparr>)) s"

text \<open>\<open>enterHibernate\<close>, with the goroutine it may start.\<close>

definition hibernate_now ::
  "duration_parser \<Rightarrow> pipeline_config \<Rightarrow> go_error \<Rightarrow> pending list \<Rightarrow> fstate \<Rightarrow> fstate" where
  "hibernate_now pd cfg e batch s =
     (let hc = pb_hibernate (publish_batch cfg) in
      case enter_hibernate (hib_wake_enabled hc) e batch (fs_pipe s) of (p, start_wake) \<Rightarrow>
        s\<lparr>fs_pipe := p,
          fs_wake := (if start_wake then (if wake_interval_duration pd hc \<le> 0 then WakeLeaving else WakeSleep)
                      else fs_wake s),
          fs_extra_wakes := (if start_wake \<and> fs_wake s \<noteq> WakeOff then Suc (fs_extra_wakes s) else fs_extra_wakes s)\<rparr>)"

text \<open>\<open>publishBatchWithRetry\<close> returns nil.\<close>

definition flight_published :: "flush_slot \<Rightarrow> flight \<Rightarrow> fstate \<Rightarrow> fstate" where
  "flight_published w fl s =
     to_stage w fl (Advancing (fl_batch fl) None) (s\<lparr>fs_delivered := fs_delivered s @ fl_batch fl\<rparr>)"

text \<open>It returns an error; \<open>dlq\<close> is the error of writing the dead letter, if that is tried and fails.\<close>

definition flight_failed ::
  "duration_parser \<Rightarrow> pipeline_config \<Rightarrow> flush_slot \<Rightarrow> flight \<Rightarrow> go_error \<Rightarrow> go_error option \<Rightarrow> fstate \<Rightarrow> fstate" where
  "flight_failed pd cfg w fl e dlq s =
     (let pol = on_flush_failure_or_default (publish_batch cfg) in
      if pol = ''hibernate'' then to_stage w fl (Returning ok) (hibernate_now pd cfg e (fl_batch fl) s)
      else if pol = ''dead_letter'' then
        (case dlq of
           Some de \<Rightarrow> to_stage w fl (Returning (Inl (ErrWrap ''write dead letter batch: '' de))) s
         | None \<Rightarrow> to_stage w fl (Advancing (fl_batch fl) (Some e)) (s\<lparr>fs_dead := fs_dead s @ fl_batch fl\<rparr>))
      else to_stage w fl (Returning (Inl e)) s)"

text \<open>One \<open>Set\<close> of \<open>advanceWatermarks\<close>; \<open>perr\<close> is its error.\<close>

definition flight_advance :: "flush_slot \<Rightarrow> flight \<Rightarrow> go_error option \<Rightarrow> fstate \<Rightarrow> fstate option" where
  "flight_advance w fl perr s = (case fl_stage fl of
      Advancing (it # rest) why \<Rightarrow>
        if fs_marks s = None \<and> perr \<noteq> None then None
        else Some (to_stage w fl
              (case perr of None \<Rightarrow> Advancing rest why | Some pe \<Rightarrow> Returning (Inl (ErrWrap ''update watermark: '' pe)))
              (s\<lparr>fs_marks := map_option (item_mark it) (fs_marks s), fs_advanced := fs_advanced s @ [it]\<rparr>))
    | _ \<Rightarrow> None)"

text \<open>
  The rest of \<open>flushItems\<close> or of \<open>handleDeadLetterFlush\<close> after the watermarks, in two steps: the counter
  of dead-letter batches, under \<open>dlqMu\<close>, and then the hibernation, under \<open>hibernateMu\<close>.
\<close>

definition flight_finish ::
  "duration_parser \<Rightarrow> pipeline_config \<Rightarrow> flush_slot \<Rightarrow> flight \<Rightarrow> fstate \<Rightarrow> fstate option" where
  "flight_finish pd cfg w fl s = (case fl_stage fl of
      Advancing [] None \<Rightarrow>
        Some (to_stage w fl Clearing (s\<lparr>fs_pipe := reset_consecutive_dlq (fs_pipe s)\<rparr>))
    | Clearing \<Rightarrow> Some (to_stage w fl (Returning ok) (s\<lparr>fs_pipe := exit_hibernate (fs_pipe s)\<rparr>))
    | Advancing [] (Some e) \<Rightarrow>
        (let mx = max_consecutive_batches_or_default (pb_dead_letter (publish_batch cfg)) in
         case increment_consecutive_dlq (fs_pipe s) of (p, n) \<Rightarrow>
           Some (to_stage w fl (if n \<ge> mx then LimitHit (limit_error mx e) else Returning ok) (s\<lparr>fs_pipe := p\<rparr>)))
    | LimitHit e \<Rightarrow> Some (to_stage w fl (Returning ok) (hibernate_now pd cfg e [] s))
    | _ \<Rightarrow> None)"

text \<open>
  After \<open>flushItems\<close>: \<open>runFlush\<close> takes the mutex (which a hibernating \<open>enqueue\<close> holds) and reports;
  \<open>syncFlush\<close> reports and loops; the drain ends the shutdown; the wake loop looks again.
\<close>

definition holds_mutex :: "main_pc \<Rightarrow> bool" where
  "holds_mutex pc = (case pc of MEnqueue it \<Rightarrow> True | MHibernate it \<Rightarrow> True | _ \<Rightarrow> False)"

definition report :: "check \<Rightarrow> fstate \<Rightarrow> fstate" where
  "report r s = s\<lparr>fs_running := False, fs_err := (case r of Inl e \<Rightarrow> Some e | Inr u \<Rightarrow> None), fs_flight := None\<rparr>"

definition main_flush_return :: "flush_kind \<Rightarrow> check \<Rightarrow> fstate \<Rightarrow> fstate option" where
  "main_flush_return kind r s = (case kind of
      AsyncFlush \<Rightarrow> if holds_mutex (fs_main s) then None else Some (report r s)
    | SyncFlush \<Rightarrow> Some (let s1 = report r s in if r = ok then sync_turn s1 else leave_with r s1)
    | DrainFlush \<Rightarrow> Some (leave_with r (s\<lparr>fs_flight := None\<rparr>))
    | WakeFlush \<Rightarrow> None)"

definition wake_flush_return :: "fstate \<Rightarrow> fstate" where
  "wake_flush_return s =
     s\<lparr>fs_wake_flight := None, fs_wake := (if hibernating (fs_pipe s) then WakeSleep else WakeLeaving)\<rparr>"

section \<open>The wake loop\<close>

text \<open>
  The timer of \<open>waitHibernateWake\<close> fires; the context ends it; the deferred function runs.  (The loop also
  ends at once when the interval is not positive, which validation excludes with \<open>wake_enabled\<close>.)
\<close>

definition wake_tick :: "fstate \<Rightarrow> fstate option" where
  "wake_tick s =
     (if fs_wake s \<noteq> WakeSleep then None
      else if \<not> hibernating (fs_pipe s) then Some (s\<lparr>fs_wake := WakeLeaving\<rparr>)
      else if length (hibernate_batch (fs_pipe s)) = 0 then Some s
      else Some (s\<lparr>fs_wake := WakeFlushing,
          fs_wake_flight := Some \<lparr>fl_kind = WakeFlush, fl_batch = hibernate_batch (fs_pipe s), fl_stage = Publishing\<rparr>\<rparr>))"

definition wake_off :: "fstate \<Rightarrow> fstate option" where
  "wake_off s = (if fs_wake s \<noteq> WakeLeaving then None
     else Some (s\<lparr>fs_wake := WakeOff, fs_pipe := (fs_pipe s)\<lparr>wake_running := False\<rparr>\<rparr>))"

section \<open>The step function\<close>

text \<open>
  A line that is filtered or skipped moves its watermark from the goroutine of \<open>Run\<close> at once
  (\<open>process\<close>); \<open>perr\<close> is the error of \<open>Set\<close>.  \<open>LError\<close> is any other error of the parser or of \<open>process\<close>.
\<close>

definition skip_line :: "string \<Rightarrow> nat \<Rightarrow> nat \<Rightarrow> go_error option \<Rightarrow> fstate \<Rightarrow> fstate" where
  "skip_line p off ino perr s =
     finish_record
       (case perr of Some e \<Rightarrow> if fs_marks s = None then ok else Inl (ErrWrap ''update watermark: '' e) | None \<Rightarrow> ok)
       (s\<lparr>fs_marks := map_option (\<lambda>m. gm_put m p \<lparr>w_offset = int off, w_inode = ino\<rparr>) (fs_marks s)\<rparr>)"

datatype flabel =
    LRecord pending
  | LSkip string nat nat "go_error option"
  | LError go_error
  | LTick
  | LStop
  | LShut
  | LCancel go_error
  | LEnqueue
  | LPoll
  | LPollCtx
  | LResume
  | LResumeCtx
  | LRelock
  | LPublished flush_slot
  | LFailed flush_slot go_error "go_error option"
  | LAdvance flush_slot "go_error option"
  | LFinish flush_slot
  | LReturn flush_slot
  | LWakeTick
  | LWakeCtx
  | LWakeOff

text \<open>\<open>waitWhileHibernating\<close>: its ticker fires, or the context is done.\<close>

definition wait_while_hibernating :: "bool \<Rightarrow> pending \<Rightarrow> fstate \<Rightarrow> fstate option" where
  "wait_while_hibernating ticked it s =
     (if ticked then Some (if hibernating (fs_pipe s) then s else s\<lparr>fs_main := MEnqueue it\<rparr>)
      else (case fs_ctx s of None \<Rightarrow> None | Some e \<Rightarrow> Some (finish_record (Inl e) s)))"

definition main_step :: "duration_parser \<Rightarrow> pipeline_config \<Rightarrow> flabel \<Rightarrow> fstate \<Rightarrow> fstate option" where
  "main_step pd cfg l s = (case l of
      LRecord it \<Rightarrow> if fs_main s = MRun then Some (s\<lparr>fs_main := MEnqueue it\<rparr>) else None
    | LSkip p off ino perr \<Rightarrow> if fs_main s = MRun then Some (skip_line p off ino perr s) else None
    | LError e \<Rightarrow> if fs_main s = MRun then Some (finish_record (Inl e) s) else None
    | LTick \<Rightarrow> if fs_main s = MRun \<and> fs_exit s = None then Some (trigger_flush s) else None
    | LStop \<Rightarrow> if fs_main s = MRun \<and> fs_exit s = None then Some (s\<lparr>fs_exit := Some ok\<rparr>) else None
    | LShut \<Rightarrow> if fs_main s = MRun \<and> fs_exit s \<noteq> None then Some (flusher_shutdown s) else None
    | LEnqueue \<Rightarrow> (case fs_main s of
          MEnqueue it \<Rightarrow> Some (enqueue_turn (max_bytes_limit pd (publish_batch cfg)) it s) | _ \<Rightarrow> None)
    | LPoll \<Rightarrow> (case fs_main s of
          MHibernate it \<Rightarrow> wait_while_hibernating True it s | _ \<Rightarrow> None)
    | LPollCtx \<Rightarrow> (case fs_main s of
          MHibernate it \<Rightarrow> wait_while_hibernating False it s | _ \<Rightarrow> None)
    | LResume \<Rightarrow> if fs_running s then None
        else resume_with (case fs_err s of Some e \<Rightarrow> Inl e | None \<Rightarrow> ok) s
    | LResumeCtx \<Rightarrow> (case fs_ctx s of None \<Rightarrow> None | Some e \<Rightarrow> resume_with (Inl e) s)
    | LRelock \<Rightarrow> (case fs_main s of MSwapped k \<Rightarrow> Some (after_swapping k s) | _ \<Rightarrow> None)
    | _ \<Rightarrow> None)"

definition flight_step :: "duration_parser \<Rightarrow> pipeline_config \<Rightarrow> flabel \<Rightarrow> fstate \<Rightarrow> fstate option" where
  "flight_step pd cfg l s = (case l of
      LPublished w \<Rightarrow> (case get_flight w s of None \<Rightarrow> None
        | Some fl \<Rightarrow> if fl_stage fl = Publishing then Some (flight_published w fl s) else None)
    | LFailed w e dlq \<Rightarrow> (case get_flight w s of None \<Rightarrow> None
        | Some fl \<Rightarrow> if fl_stage fl = Publishing then Some (flight_failed pd cfg w fl e dlq s) else None)
    | LAdvance w perr \<Rightarrow> (case get_flight w s of None \<Rightarrow> None | Some fl \<Rightarrow> flight_advance w fl perr s)
    | LFinish w \<Rightarrow> (case get_flight w s of None \<Rightarrow> None | Some fl \<Rightarrow> flight_finish pd cfg w fl s)
    | LReturn w \<Rightarrow> (case get_flight w s of None \<Rightarrow> None
        | Some fl \<Rightarrow> (case fl_stage fl of
            Returning r \<Rightarrow> (case w of
                MainSlot \<Rightarrow> main_flush_return (fl_kind fl) r s
              | WakeSlot \<Rightarrow> Some (wake_flush_return s))
          | _ \<Rightarrow> None))
    | _ \<Rightarrow> None)"

definition wake_step :: "flabel \<Rightarrow> fstate \<Rightarrow> fstate option" where
  "wake_step l s = (case l of
      LWakeTick \<Rightarrow> wake_tick s
    | LWakeCtx \<Rightarrow> if fs_wake s = WakeSleep \<and> fs_ctx s \<noteq> None then Some (s\<lparr>fs_wake := WakeLeaving\<rparr>) else None
    | LWakeOff \<Rightarrow> wake_off s
    | _ \<Rightarrow> None)"

definition fstep :: "duration_parser \<Rightarrow> pipeline_config \<Rightarrow> flabel \<Rightarrow> fstate \<Rightarrow> fstate option" where
  "fstep pd cfg l s = (case l of
      LCancel e \<Rightarrow> if fs_ctx s = None then Some (s\<lparr>fs_ctx := Some e\<rparr>) else None
    | LPublished w \<Rightarrow> flight_step pd cfg l s
    | LFailed w e dlq \<Rightarrow> flight_step pd cfg l s
    | LAdvance w perr \<Rightarrow> flight_step pd cfg l s
    | LFinish w \<Rightarrow> flight_step pd cfg l s
    | LReturn w \<Rightarrow> flight_step pd cfg l s
    | LWakeTick \<Rightarrow> wake_step l s
    | LWakeCtx \<Rightarrow> wake_step l s
    | LWakeOff \<Rightarrow> wake_step l s
    | _ \<Rightarrow> main_step pd cfg l s)"

end
