(* ===== verification/FlusherInv.thy ===== *)
theory FlusherInv
  imports Flusher
begin

text \<open>
  Invariants of the publish flusher: what the buffer and the batches cut from it hold, which thread of
  control runs which flush, and that a watermark moves only past records that were delivered or stored.
\<close>

section \<open>Bundles\<close>

lemmas fstep_defs = fstep_def main_step_def wait_while_hibernating_def flight_step_def wake_step_def

lemmas slot_defs = get_flight_def put_flight_def to_stage_def

text \<open>The cases of a step, one per label that is enabled.\<close>

lemma fstep_cases [consumes 1, case_names accepted skip error tick stop shut cancel enqueue poll poll_ctx resume
    resume_ctx relock published failed advance finish main_return wake_return wake_tick wake_ctx wake_off]:
  assumes "fstep pd cfg l s = Some s'"
  obtains it where "l = LRecord it" "fs_main s = MRun" "s' = s\<lparr>fs_main := MEnqueue it\<rparr>"
  | p off ino perr where "l = LSkip p off ino perr" "fs_main s = MRun" "s' = skip_line p off ino perr s"
  | e where "l = LError e" "fs_main s = MRun" "s' = finish_record (Inl e) s"
  | "l = LTick" "fs_main s = MRun" "fs_exit s = None" "s' = trigger_flush s"
  | "l = LStop" "fs_main s = MRun" "fs_exit s = None" "s' = s\<lparr>fs_exit := Some ok\<rparr>"
  | r where "l = LShut" "fs_main s = MRun" "fs_exit s = Some r" "s' = flusher_shutdown s"
  | e where "l = LCancel e" "fs_ctx s = None" "s' = s\<lparr>fs_ctx := Some e\<rparr>"
  | it where "l = LEnqueue" "fs_main s = MEnqueue it" "s' = enqueue_turn (max_bytes_limit pd (publish_batch cfg)) it s"
  | it where "l = LPoll" "fs_main s = MHibernate it" "s' = (if hibernating (fs_pipe s) then s else s\<lparr>fs_main := MEnqueue it\<rparr>)"
  | it e where "l = LPollCtx" "fs_main s = MHibernate it" "fs_ctx s = Some e" "s' = finish_record (Inl e) s"
  | "l = LResume" "\<not> fs_running s" "resume_with (case fs_err s of Some e \<Rightarrow> Inl e | None \<Rightarrow> ok) s = Some s'"
  | e where "l = LResumeCtx" "fs_ctx s = Some e" "resume_with (Inl e) s = Some s'"
  | k where "l = LRelock" "fs_main s = MSwapped k" "s' = after_swapping k s"
  | w fl where "l = LPublished w" "get_flight w s = Some fl" "fl_stage fl = Publishing" "s' = flight_published w fl s"
  | w fl e dlq where "l = LFailed w e dlq" "get_flight w s = Some fl" "fl_stage fl = Publishing"
      "s' = flight_failed pd cfg w fl e dlq s"
  | w fl perr where "l = LAdvance w perr" "get_flight w s = Some fl" "flight_advance w fl perr s = Some s'"
  | w fl where "l = LFinish w" "get_flight w s = Some fl" "flight_finish pd cfg w fl s = Some s'"
  | fl r where "l = LReturn MainSlot" "fs_flight s = Some fl" "fl_stage fl = Returning r"
      "main_flush_return (fl_kind fl) r s = Some s'"
  | fl r where "l = LReturn WakeSlot" "fs_wake_flight s = Some fl" "fl_stage fl = Returning r" "s' = wake_flush_return s"
  | "l = LWakeTick" "wake_tick s = Some s'"
  | e where "l = LWakeCtx" "fs_wake s = WakeSleep" "fs_ctx s = Some e" "s' = s\<lparr>fs_wake := WakeLeaving\<rparr>"
  | "l = LWakeOff" "wake_off s = Some s'"
proof (cases l)
  case (LReturn w)
  then show ?thesis
    using assms that(18,19) by (cases w)
      (auto simp: fstep_defs slot_defs split: option.splits flush_stage.splits)
next
  case LRecord
  then show ?thesis
    using assms that(1) by (auto simp: fstep_defs split: option.splits if_splits main_pc.splits)
next
  case LSkip
  then show ?thesis
    using assms that(2) by (auto simp: fstep_defs split: option.splits if_splits main_pc.splits)
next
  case LError
  then show ?thesis
    using assms that(3) by (auto simp: fstep_defs split: option.splits if_splits main_pc.splits)
next
  case LTick
  then show ?thesis
    using assms that(4) by (auto simp: fstep_defs split: option.splits if_splits main_pc.splits)
next
  case LStop
  then show ?thesis
    using assms that(5) by (auto simp: fstep_defs split: option.splits if_splits main_pc.splits)
next
  case LShut
  then show ?thesis
    using assms that(6) by (auto simp: fstep_defs split: option.splits if_splits main_pc.splits)
next
  case LCancel
  then show ?thesis
    using assms that(7) by (auto simp: fstep_defs split: option.splits if_splits main_pc.splits)
next
  case LEnqueue
  then show ?thesis
    using assms that(8) by (auto simp: fstep_defs split: option.splits if_splits main_pc.splits)
next
  case LPoll
  then show ?thesis
    using assms that(9) by (auto simp: fstep_defs split: option.splits if_splits main_pc.splits)
next
  case LPollCtx
  then show ?thesis
    using assms that(10) by (auto simp: fstep_defs split: option.splits if_splits main_pc.splits)
next
  case LResume
  then show ?thesis
    using assms that(11) by (auto simp: fstep_defs split: option.splits if_splits main_pc.splits)
next
  case LResumeCtx
  then show ?thesis
    using assms that(12) by (auto simp: fstep_defs split: option.splits if_splits main_pc.splits)
next
  case LRelock
  then show ?thesis
    using assms that(13) by (auto simp: fstep_defs split: option.splits if_splits main_pc.splits)
next
  case LPublished
  then show ?thesis
    using assms that(14) by (auto simp: fstep_defs split: option.splits if_splits main_pc.splits)
next
  case LFailed
  then show ?thesis
    using assms that(15) by (auto simp: fstep_defs split: option.splits if_splits main_pc.splits)
next
  case LAdvance
  then show ?thesis
    using assms that(16) by (auto simp: fstep_defs split: option.splits if_splits main_pc.splits)
next
  case LFinish
  then show ?thesis
    using assms that(17) by (auto simp: fstep_defs split: option.splits if_splits main_pc.splits)
next
  case LWakeTick
  then show ?thesis
    using assms that(20) by (auto simp: fstep_defs split: option.splits if_splits main_pc.splits)
next
  case LWakeCtx
  then show ?thesis
    using assms that(21) by (auto simp: fstep_defs split: option.splits if_splits main_pc.splits)
next
  case LWakeOff
  then show ?thesis
    using assms that(22) by (auto simp: fstep_defs split: option.splits if_splits main_pc.splits)
qed

section \<open>The buffer\<close>

text \<open>A batch respects the byte limit, unless it is a single oversize record.\<close>

definition fits :: "int \<Rightarrow> pending list \<Rightarrow> bool" where
  "fits mx items \<longleftrightarrow> mx \<le> 0 \<or> batch_bytes items \<le> mx \<or> length items = 1"

definition buffer_inv :: "int \<Rightarrow> fstate \<Rightarrow> bool" where
  "buffer_inv mx s \<longleftrightarrow> buf_ok (fs_active s) \<and> fs_accepted s = concat (fs_started s) @ b_items (fs_active s) \<and>
     fits mx (b_items (fs_active s)) \<and> (\<forall>b \<in> set (fs_started s). b \<noteq> [] \<and> fits mx b)"

lemma buffer_inv_new: "buffer_inv mx (new_fstate m)"
  by (auto simp add: buffer_inv_def new_fstate_def inv_intros) (auto simp add: empty_buffer_def fits_def batch_bytes_def)

lemma buffer_inv_cong:
  "\<lbrakk>fs_active s' = fs_active s; fs_accepted s' = fs_accepted s; fs_started s' = fs_started s\<rbrakk>
     \<Longrightarrow> buffer_inv mx s' = buffer_inv mx s"
  by (simp add: buffer_inv_def)

lemma buffer_frames [simp]:
  "buffer_inv mx (s\<lparr>fs_main := m\<rparr>) = buffer_inv mx s" "buffer_inv mx (s\<lparr>fs_exit := x\<rparr>) = buffer_inv mx s"
  "buffer_inv mx (s\<lparr>fs_pipe := p\<rparr>) = buffer_inv mx s" "buffer_inv mx (s\<lparr>fs_wake := k\<rparr>) = buffer_inv mx s"
  "buffer_inv mx (s\<lparr>fs_ctx := c\<rparr>) = buffer_inv mx s" "buffer_inv mx (s\<lparr>fs_shutting := b\<rparr>) = buffer_inv mx s"
  "buffer_inv mx (s\<lparr>fs_marks := mm\<rparr>) = buffer_inv mx s" "buffer_inv mx (s\<lparr>fs_flight := fl\<rparr>) = buffer_inv mx s"
  "buffer_inv mx (s\<lparr>fs_wake_flight := fl\<rparr>) = buffer_inv mx s" "buffer_inv mx (s\<lparr>fs_delivered := d\<rparr>) = buffer_inv mx s"
  "buffer_inv mx (s\<lparr>fs_dead := d\<rparr>) = buffer_inv mx s" "buffer_inv mx (s\<lparr>fs_advanced := d\<rparr>) = buffer_inv mx s"
  "buffer_inv mx (leave_with r s) = buffer_inv mx s" "buffer_inv mx (finish_record r s) = buffer_inv mx s"
  "buffer_inv mx (put_flight w f s) = buffer_inv mx s" "buffer_inv mx (to_stage w g st s) = buffer_inv mx s"
  "buffer_inv mx (hibernate_now pd cfg e batch s) = buffer_inv mx s" "buffer_inv mx (report r s) = buffer_inv mx s"
  "buffer_inv mx (drain_now s) = buffer_inv mx s" "buffer_inv mx (skip_line pa off ino pe s) = buffer_inv mx s"
  by (auto simp: buffer_inv_def leave_with_def finish_record_def slot_defs hibernate_now_def report_def drain_now_def
      skip_line_def launch_def Let_def split: option.split prod.split flush_slot.split sum.split)

lemma active_start [simp]: "b_items (fs_active (start_flush kind s)) = []"
  by (simp add: start_flush_def launch_def buf_drain_def)

lemma buffer_inv_start: "\<lbrakk>buffer_inv mx s; b_items (fs_active s) \<noteq> []\<rbrakk> \<Longrightarrow> buffer_inv mx (start_flush kind s)"
  by (auto simp: buffer_inv_def start_flush_def launch_def buf_drain_def buf_ok_def batch_bytes_def fits_def)

lemma buffer_inv_accept:
  "\<lbrakk>buffer_inv mx s; fits mx (b_items (fs_active s) @ [it])\<rbrakk> \<Longrightarrow> buffer_inv mx (accept it s)"
  by (simp add: buffer_inv_def accept_def inv_intros) (simp add: buf_append_def)

lemma fits_single: "fits mx [it]"
  by (simp add: fits_def)

lemma buffer_inv_after_swapping: "buffer_inv mx s \<Longrightarrow> b_items (fs_active s) = [] \<Longrightarrow> buffer_inv mx (after_swapping k s)"
  by (auto simp: after_swapping_def Let_def buffer_inv_accept fits_single split: after_swap.split)

lemma buffer_inv_swap_now: "buffer_inv mx s \<Longrightarrow> buffer_inv mx (swap_now k s)"
  by (simp add: swap_now_def buffer_inv_start buffer_inv_after_swapping)

lemma buffer_inv_swap_and_start: "buffer_inv mx s \<Longrightarrow> buffer_inv mx (swap_and_start k s)"
  by (simp add: swap_and_start_def buffer_inv_swap_now)

lemma fits_append:
  assumes "buffer_inv mx s" "\<not> (mx > 0 \<and> int (length (p_payload it)) > mx)"
    "\<not> (mx > 0 \<and> b_bytes (fs_active s) > 0 \<and> b_bytes (fs_active s) + int (length (p_payload it)) > mx)"
  shows "fits mx (b_items (fs_active s) @ [it])"
  using assms by (auto simp: buffer_inv_def buf_ok_def fits_def batch_bytes_def)

lemma buffer_inv_enqueue: "buffer_inv mx s \<Longrightarrow> buffer_inv mx (enqueue_turn mx it s)"
  using fits_append [of mx s it]
  by (auto simp: enqueue_turn_def Let_def buffer_inv_swap_and_start buffer_inv_accept)

lemma buffer_inv_sync: "buffer_inv mx s \<Longrightarrow> buffer_inv mx (sync_turn s)"
  by (auto simp: sync_turn_def buffer_inv_start split: option.split)

lemma buffer_inv_resume: "\<lbrakk>resume_with r s = Some s'; buffer_inv mx s\<rbrakk> \<Longrightarrow> buffer_inv mx s'"
  by (auto simp: resume_with_def buffer_inv_sync buffer_inv_swap_now
      split: main_pc.splits if_splits)

text \<open>Between the start of a flush and taking the mutex again the buffer is empty.\<close>

definition swapped_inv :: "fstate \<Rightarrow> bool" where
  "swapped_inv s \<longleftrightarrow> (\<forall>k. fs_main s = MSwapped k \<longrightarrow> b_items (fs_active s) = [])"

lemma swapped_inv_new: "swapped_inv (new_fstate m)"
  by (simp add: swapped_inv_def new_fstate_def)

definition unswapped :: "main_pc \<Rightarrow> bool" where
  "unswapped m \<longleftrightarrow> (\<forall>k. m \<noteq> MSwapped k)"

lemma unswapped_simps [simp]:
  "unswapped MRun" "unswapped (MEnqueue it)" "unswapped (MHibernate it)" "unswapped (MSwapWait k)"
  "unswapped MAloneWait" "unswapped MSyncWait" "unswapped MSyncFlush" "unswapped MDrain" "unswapped (MDone r)"
  by (simp_all add: unswapped_def)

lemma swapped_inv_I: "unswapped (fs_main s) \<Longrightarrow> swapped_inv s"
  by (simp add: swapped_inv_def unswapped_def)

lemma swapped_inv_cong: "\<lbrakk>swapped_inv s; fs_main s' = fs_main s; fs_active s' = fs_active s\<rbrakk> \<Longrightarrow> swapped_inv s'"
  by (simp add: swapped_inv_def)

lemma unswapped_goto:
  "unswapped (fs_main (leave_with r s))" "unswapped (fs_main (finish_record r s))" "unswapped (fs_main (drain_now s))"
  "unswapped (fs_main (after_swapping k s))" "unswapped (fs_main (sync_turn s))" "unswapped (fs_main (skip_line p off ino perr s))"
proof -
  show a: "unswapped (fs_main (leave_with r s))" for r s by (simp add: leave_with_def)
  show b: "unswapped (fs_main (finish_record r s))" for r s by (simp add: finish_record_def a split: option.split)
  show c: "unswapped (fs_main (drain_now s))" for s by (simp add: drain_now_def a)
  show "unswapped (fs_main (after_swapping k s))" by (simp add: after_swapping_def Let_def b split: after_swap.split)
  show "unswapped (fs_main (sync_turn s))" by (simp add: sync_turn_def a c split: option.split)
  show "unswapped (fs_main (skip_line p off ino perr s))" by (simp add: skip_line_def b)
qed

lemma swapped_swap: "swapped_inv (swap_now k s)" "swapped_inv (swap_and_start k s)"
proof -
  show a: "swapped_inv (swap_now k s)" for k s
    by (auto simp: swap_now_def swapped_inv_def [of "s1\<lparr>fs_main := m\<rparr>" for s1 m] intro: swapped_inv_I unswapped_goto)
  show "swapped_inv (swap_and_start k s)" by (auto simp: swap_and_start_def a intro: swapped_inv_I)
qed

lemma swapped_enqueue: "swapped_inv (enqueue_turn mx it s)"
  by (auto simp: enqueue_turn_def Let_def swapped_swap intro!: swapped_inv_I unswapped_goto)

lemma flight_main_frames [simp]:
  "fs_main (put_flight w f s) = fs_main s" "fs_active (put_flight w f s) = fs_active s"
  "fs_main (to_stage w fl st s) = fs_main s" "fs_active (to_stage w fl st s) = fs_active s"
  "fs_main (hibernate_now pd cfg e batch s) = fs_main s" "fs_active (hibernate_now pd cfg e batch s) = fs_active s"
  "fs_main (report r s) = fs_main s" "fs_active (report r s) = fs_active s"
  by (auto simp: slot_defs hibernate_now_def report_def Let_def split: flush_slot.split prod.split)

lemma swapped_step:
  assumes "swapped_inv s" "fstep pd cfg l s = Some s'"
  shows "swapped_inv s'"
  using assms(2)
proof (cases rule: fstep_cases)
  case tick
  then show ?thesis using assms(1) by (auto simp: trigger_flush_def swapped_swap)
next
  case (advance w fl perr)
  then show ?thesis
    by (auto simp: flight_advance_def intro!: swapped_inv_cong [OF assms(1)]
        split: flush_stage.splits list.splits option.splits if_splits)
next
  case (finish w fl)
  then show ?thesis
    by (auto simp: flight_finish_def Let_def intro!: swapped_inv_cong [OF assms(1)]
        split: flush_stage.splits list.splits option.splits if_splits prod.splits)
next
  case (main_return fl r)
  have "swapped_inv (report r s)" using assms(1) by (rule swapped_inv_cong) simp_all
  moreover have "swapped_inv (leave_with x q)" "swapped_inv (sync_turn q)" for x q
    by (intro swapped_inv_I unswapped_goto)+
  ultimately show ?thesis
    using main_return(4) by (auto simp: main_flush_return_def Let_def split: flush_kind.splits if_splits)
next
  case resume
  then show ?thesis
    using swapped_swap
    by (auto simp: resume_with_def split: main_pc.splits if_splits) (auto intro!: swapped_inv_I unswapped_goto)
next
  case (resume_ctx e)
  then show ?thesis
    by (auto simp: resume_with_def intro!: swapped_inv_I unswapped_goto split: main_pc.splits)
next
  case (failed w fl e dlq)
  then show ?thesis
    by (auto simp: flight_failed_def Let_def intro!: swapped_inv_cong [OF assms(1)] split: option.split)
qed (use assms(1) in \<open>auto simp: flusher_shutdown_def wake_tick_def wake_off_def wake_flush_return_def flight_published_def
    swapped_enqueue swapped_inv_I unswapped_goto intro!: swapped_inv_cong [OF assms(1)] split: if_splits\<close>)

lemma buffer_inv_step:
  assumes "buffer_inv (max_bytes_limit pd (publish_batch cfg)) s" "swapped_inv s" "fstep pd cfg l s = Some s'"
  shows "buffer_inv (max_bytes_limit pd (publish_batch cfg)) s'"
  using assms(3,1)
proof (cases rule: fstep_cases)
  case (relock k)
  then show ?thesis using assms(1,2) by (auto simp: swapped_inv_def intro: buffer_inv_after_swapping)
next
  case advance
  then show ?thesis using assms(1) by (auto simp: flight_advance_def split: flush_stage.splits list.splits option.splits if_splits)
next
  case finish
  then show ?thesis using assms(1)
    by (auto simp: flight_finish_def Let_def split: flush_stage.splits list.splits option.splits if_splits prod.splits)
next
  case main_return
  then show ?thesis using assms(1)
    by (auto simp: main_flush_return_def Let_def buffer_inv_sync split: flush_kind.splits if_splits)
next
  case (resume)
  then show ?thesis using assms(1) buffer_inv_resume by blast
next
  case (resume_ctx)
  then show ?thesis using assms(1) buffer_inv_resume by blast
qed (use assms(1) in \<open>auto simp: trigger_flush_def flusher_shutdown_def wake_tick_def wake_off_def wake_flush_return_def
    flight_published_def flight_failed_def Let_def buffer_inv_swap_and_start buffer_inv_enqueue buffer_inv_sync
    split: option.splits if_splits\<close>)

section \<open>The threads\<close>

text \<open>
  \<open>flushRunning\<close> tells whether an asynchronous or synchronous flush exists; the goroutine of \<open>Run\<close> is
  inside \<open>flushItems\<close> exactly when the flush is its own; no flush is ever started besides another; the
  wake loop exists exactly when \<open>hibernateWakeRunning\<close> is set, has a flush exactly when it is in
  \<open>flushItems\<close>, and is the only one.
\<close>

definition main_inv :: "fstate \<Rightarrow> bool" where
  "main_inv s \<longleftrightarrow>
     (fs_running s \<longleftrightarrow> (\<exists>fl. fs_flight s = Some fl \<and> fl_kind fl \<in> {AsyncFlush, SyncFlush})) \<and>
     (case fs_flight s of
        None \<Rightarrow> fs_main s \<noteq> MSyncFlush \<and> fs_main s \<noteq> MDrain
      | Some fl \<Rightarrow> fl_kind fl \<noteq> WakeFlush \<and> (fl_kind fl = SyncFlush \<longleftrightarrow> fs_main s = MSyncFlush) \<and>
          (fl_kind fl = DrainFlush \<longleftrightarrow> fs_main s = MDrain)) \<and>
     fs_others s = []"

definition wake_inv :: "fstate \<Rightarrow> bool" where
  "wake_inv s \<longleftrightarrow> (wake_running (fs_pipe s) \<longleftrightarrow> fs_wake s \<noteq> WakeOff) \<and>
     (fs_wake s = WakeFlushing \<longleftrightarrow> fs_wake_flight s \<noteq> None) \<and>
     (\<forall>fl. fs_wake_flight s = Some fl \<longrightarrow> fl_kind fl = WakeFlush) \<and> fs_extra_wakes s = 0"

lemma main_inv_new: "main_inv (new_fstate m)" and wake_inv_new: "wake_inv (new_fstate m)"
  by (simp_all add: main_inv_def wake_inv_def new_fstate_def new_pipe_state_def)

lemma main_inv_frames [simp]:
  "main_inv (s\<lparr>fs_exit := x\<rparr>) = main_inv s" "main_inv (s\<lparr>fs_pipe := p\<rparr>) = main_inv s"
  "main_inv (s\<lparr>fs_wake := k\<rparr>) = main_inv s" "main_inv (s\<lparr>fs_ctx := c\<rparr>) = main_inv s"
  "main_inv (s\<lparr>fs_shutting := b\<rparr>) = main_inv s" "main_inv (s\<lparr>fs_marks := mm\<rparr>) = main_inv s"
  "main_inv (s\<lparr>fs_wake_flight := fl\<rparr>) = main_inv s" "main_inv (s\<lparr>fs_delivered := d\<rparr>) = main_inv s"
  "main_inv (s\<lparr>fs_dead := d\<rparr>) = main_inv s" "main_inv (s\<lparr>fs_advanced := d\<rparr>) = main_inv s"
  "main_inv (accept it s) = main_inv s" "main_inv (hibernate_now pd cfg e batch s) = main_inv s"
  by (auto simp add: main_inv_def accept_def hibernate_now_def Let_def split: prod.split option.split)

lemma wake_inv_frames [simp]:
  "wake_inv (s\<lparr>fs_main := m\<rparr>) = wake_inv s" "wake_inv (s\<lparr>fs_exit := x\<rparr>) = wake_inv s"
  "wake_inv (s\<lparr>fs_ctx := c\<rparr>) = wake_inv s" "wake_inv (s\<lparr>fs_shutting := b\<rparr>) = wake_inv s"
  "wake_inv (s\<lparr>fs_marks := mm\<rparr>) = wake_inv s" "wake_inv (s\<lparr>fs_flight := fl\<rparr>) = wake_inv s"
  "wake_inv (s\<lparr>fs_delivered := d\<rparr>) = wake_inv s" "wake_inv (s\<lparr>fs_dead := d\<rparr>) = wake_inv s"
  "wake_inv (s\<lparr>fs_advanced := d\<rparr>) = wake_inv s" "wake_inv (accept it s) = wake_inv s"
  "wake_inv (leave_with r s) = wake_inv s" "wake_inv (finish_record r s) = wake_inv s"
  "wake_inv (report r s) = wake_inv s" "wake_inv (drain_now s) = wake_inv s"
  "wake_inv (start_flush kind s) = wake_inv s"
  "wake_inv (skip_line pa off ino pe s) = wake_inv s"
  by (auto simp: wake_inv_def accept_def leave_with_def finish_record_def report_def drain_now_def
      start_flush_def launch_def skip_line_def split: option.split prod.split sum.split)

text \<open>Where the goroutine of \<open>Run\<close> may go when no flush of its own is running.\<close>

lemma main_inv_goto:
  "\<lbrakk>main_inv s; fs_main s \<noteq> MSyncFlush; fs_main s \<noteq> MDrain; m \<noteq> MSyncFlush; m \<noteq> MDrain\<rbrakk> \<Longrightarrow> main_inv (s\<lparr>fs_main := m\<rparr>)"
  by (auto simp: main_inv_def split: option.splits)

definition own_flush :: "main_pc \<Rightarrow> bool" where
  "own_flush m \<longleftrightarrow> m = MSyncFlush \<or> m = MDrain"

lemma own_flush_simps [simp]:
  "\<not> own_flush MRun" "\<not> own_flush (MEnqueue it)" "\<not> own_flush (MHibernate it)" "\<not> own_flush (MSwapWait k)" "\<not> own_flush (MSwapped k)"
  "\<not> own_flush MAloneWait" "\<not> own_flush MSyncWait" "\<not> own_flush (MDone r)"
  by (simp_all add: own_flush_def)

lemma main_inv_goto':
  "\<lbrakk>main_inv s; \<not> own_flush (fs_main s); \<not> own_flush m\<rbrakk> \<Longrightarrow> main_inv (s\<lparr>fs_main := m\<rparr>)"
  by (auto simp: own_flush_def intro: main_inv_goto)

lemma idle_no_flight: "\<lbrakk>main_inv s; \<not> own_flush (fs_main s); \<not> fs_running s\<rbrakk> \<Longrightarrow> fs_flight s = None"
  by (cases "fs_flight s") (auto simp: main_inv_def own_flush_def, metis flush_kind.exhaust)

lemma main_inv_leave: "\<lbrakk>main_inv s; \<not> own_flush (fs_main s)\<rbrakk> \<Longrightarrow> main_inv (leave_with r s)"
  by (simp add: leave_with_def main_inv_goto')

lemma main_inv_finish: "\<lbrakk>main_inv s; \<not> own_flush (fs_main s)\<rbrakk> \<Longrightarrow> main_inv (finish_record r s)"
  using main_inv_goto' [of "s\<lparr>fs_exit := Some r\<rparr>" MRun]
  by (auto simp: finish_record_def main_inv_leave main_inv_goto' split: option.split)

lemma main_unchanged [simp]:
  "fs_main (accept it s) = fs_main s" "fs_main (start_flush kind s) = fs_main s"
  by (simp_all add: accept_def start_flush_def launch_def buf_drain_def)

lemma main_inv_after_swapping: "\<lbrakk>main_inv s; \<not> own_flush (fs_main s)\<rbrakk> \<Longrightarrow> main_inv (after_swapping k s)"
  by (auto simp: after_swapping_def Let_def main_inv_goto' main_inv_finish split: after_swap.split)

lemma main_inv_swap_now:
  assumes "main_inv s" "\<not> own_flush (fs_main s)" "\<not> fs_running s"
  shows "main_inv (swap_now k s)"
proof -
  have "fs_flight s = None" using idle_no_flight [OF assms] .
  then have "main_inv ((start_flush AsyncFlush s)\<lparr>fs_main := MSwapped k\<rparr>)"
    using assms(1) by (auto simp: start_flush_def launch_def buf_drain_def main_inv_def)
  then show ?thesis using assms by (simp add: swap_now_def main_inv_after_swapping)
qed

lemma main_inv_swap_and_start: "\<lbrakk>main_inv s; \<not> own_flush (fs_main s)\<rbrakk> \<Longrightarrow> main_inv (swap_and_start k s)"
  by (simp add: swap_and_start_def main_inv_goto' main_inv_swap_now)

lemma main_inv_enqueue: "\<lbrakk>main_inv s; fs_main s = MEnqueue it\<rbrakk> \<Longrightarrow> main_inv (enqueue_turn mx it s)"
  by (auto simp: enqueue_turn_def Let_def main_inv_goto' main_inv_finish main_inv_swap_and_start)

lemma main_inv_drain: "\<lbrakk>main_inv s; \<not> own_flush (fs_main s); \<not> fs_running s\<rbrakk> \<Longrightarrow> main_inv (drain_now s)"
  using idle_no_flight [of s] by (auto simp: drain_now_def main_inv_leave) (auto simp: main_inv_def launch_def)

lemma main_inv_sync: "\<lbrakk>main_inv s; \<not> own_flush (fs_main s)\<rbrakk> \<Longrightarrow> main_inv (sync_turn s)"
  using idle_no_flight [of s]
  by (auto simp: sync_turn_def main_inv_goto' main_inv_leave main_inv_drain split: option.split)
     (auto simp: main_inv_def start_flush_def launch_def buf_drain_def)

lemma main_inv_resume: "\<lbrakk>resume_with r s = Some s'; main_inv s; r = ok \<longrightarrow> \<not> fs_running s\<rbrakk> \<Longrightarrow> main_inv s'"
  by (auto simp: resume_with_def main_inv_finish main_inv_swap_now main_inv_sync main_inv_leave
      split: main_pc.splits if_splits)

lemma main_inv_stage: "\<lbrakk>main_inv s; get_flight w s = Some fl\<rbrakk> \<Longrightarrow> main_inv (to_stage w fl st s)"
  by (cases w) (auto simp: slot_defs main_inv_def split: option.splits)

lemma get_flight_frames [simp]:
  "get_flight w (s\<lparr>fs_delivered := d\<rparr>) = get_flight w s" "get_flight w (s\<lparr>fs_dead := d\<rparr>) = get_flight w s"
  "get_flight w (s\<lparr>fs_pipe := p\<rparr>) = get_flight w s" "get_flight w (hibernate_now pd cfg e batch s) = get_flight w s"
  "get_flight w (s\<lparr>fs_marks := mm, fs_advanced := a\<rparr>) = get_flight w s"
  "get_flight w (s\<lparr>fs_wake := k\<rparr>) = get_flight w s"
  by (cases w; simp add: slot_defs hibernate_now_def Let_def split: prod.split)+

lemma main_inv_report:
  "\<lbrakk>main_inv s; fs_flight s = Some fl; fl_kind fl = SyncFlush\<rbrakk> \<Longrightarrow> main_inv ((report r s)\<lparr>fs_main := MSyncWait\<rparr>)"
  by (auto simp: main_inv_def report_def)

lemma sync_turn_main: "sync_turn (s\<lparr>fs_main := m\<rparr>) = sync_turn s"
  by (auto simp: sync_turn_def drain_now_def leave_with_def start_flush_def launch_def split: prod.split option.split)

lemma leave_with_main: "leave_with r (s\<lparr>fs_main := m\<rparr>) = leave_with r s"
  by (simp add: leave_with_def)

lemma main_inv_return:
  assumes "main_inv s" "fs_flight s = Some fl" "main_flush_return (fl_kind fl) r s = Some s'"
  shows "main_inv s'"
proof (cases "fl_kind fl")
  case AsyncFlush
  then show ?thesis using assms by (auto simp: main_flush_return_def main_inv_def report_def split: if_splits)
next
  case SyncFlush
  have "main_inv ((report r s)\<lparr>fs_main := MSyncWait\<rparr>)" using main_inv_report [OF assms(1,2) SyncFlush] .
  then have 1: "main_inv (sync_turn (report r s))"
    using main_inv_sync [of "(report r s)\<lparr>fs_main := MSyncWait\<rparr>"] by (simp add: sync_turn_main)
  have 2: "main_inv (leave_with r (report r s))"
    using main_inv_leave [OF \<open>main_inv ((report r s)\<lparr>fs_main := MSyncWait\<rparr>)\<close>] by (simp add: leave_with_main)
  show ?thesis using assms(3) SyncFlush 1 2 by (auto simp: main_flush_return_def Let_def)
next
  case DrainFlush
  then show ?thesis using assms by (auto simp: main_flush_return_def main_inv_def leave_with_def)
next
  case WakeFlush
  then show ?thesis using assms by (simp add: main_flush_return_def)
qed

lemma main_inv_step:
  assumes "main_inv s" "fstep pd cfg l s = Some s'"
  shows "main_inv s'"
  using assms(2,1)
proof (cases rule: fstep_cases)
  case resume
  then show ?thesis using assms(1) main_inv_resume by blast
next
  case (resume_ctx e)
  then show ?thesis using assms(1) main_inv_resume [of "Inl e"] by blast
next
  case (failed w fl e dlq)
  then show ?thesis using assms(1)
    by (auto simp: flight_failed_def Let_def intro!: main_inv_stage split: option.split)
next
  case (advance w fl perr)
  then show ?thesis using assms(1)
    by (auto simp: flight_advance_def intro!: main_inv_stage split: flush_stage.splits list.splits option.splits if_splits)
next
  case (finish w fl)
  then show ?thesis using assms(1)
    by (auto simp: flight_finish_def Let_def intro!: main_inv_stage
        split: flush_stage.splits list.splits option.splits if_splits prod.splits)
next
  case main_return
  then show ?thesis using assms(1) main_inv_return by blast
qed (use assms(1) in \<open>auto simp: trigger_flush_def flusher_shutdown_def wake_tick_def wake_off_def wake_flush_return_def
    flight_published_def skip_line_def main_inv_goto' main_inv_swap_and_start main_inv_after_swapping main_inv_enqueue main_inv_sync main_inv_finish
    intro!: main_inv_stage split: option.splits if_splits\<close>)

lemma wake_inv_hibernate: "wake_inv s \<Longrightarrow> wake_inv (hibernate_now pd cfg e batch s)"
  by (auto simp: wake_inv_def hibernate_now_def enter_hibernate_def Let_def split: if_splits)

lemma wake_inv_stage: "\<lbrakk>wake_inv s; get_flight w s = Some fl\<rbrakk> \<Longrightarrow> wake_inv (to_stage w fl st s)"
  by (cases w) (auto simp: slot_defs wake_inv_def)

lemma wake_running_exit [simp]:
  "wake_running (exit_hibernate p) = wake_running p" "wake_running (reset_consecutive_dlq p) = wake_running p"
  by (simp_all add: exit_hibernate_def reset_consecutive_dlq_def)

lemma wake_inv_pipe: "\<lbrakk>wake_inv s; wake_running p = wake_running (fs_pipe s)\<rbrakk> \<Longrightarrow> wake_inv (s\<lparr>fs_pipe := p\<rparr>)"
  by (simp add: wake_inv_def)

lemma wake_inv_main [simp]:
  "wake_inv (after_swapping k s) = wake_inv s" "wake_inv (swap_now k s) = wake_inv s"
  "wake_inv (swap_and_start k s) = wake_inv s"
  "wake_inv (enqueue_turn mx it s) = wake_inv s" "wake_inv (sync_turn s) = wake_inv s"
  "wake_inv (trigger_flush s) = wake_inv s" "wake_inv (flusher_shutdown s) = wake_inv s"
proof -
  show a: "wake_inv (after_swapping k s) = wake_inv s" for s k
    by (simp add: after_swapping_def Let_def split: after_swap.split)
  show a': "wake_inv (swap_now k s) = wake_inv s" for s k by (simp add: swap_now_def a)
  show b: "wake_inv (swap_and_start k s) = wake_inv s" for s k
    by (simp add: swap_and_start_def a')
  show "wake_inv (enqueue_turn mx it s) = wake_inv s"
    by (simp add: enqueue_turn_def Let_def b)
  show c: "wake_inv (sync_turn s) = wake_inv s" for s
    by (simp add: sync_turn_def split: option.split)
  show "wake_inv (trigger_flush s) = wake_inv s" by (simp add: trigger_flush_def b)
  show "wake_inv (flusher_shutdown s) = wake_inv s" by (simp add: flusher_shutdown_def c)
qed

lemma wake_inv_step:
  assumes "wake_inv s" "fstep pd cfg l s = Some s'"
  shows "wake_inv s'"
  using assms(2,1)
proof (cases rule: fstep_cases)
  case resume
  then show ?thesis using assms(1) by (auto simp: resume_with_def split: main_pc.splits if_splits)
next
  case (resume_ctx e)
  then show ?thesis using assms(1) by (auto simp: resume_with_def split: main_pc.splits if_splits)
next
  case (published w fl)
  then show ?thesis using assms(1) wake_inv_stage [of "s\<lparr>fs_delivered := fs_delivered s @ fl_batch fl\<rparr>"]
    by (simp add: flight_published_def)
next
  case (failed w fl e dlq)
  then show ?thesis using assms(1)
    by (auto simp: flight_failed_def Let_def wake_inv_hibernate intro!: wake_inv_stage split: option.split)
next
  case (advance w fl perr)
  then show ?thesis using assms(1)
    by (auto simp: flight_advance_def intro!: wake_inv_stage split: flush_stage.splits list.splits option.splits if_splits)
next
  case (finish w fl)
  then show ?thesis using assms(1)
    by (auto simp: flight_finish_def Let_def increment_consecutive_dlq_def wake_inv_pipe
        intro!: wake_inv_stage wake_inv_hibernate
        split: flush_stage.splits list.splits option.splits if_splits prod.splits)
next
  case main_return
  then show ?thesis using assms(1)
    by (auto simp: main_flush_return_def Let_def split: flush_kind.splits if_splits)
next
  case wake_return
  then show ?thesis using assms(1) by (auto simp: wake_flush_return_def wake_inv_def)
next
  case wake_tick
  then show ?thesis using assms(1) by (auto simp: wake_tick_def wake_inv_def split: if_splits)
next
  case wake_ctx
  then show ?thesis using assms(1) by (auto simp: wake_inv_def)
next
  case wake_off
  then show ?thesis using assms(1) by (auto simp: wake_off_def wake_inv_def split: if_splits)
qed (use assms(1) in \<open>auto split: if_splits\<close>)

section \<open>Watermarks and delivery\<close>

text \<open>
  What is delivered or stored comes from the batches that were started; a watermark moves only past
  records that are delivered or stored.
\<close>

definition known :: "fstate \<Rightarrow> pending set" where
  "known s = set (fs_delivered s) \<union> set (fs_dead s)"

definition started_items :: "fstate \<Rightarrow> pending set" where
  "started_items s = set (concat (fs_started s))"

definition flight_inv :: "pending set \<Rightarrow> pending set \<Rightarrow> flight option \<Rightarrow> bool" where
  "flight_inv K A f = (case f of None \<Rightarrow> True
     | Some fl \<Rightarrow> set (fl_batch fl) \<subseteq> A \<and> (\<forall>rest why. fl_stage fl = Advancing rest why \<longrightarrow> set rest \<subseteq> K))"

definition delivery_inv :: "fstate \<Rightarrow> bool" where
  "delivery_inv s \<longleftrightarrow> set (fs_advanced s) \<subseteq> known s \<and> known s \<subseteq> started_items s \<and>
     flight_inv (known s) (started_items s) (fs_flight s) \<and> flight_inv (known s) (started_items s) (fs_wake_flight s) \<and>
     set (hibernate_batch (fs_pipe s)) \<subseteq> started_items s"

lemma delivery_inv_new: "delivery_inv (new_fstate m)"
  by (simp add: delivery_inv_def new_fstate_def known_def started_items_def flight_inv_def new_pipe_state_def)

lemma flight_inv_mono: "\<lbrakk>flight_inv K A f; K \<subseteq> K'; A \<subseteq> A'\<rbrakk> \<Longrightarrow> flight_inv K' A' f"
  unfolding flight_inv_def by (cases f) (simp_all, blast)

lemma flight_inv_None [simp]: "flight_inv K A None"
  by (simp add: flight_inv_def)

lemma delivery_frames [simp]:
  "delivery_inv (s\<lparr>fs_main := m\<rparr>) = delivery_inv s" "delivery_inv (s\<lparr>fs_exit := x\<rparr>) = delivery_inv s"
  "delivery_inv (s\<lparr>fs_ctx := c\<rparr>) = delivery_inv s" "delivery_inv (s\<lparr>fs_shutting := b\<rparr>) = delivery_inv s"
  "delivery_inv (s\<lparr>fs_marks := mm\<rparr>) = delivery_inv s" "delivery_inv (s\<lparr>fs_wake := k\<rparr>) = delivery_inv s"
  "delivery_inv (accept it s) = delivery_inv s" "delivery_inv (leave_with r s) = delivery_inv s"
  "delivery_inv (finish_record r s) = delivery_inv s" "delivery_inv (skip_line pa off ino pe s) = delivery_inv s"
  by (auto simp: delivery_inv_def known_def started_items_def accept_def leave_with_def finish_record_def skip_line_def
      split: option.split)

lemma delivery_report: "delivery_inv s \<Longrightarrow> delivery_inv (report r s)"
  by (simp add: delivery_inv_def known_def started_items_def report_def)

lemma delivery_no_flight: "delivery_inv s \<Longrightarrow> delivery_inv (s\<lparr>fs_flight := None\<rparr>)"
  by (simp add: delivery_inv_def known_def started_items_def)

lemma delivery_put:
  "\<lbrakk>delivery_inv s; flight_inv (known s) (started_items s) f\<rbrakk> \<Longrightarrow> delivery_inv (put_flight w f s)"
  by (cases w) (simp_all add: delivery_inv_def known_def started_items_def put_flight_def)

lemma delivery_launch:
  "\<lbrakk>delivery_inv s; flight_inv (known s) (started_items s) (Some fl)\<rbrakk> \<Longrightarrow> delivery_inv (launch fl s)"
  by (simp add: delivery_inv_def known_def started_items_def launch_def)

lemma known_frames [simp]:
  "known (s\<lparr>fs_main := m\<rparr>) = known s" "known (s\<lparr>fs_wake := k\<rparr>) = known s"
  "started_items (s\<lparr>fs_main := m\<rparr>) = started_items s" "started_items (s\<lparr>fs_wake := k\<rparr>) = started_items s"
  by (simp_all add: known_def started_items_def)

lemma delivery_hibernated_flight:
  "delivery_inv s \<Longrightarrow> flight_inv (known s) (started_items s)
     (Some \<lparr>fl_kind = k, fl_batch = hibernate_batch (fs_pipe s), fl_stage = Publishing\<rparr>)"
  by (simp add: delivery_inv_def flight_inv_def)

lemma delivery_start:
  assumes "delivery_inv s"
  shows "delivery_inv (start_flush kind s)"
proof -
  have sub: "started_items s \<subseteq> started_items (start_flush kind s)"
    by (auto simp: started_items_def start_flush_def launch_def buf_drain_def)
  have f: "flight_inv (known s) (started_items (start_flush kind s)) (fs_flight (start_flush kind s))"
    by (auto simp: flight_inv_def started_items_def start_flush_def launch_def buf_drain_def)
  have k: "known (start_flush kind s) = known s" "fs_advanced (start_flush kind s) = fs_advanced s"
    "fs_wake_flight (start_flush kind s) = fs_wake_flight s" "fs_pipe (start_flush kind s) = fs_pipe s"
    by (auto simp: known_def start_flush_def launch_def buf_drain_def)
  show ?thesis
    using assms sub f flight_inv_mono [of "known s" "started_items s"]
    by (auto simp: delivery_inv_def k intro: flight_inv_mono)
qed

lemma delivery_main:
  assumes "delivery_inv s"
  shows "delivery_inv (swap_now k s)" "delivery_inv (after_swapping k s)" "delivery_inv (swap_and_start k s)"
    "delivery_inv (enqueue_turn mx it s)" "delivery_inv (drain_now s)" "delivery_inv (sync_turn s)"
    "delivery_inv (trigger_flush s)" "delivery_inv (flusher_shutdown s)"
proof -
  have b: "delivery_inv (after_swapping k s)" if "delivery_inv s" for k s
    using that by (simp add: after_swapping_def Let_def split: after_swap.split)
  have a: "delivery_inv (swap_now k s)" if "delivery_inv s" for k s
    using that by (simp add: swap_now_def delivery_start b)
  have c: "delivery_inv (swap_and_start k s)" if "delivery_inv s" for k s
    using that by (simp add: swap_and_start_def a)
  have d: "delivery_inv (drain_now s)" if "delivery_inv s" for s
    using that delivery_hibernated_flight [OF that]
    by (auto simp: drain_now_def delivery_launch)
  have e: "delivery_inv (sync_turn s)" if "delivery_inv s" for s
    using that by (auto simp: sync_turn_def d delivery_start split: option.split)
  show "delivery_inv (swap_now k s)" "delivery_inv (after_swapping k s)" "delivery_inv (swap_and_start k s)"
    "delivery_inv (drain_now s)" "delivery_inv (sync_turn s)"
    using a b c d e assms by blast+
  show "delivery_inv (enqueue_turn mx it s)" using assms by (simp add: enqueue_turn_def Let_def c)
  show "delivery_inv (trigger_flush s)" using assms by (simp add: trigger_flush_def c)
  show "delivery_inv (flusher_shutdown s)" using assms e by (simp add: flusher_shutdown_def)
qed

lemma delivery_slot:
  assumes "delivery_inv s" "get_flight w s = Some fl"
  shows "set (fl_batch fl) \<subseteq> started_items s" "fl_stage fl = Advancing rest why \<Longrightarrow> set rest \<subseteq> known s"
  using assms by (cases w; auto simp: delivery_inv_def slot_defs flight_inv_def)+

lemma delivery_stage:
  assumes "delivery_inv s" "get_flight w s = Some fl" "\<And>rest why. st = Advancing rest why \<Longrightarrow> set rest \<subseteq> known s"
  shows "delivery_inv (to_stage w fl st s)"
proof -
  have "set (fl_batch fl) \<subseteq> started_items s" using delivery_slot(1) [OF assms(1,2)] .
  then have "flight_inv (known s) (started_items s) (Some (fl\<lparr>fl_stage := st\<rparr>))"
    using assms(3) by (simp add: flight_inv_def)
  then show ?thesis using delivery_put [OF assms(1)] by (simp add: to_stage_def)
qed

lemma delivery_pipe:
  "\<lbrakk>delivery_inv s; set (hibernate_batch p) \<subseteq> started_items s\<rbrakk> \<Longrightarrow> delivery_inv (s\<lparr>fs_pipe := p\<rparr>)"
  by (simp add: delivery_inv_def known_def started_items_def)

lemma delivery_hibernate:
  assumes "delivery_inv s" "set batch \<subseteq> started_items s"
  shows "delivery_inv (hibernate_now pd cfg e batch s)"
proof -
  have "set (hibernate_batch (fs_pipe s)) \<subseteq> started_items s" using assms(1) by (simp add: delivery_inv_def)
  then have "set (hibernate_batch (fst (enter_hibernate wk e batch (fs_pipe s)))) \<subseteq> started_items s" for wk
    using assms(2) by (auto simp: enter_hibernate_def Let_def)
  then have p: "delivery_inv (s\<lparr>fs_pipe := fst (enter_hibernate wk e batch (fs_pipe s))\<rparr>)" for wk
    using assms(1) by (intro delivery_pipe)
  have "delivery_inv (s\<lparr>fs_pipe := fst (enter_hibernate wk e batch (fs_pipe s)), fs_wake := k, fs_extra_wakes := n\<rparr>)" for wk k n
    using p [of wk] by (simp add: delivery_inv_def known_def started_items_def)
  then show ?thesis by (simp add: hibernate_now_def Let_def case_prod_beta)
qed

lemma delivery_step:
  assumes "delivery_inv s" "fstep pd cfg l s = Some s'"
  shows "delivery_inv s'"
  using assms(2,1)
proof (cases rule: fstep_cases)
  case resume
  then show ?thesis using assms(1) by (auto simp: resume_with_def delivery_main split: main_pc.splits if_splits)
next
  case (resume_ctx e)
  then show ?thesis using assms(1) by (auto simp: resume_with_def delivery_main split: main_pc.splits if_splits)
next
  case (published w fl)
  have "delivery_inv (s\<lparr>fs_delivered := fs_delivered s @ fl_batch fl\<rparr>)"
    using assms(1) delivery_slot(1) [OF assms(1) published(2)]
    by (auto simp: delivery_inv_def known_def started_items_def intro: flight_inv_mono)
  then show ?thesis
    using published(2,4) by (auto simp: flight_published_def known_def intro!: delivery_stage)
next
  case (failed w fl e dlq)
  note b = delivery_slot(1) [OF assms(1) failed(2)]
  have "delivery_inv (s\<lparr>fs_dead := fs_dead s @ fl_batch fl\<rparr>)"
    using assms(1) b by (auto simp: delivery_inv_def known_def started_items_def intro: flight_inv_mono)
  then show ?thesis
    using failed(2,4) assms(1) delivery_hibernate [OF assms(1) b]
    by (auto simp: flight_failed_def Let_def known_def intro!: delivery_stage split: option.split)
next
  case (advance w fl perr)
  obtain it rest why where st: "fl_stage fl = Advancing (it # rest) why"
    using advance(3) by (auto simp: flight_advance_def split: flush_stage.splits list.splits)
  have k: "set (it # rest) \<subseteq> known s" using delivery_slot(2) [OF assms(1) advance(2) st] .
  have "delivery_inv (s\<lparr>fs_marks := m, fs_advanced := fs_advanced s @ [it]\<rparr>)" for m
    using assms(1) k by (auto simp: delivery_inv_def known_def started_items_def)
  then show ?thesis
    using advance(2,3) k st
    by (auto simp: flight_advance_def known_def intro!: delivery_stage split: option.splits if_splits)
next
  case (finish w fl)
  have p: "set (hibernate_batch (fs_pipe s)) \<subseteq> started_items s" using assms(1) by (simp add: delivery_inv_def)
  then have "delivery_inv (s\<lparr>fs_pipe := exit_hibernate (fs_pipe s)\<rparr>)" "delivery_inv (s\<lparr>fs_pipe := reset_consecutive_dlq (fs_pipe s)\<rparr>)"
      "delivery_inv (s\<lparr>fs_pipe := fst (increment_consecutive_dlq (fs_pipe s))\<rparr>)"
    using assms(1) by (auto intro!: delivery_pipe
        simp: exit_hibernate_def reset_consecutive_dlq_def increment_consecutive_dlq_def Let_def)
  then show ?thesis
    using finish(2,3) assms(1)
    by (auto simp: flight_finish_def Let_def increment_consecutive_dlq_def
        intro!: delivery_stage delivery_hibernate split: flush_stage.splits list.splits option.splits if_splits)
next
  case main_return
  then show ?thesis using assms(1)
    by (auto simp: main_flush_return_def Let_def delivery_main delivery_report delivery_no_flight split: flush_kind.splits if_splits)
next
  case wake_return
  then show ?thesis using assms(1) by (simp add: wake_flush_return_def delivery_inv_def known_def started_items_def)
next
  case wake_tick
  then show ?thesis
    using assms(1) delivery_put [of "s\<lparr>fs_wake := WakeFlushing\<rparr>" _ WakeSlot] delivery_hibernated_flight [OF assms(1)]
    by (auto simp: wake_tick_def put_flight_def split: if_splits)
next
  case wake_off
  have "set (hibernate_batch (fs_pipe s)) \<subseteq> started_items s" using assms(1) by (simp add: delivery_inv_def)
  then show ?thesis
    using wake_off assms(1) delivery_pipe [of "s\<lparr>fs_wake := WakeOff\<rparr>" "(fs_pipe s)\<lparr>wake_running := False\<rparr>"]
    by (simp add: wake_off_def split: if_splits)
qed (use assms(1) in \<open>auto simp: delivery_main\<close>)

section \<open>When Run returns nil\<close>

text \<open>The buffer is empty and no flush is left.\<close>

definition done_inv :: "fstate \<Rightarrow> bool" where
  "done_inv s \<longleftrightarrow> (fs_main s = MDone ok \<longrightarrow> b_items (fs_active s) = [] \<and> fs_flight s = None) \<and>
     (fs_main s = MDrain \<longrightarrow> b_items (fs_active s) = [])"

lemma done_inv_new: "done_inv (new_fstate m)"
  by (simp add: done_inv_def new_fstate_def)

definition busy_main :: "main_pc \<Rightarrow> bool" where
  "busy_main m \<longleftrightarrow> m \<noteq> MDone ok \<and> m \<noteq> MDrain"

lemma busy_main_simps [simp]:
  "busy_main MRun" "busy_main (MEnqueue it)" "busy_main (MHibernate it)" "busy_main (MSwapWait k)" "busy_main (MSwapped k)"
  "busy_main MAloneWait" "busy_main MSyncWait" "busy_main MSyncFlush" "busy_main (MDone (Inl e))"
  by (simp_all add: busy_main_def)

lemma done_inv_busy: "busy_main (fs_main s) \<Longrightarrow> done_inv s"
  by (auto simp: busy_main_def done_inv_def)

lemma busy_leave: "r \<noteq> ok \<Longrightarrow> busy_main (fs_main (leave_with r s))"
  by (cases r) (auto simp: leave_with_def exit_result_def busy_main_def split: option.split)

lemma busy_finish: "busy_main (fs_main (finish_record r s))"
  using busy_leave by (auto simp: finish_record_def split: option.split)

lemma busy_after_swapping: "busy_main (fs_main (after_swapping k s))"
  by (auto simp: after_swapping_def Let_def busy_finish split: after_swap.split)

lemma busy_swap_now: "busy_main (fs_main (swap_now k s))"
  by (simp add: swap_now_def busy_after_swapping)

lemma busy_swap_and_start: "busy_main (fs_main (swap_and_start k s))"
  by (simp add: swap_and_start_def busy_swap_now)

lemma busy_enqueue: "busy_main (fs_main (enqueue_turn mx it s))"
  by (simp add: enqueue_turn_def Let_def busy_finish busy_swap_and_start)

lemma done_inv_drain:
  "\<lbrakk>b_items (fs_active s) = []; fs_flight s = None\<rbrakk> \<Longrightarrow> done_inv (drain_now s)"
  by (auto simp: drain_now_def done_inv_def leave_with_def launch_def)

lemma done_inv_sync: "\<lbrakk>\<not> fs_running s \<Longrightarrow> fs_flight s = None\<rbrakk> \<Longrightarrow> done_inv (sync_turn s)"
  by (auto simp: sync_turn_def done_inv_drain intro!: done_inv_busy busy_leave split: option.split)

lemma done_frames [simp]:
  "done_inv (s\<lparr>fs_wake_flight := f\<rparr>) = done_inv s" "done_inv (s\<lparr>fs_wake := k\<rparr>) = done_inv s"
  "done_inv (s\<lparr>fs_pipe := p\<rparr>) = done_inv s" "done_inv (s\<lparr>fs_ctx := c\<rparr>) = done_inv s"
  "done_inv (s\<lparr>fs_delivered := d\<rparr>) = done_inv s" "done_inv (s\<lparr>fs_dead := d\<rparr>) = done_inv s"
  "done_inv (s\<lparr>fs_marks := m, fs_advanced := d\<rparr>) = done_inv s" "done_inv (hibernate_now pd cfg e b s) = done_inv s"
  by (simp_all add: done_inv_def hibernate_now_def Let_def split: prod.split)

lemma done_inv_stage: "\<lbrakk>done_inv s; get_flight w s = Some fl\<rbrakk> \<Longrightarrow> done_inv (to_stage w fl st s)"
  by (cases w) (auto simp: slot_defs done_inv_def)

lemma done_inv_step:
  assumes "main_inv s" "done_inv s" "fstep pd cfg l s = Some s'"
  shows "done_inv s'"
  using assms(3,2)
proof (cases rule: fstep_cases)
  case tick
  then show ?thesis
    by (auto simp: trigger_flush_def busy_swap_and_start intro!: done_inv_busy)
next
  case (shut r)
  have "\<not> fs_running s \<Longrightarrow> fs_flight s = None" using idle_no_flight [of s] assms(1) shut(2) by simp
  then show ?thesis using shut(4) done_inv_sync [of "s\<lparr>fs_shutting := True\<rparr>"] by (simp add: flusher_shutdown_def)
next
  case resume
  then show ?thesis
    using assms(1) idle_no_flight [of s]
    by (auto simp: resume_with_def intro!: done_inv_busy busy_swap_now busy_finish busy_leave done_inv_sync
        split: main_pc.splits if_splits)
next
  case (resume_ctx e)
  then show ?thesis
    by (auto simp: resume_with_def intro!: done_inv_busy busy_finish busy_leave split: main_pc.splits)
next
  case (published w fl)
  then show ?thesis using assms(2) by (simp add: flight_published_def done_inv_stage)
next
  case (failed w fl e dlq)
  then show ?thesis using assms(2)
    by (auto simp: flight_failed_def Let_def intro!: done_inv_stage split: option.split)
next
  case (advance w fl perr)
  then show ?thesis using assms(2)
    by (auto simp: flight_advance_def intro!: done_inv_stage split: flush_stage.splits list.splits option.splits if_splits)
next
  case (finish w fl)
  then show ?thesis using assms(2)
    by (auto simp: flight_finish_def Let_def intro!: done_inv_stage
        split: flush_stage.splits list.splits option.splits if_splits prod.splits)
next
  case (main_return fl r)
  show ?thesis
  proof (cases "fl_kind fl")
    case AsyncFlush
    then have "s' = report r s" "fs_main s \<noteq> MDrain"
      using main_return assms(1) by (auto simp: main_flush_return_def main_inv_def split: if_splits)
    then show ?thesis using assms(2) by (auto simp: done_inv_def report_def)
  next
    case SyncFlush
    have "fs_flight (report r s) = None" by (simp add: report_def)
    then have "done_inv (sync_turn (report r s))" by (intro done_inv_sync)
    moreover have "r \<noteq> ok \<Longrightarrow> done_inv (leave_with r (report r s))" by (intro done_inv_busy busy_leave)
    ultimately show ?thesis
      using SyncFlush main_return(4) by (auto simp: main_flush_return_def Let_def split: if_splits)
  next
    case DrainFlush
    then have "fs_main s = MDrain" using assms(1) main_return(2) by (simp add: main_inv_def)
    then show ?thesis
      using DrainFlush main_return(4) assms(2) by (auto simp: main_flush_return_def done_inv_def leave_with_def)
  next
    case WakeFlush
    then show ?thesis using main_return(4) by (simp add: main_flush_return_def)
  qed
next
  case wake_return
  then show ?thesis using assms(2) by (simp add: wake_flush_return_def done_inv_def)
next
  case wake_tick
  then show ?thesis using assms(2) by (auto simp: wake_tick_def done_inv_def split: if_splits)
next
  case wake_off
  then show ?thesis using assms(2) by (auto simp: wake_off_def done_inv_def split: if_splits)
qed (use assms(2) in \<open>auto simp: busy_enqueue busy_finish busy_after_swapping skip_line_def intro!: done_inv_busy split: if_splits\<close>)

section \<open>Runs in which no batch is left behind\<close>

text \<open>
  Every publish that fails is stored as a dead letter, and the watermark file can be written: then
  every flush ends well, and the records are settled in the order they were accepted.
\<close>

definition safe_label :: "pipeline_config \<Rightarrow> flabel \<Rightarrow> bool" where
  "safe_label cfg l = (case l of
      LFailed w e dlq \<Rightarrow> on_flush_failure_or_default (publish_batch cfg) = ''dead_letter'' \<and> dlq = None
    | LAdvance w perr \<Rightarrow> perr = None
    | _ \<Rightarrow> True)"

definition in_flight :: "flight option \<Rightarrow> pending list" where
  "in_flight f = (case f of None \<Rightarrow> [] | Some fl \<Rightarrow> (case fl_stage fl of
      Publishing \<Rightarrow> fl_batch fl | Advancing rest why \<Rightarrow> rest | _ \<Rightarrow> []))"

definition returns_ok :: "flight option \<Rightarrow> bool" where
  "returns_ok f \<longleftrightarrow> (\<forall>fl r. f = Some fl \<and> fl_stage fl = Returning r \<longrightarrow> r = ok)"

definition safe_inv :: "fstate \<Rightarrow> bool" where
  "safe_inv s \<longleftrightarrow> hibernate_batch (fs_pipe s) = [] \<and> fs_wake_flight s = None \<and> fs_err s = None \<and>
     concat (fs_started s) = fs_advanced s @ in_flight (fs_flight s) \<and> returns_ok (fs_flight s) \<and> fs_main s \<noteq> MDrain"

lemma safe_inv_new: "safe_inv (new_fstate m)"
  by (simp add: safe_inv_def new_fstate_def in_flight_def returns_ok_def new_pipe_state_def)

lemma safe_frames [simp]:
  "m \<noteq> MDrain \<Longrightarrow> safe_inv s \<Longrightarrow> safe_inv (s\<lparr>fs_main := m\<rparr>)" "safe_inv (s\<lparr>fs_exit := x\<rparr>) = safe_inv s"
  "safe_inv (s\<lparr>fs_ctx := c\<rparr>) = safe_inv s" "safe_inv (s\<lparr>fs_shutting := b\<rparr>) = safe_inv s"
  "safe_inv (s\<lparr>fs_marks := mm\<rparr>) = safe_inv s" "safe_inv (s\<lparr>fs_wake := k\<rparr>) = safe_inv s"
  "safe_inv (s\<lparr>fs_delivered := d\<rparr>) = safe_inv s" "safe_inv (s\<lparr>fs_dead := d\<rparr>) = safe_inv s"
  "safe_inv (accept it s) = safe_inv s" "safe_inv s \<Longrightarrow> safe_inv (leave_with r s)"
  "safe_inv s \<Longrightarrow> safe_inv (finish_record r s)" "safe_inv s \<Longrightarrow> safe_inv (skip_line pa off ino pe s)"
  by (auto simp: safe_inv_def accept_def leave_with_def finish_record_def skip_line_def split: option.split)

lemma safe_start: "\<lbrakk>safe_inv s; fs_flight s = None\<rbrakk> \<Longrightarrow> safe_inv (start_flush kind s)"
  by (auto simp: safe_inv_def start_flush_def launch_def buf_drain_def in_flight_def returns_ok_def)

lemma safe_main:
  assumes "safe_inv s" "\<not> fs_running s \<Longrightarrow> fs_flight s = None"
  shows "\<not> fs_running s \<Longrightarrow> safe_inv (swap_now k s)" "safe_inv (after_swapping k s)" "safe_inv (swap_and_start k s)"
    "safe_inv (enqueue_turn mx it s)" "safe_inv (sync_turn s)" "safe_inv (trigger_flush s)"
proof -
  have b: "safe_inv (after_swapping k s)" if "safe_inv s" for k s
    using that by (simp add: after_swapping_def Let_def split: after_swap.split)
  have a: "safe_inv (swap_now k s)" if "\<not> fs_running s" for k
    using assms that by (simp add: swap_now_def safe_start b)
  have c: "safe_inv (swap_and_start k s)" for k
    using assms a by (simp add: swap_and_start_def)
  have "safe_inv s \<Longrightarrow> hibernate_batch (fs_pipe s) = []" by (simp add: safe_inv_def)
  then show "safe_inv (sync_turn s)"
    using assms by (auto simp: sync_turn_def drain_now_def safe_start split: option.split)
  show "\<not> fs_running s \<Longrightarrow> safe_inv (swap_now k s)" "safe_inv (after_swapping k s)" "safe_inv (swap_and_start k s)"
    "safe_inv (enqueue_turn mx it s)" "safe_inv (trigger_flush s)"
    using assms(1) a b c by (auto simp: enqueue_turn_def trigger_flush_def Let_def)
qed

lemma safe_stage:
  assumes "safe_inv s" "get_flight w s = Some fl" "in_flight (Some (fl\<lparr>fl_stage := st\<rparr>)) = in_flight (Some fl)"
    "\<And>r. st = Returning r \<Longrightarrow> r = ok"
  shows "safe_inv (to_stage w fl st s)"
  using assms by (cases w) (auto simp: slot_defs safe_inv_def returns_ok_def)

lemma safe_hibernate: "safe_inv s \<Longrightarrow> safe_inv (hibernate_now pd cfg e [] s)"
  by (auto simp: safe_inv_def hibernate_now_def enter_hibernate_def Let_def)

lemma safe_step:
  assumes inv: "main_inv s" "safe_inv s" and step: "safe_label cfg l" "fstep pd cfg l s = Some s'"
  shows "safe_inv s'"
  using step(2) inv(2)
proof (cases rule: fstep_cases)
  case tick
  then show ?thesis using inv idle_no_flight [of s] by (simp add: safe_main)
next
  case (shut r)
  then show ?thesis using inv idle_no_flight [of s] safe_main(5) [of "s\<lparr>fs_shutting := True\<rparr>"]
    by (simp add: flusher_shutdown_def)
next
  case (enqueue it)
  then show ?thesis using inv idle_no_flight [of s] by (simp add: safe_main)
next
  case resume
  have ok: "(case fs_err s of Some e \<Rightarrow> Inl e | None \<Rightarrow> ok) = ok" using inv(2) by (simp add: safe_inv_def)
  show ?thesis
    using resume inv idle_no_flight [of s] safe_main(1) [of s] safe_main(5) [of s]
    unfolding ok by (auto simp: resume_with_def split: main_pc.splits)
next
  case (resume_ctx e)
  then show ?thesis using inv(2) by (auto simp: resume_with_def split: main_pc.splits)
next
  case (relock k)
  then show ?thesis using inv idle_no_flight [of s] by (simp add: safe_main(2))
next
  case (published w fl)
  then show ?thesis using inv(2)
    by (auto simp: flight_published_def in_flight_def intro!: safe_stage)
next
  case (failed w fl e dlq)
  then have "on_flush_failure_or_default (publish_batch cfg) = ''dead_letter''" "dlq = None"
    using step(1) by (simp_all add: safe_label_def)
  then show ?thesis using failed inv(2)
    by (auto simp: flight_failed_def in_flight_def intro!: safe_stage)
next
  case (advance w fl perr)
  obtain it rest why where st: "fl_stage fl = Advancing (it # rest) why"
    using advance(3) by (auto simp: flight_advance_def split: flush_stage.splits list.splits)
  have "perr = None" using step(1) advance(1) by (simp add: safe_label_def)
  moreover have "w = MainSlot" using advance(2) inv(2) by (cases w) (auto simp: slot_defs safe_inv_def)
  ultimately show ?thesis
    using advance(2,3) st inv(2)
    by (auto simp: flight_advance_def slot_defs safe_inv_def in_flight_def returns_ok_def)
next
  case (finish w fl)
  then show ?thesis using inv(2)
    by (auto simp: flight_finish_def Let_def increment_consecutive_dlq_def in_flight_def
        intro!: safe_stage safe_hibernate split: flush_stage.splits list.splits option.splits if_splits)
       (auto simp: safe_inv_def exit_hibernate_def reset_consecutive_dlq_def in_flight_def)
next
  case (main_return fl r)
  then have r: "r = ok" "in_flight (fs_flight s) = []"
    using inv(2) by (auto simp: safe_inv_def returns_ok_def in_flight_def)
  then have rep: "safe_inv (report r s)" using inv(2) by (simp add: safe_inv_def report_def in_flight_def returns_ok_def)
  have "fl_kind fl \<noteq> DrainFlush" using inv main_return(2) by (auto simp: main_inv_def safe_inv_def)
  then show ?thesis
    using main_return(4) rep r safe_main(5) [of "report ok s"]
    by (auto simp: main_flush_return_def Let_def split: flush_kind.splits if_splits) (auto simp: report_def)
next
  case wake_return
  then show ?thesis using inv(2) by (simp add: safe_inv_def)
next
  case wake_tick
  then show ?thesis using inv(2) by (auto simp: wake_tick_def safe_inv_def split: if_splits)
next
  case wake_off
  then show ?thesis using inv(2) by (auto simp: wake_off_def safe_inv_def split: if_splits)
qed (use inv(2) in \<open>auto split: if_splits\<close>)

section \<open>Runs in which every publish succeeds\<close>

definition publishes :: "flabel \<Rightarrow> bool" where
  "publishes l = (case l of LFailed w e dlq \<Rightarrow> False | _ \<Rightarrow> True)"

definition unsent :: "flight option \<Rightarrow> pending list" where
  "unsent f = (case f of None \<Rightarrow> [] | Some fl \<Rightarrow> if fl_stage fl = Publishing then fl_batch fl else [])"

definition awake :: "pipe_state \<Rightarrow> bool" where
  "awake p \<longleftrightarrow> \<not> hibernating p \<and> hibernate_batch p = []"

definition first_try_inv :: "fstate \<Rightarrow> bool" where
  "first_try_inv s \<longleftrightarrow> awake (fs_pipe s) \<and> fs_wake_flight s = None \<and> fs_dead s = [] \<and>
     concat (fs_started s) = fs_delivered s @ unsent (fs_flight s) \<and>
     (\<forall>fl. fs_flight s = Some fl \<longrightarrow> (\<forall>rest e. fl_stage fl \<noteq> Advancing rest (Some e)) \<and> (\<forall>e. fl_stage fl \<noteq> LimitHit e)) \<and>
     fs_main s \<noteq> MDrain"

lemma first_try_new: "first_try_inv (new_fstate m)"
  by (simp add: first_try_inv_def new_fstate_def unsent_def new_pipe_state_def awake_def)

lemma first_try_frames [simp]:
  "m \<noteq> MDrain \<Longrightarrow> first_try_inv s \<Longrightarrow> first_try_inv (s\<lparr>fs_main := m\<rparr>)"
  "first_try_inv (s\<lparr>fs_exit := x\<rparr>) = first_try_inv s"
  "first_try_inv (s\<lparr>fs_ctx := c\<rparr>) = first_try_inv s" "first_try_inv (s\<lparr>fs_shutting := b\<rparr>) = first_try_inv s"
  "first_try_inv (s\<lparr>fs_marks := mm\<rparr>) = first_try_inv s" "first_try_inv (s\<lparr>fs_wake := k\<rparr>) = first_try_inv s"
  "first_try_inv (accept it s) = first_try_inv s" "first_try_inv s \<Longrightarrow> first_try_inv (leave_with r s)"
  "first_try_inv s \<Longrightarrow> first_try_inv (finish_record r s)" "first_try_inv s \<Longrightarrow> first_try_inv (skip_line pa off ino pe s)"
  by (auto simp: first_try_inv_def accept_def leave_with_def finish_record_def skip_line_def split: option.split)

lemma first_try_start: "\<lbrakk>first_try_inv s; fs_flight s = None\<rbrakk> \<Longrightarrow> first_try_inv (start_flush kind s)"
  by (auto simp: first_try_inv_def start_flush_def launch_def buf_drain_def unsent_def)

lemma first_try_main:
  assumes "first_try_inv s" "\<not> fs_running s \<Longrightarrow> fs_flight s = None"
  shows "\<not> fs_running s \<Longrightarrow> first_try_inv (swap_now k s)" "first_try_inv (after_swapping k s)"
    "first_try_inv (swap_and_start k s)" "first_try_inv (enqueue_turn mx it s)" "first_try_inv (sync_turn s)"
    "first_try_inv (trigger_flush s)"
proof -
  have b: "first_try_inv (after_swapping k s)" if "first_try_inv s" for k s
    using that by (simp add: after_swapping_def Let_def split: after_swap.split)
  have a: "first_try_inv (swap_now k s)" if "\<not> fs_running s" for k
    using assms that by (simp add: swap_now_def first_try_start b)
  have c: "first_try_inv (swap_and_start k s)" for k
    using assms a by (simp add: swap_and_start_def)
  have "\<not> hibernating (fs_pipe s)" using assms(1) by (simp add: first_try_inv_def awake_def)
  then show "first_try_inv (sync_turn s)"
    using assms by (auto simp: sync_turn_def drain_now_def first_try_start split: option.split)
  show "\<not> fs_running s \<Longrightarrow> first_try_inv (swap_now k s)" "first_try_inv (after_swapping k s)"
    "first_try_inv (swap_and_start k s)" "first_try_inv (enqueue_turn mx it s)" "first_try_inv (trigger_flush s)"
    using assms(1) a b c by (auto simp: enqueue_turn_def trigger_flush_def Let_def)
qed

lemma first_try_step:
  assumes inv: "main_inv s" "first_try_inv s" and step: "publishes l" "fstep pd cfg l s = Some s'"
  shows "first_try_inv s'"
  using step(2) inv(2)
proof (cases rule: fstep_cases)
  case tick
  then show ?thesis using inv idle_no_flight [of s] by (simp add: first_try_main)
next
  case (shut r)
  then show ?thesis using inv idle_no_flight [of s] first_try_main(5) [of "s\<lparr>fs_shutting := True\<rparr>"]
    by (simp add: flusher_shutdown_def)
next
  case (enqueue it)
  then show ?thesis using inv idle_no_flight [of s] by (simp add: first_try_main)
next
  case resume
  then show ?thesis
    using inv idle_no_flight [of s] first_try_main(1) [of s] first_try_main(5) [of s]
    by (auto simp: resume_with_def split: main_pc.splits if_splits)
next
  case (resume_ctx e)
  then show ?thesis using inv(2) by (auto simp: resume_with_def split: main_pc.splits)
next
  case (relock k)
  then show ?thesis using inv idle_no_flight [of s] by (simp add: first_try_main(2))
next
  case (published w fl)
  then show ?thesis using inv(2)
    by (cases w) (auto simp: flight_published_def slot_defs first_try_inv_def unsent_def)
next
  case failed
  then show ?thesis using step(1) by (simp add: publishes_def)
next
  case (advance w fl perr)
  then show ?thesis using inv(2)
    by (cases w) (auto simp: flight_advance_def slot_defs first_try_inv_def unsent_def
        split: flush_stage.splits list.splits option.splits if_splits)
next
  case (finish w fl)
  have w: "w = MainSlot" using finish(2) inv(2) by (cases w) (auto simp: slot_defs first_try_inv_def)
  then have "\<And>e. fl_stage fl \<noteq> Advancing [] (Some e) \<and> fl_stage fl \<noteq> LimitHit e" using finish(2) inv(2) by (auto simp: slot_defs first_try_inv_def)
  then show ?thesis using finish inv(2) w
    by (auto simp: flight_finish_def slot_defs first_try_inv_def unsent_def awake_def exit_hibernate_def
        reset_consecutive_dlq_def split: flush_stage.splits list.splits option.splits)
next
  case (main_return fl r)
  then have u: "unsent (fs_flight s) = []" by (simp add: unsent_def)
  then have rep: "first_try_inv (report r s)" using inv(2) by (simp add: first_try_inv_def report_def unsent_def)
  have "fl_kind fl \<noteq> DrainFlush" using inv main_return(2) by (auto simp: main_inv_def first_try_inv_def)
  then show ?thesis
    using main_return(4) rep first_try_main(5) [OF rep]
    by (auto simp: main_flush_return_def Let_def split: flush_kind.splits if_splits) (auto simp: report_def)
next
  case wake_return
  then show ?thesis using inv(2) by (simp add: first_try_inv_def)
next
  case wake_tick
  then show ?thesis using inv(2) by (auto simp: wake_tick_def first_try_inv_def awake_def split: if_splits)
next
  case wake_off
  then show ?thesis using inv(2) by (auto simp: wake_off_def first_try_inv_def awake_def split: if_splits)
qed (use inv(2) in \<open>auto split: if_splits\<close>)

section \<open>No record is settled twice\<close>

text \<open>
  In the runs of \<open>safe_label\<close> the records of the batches started are delivered or stored exactly once,
  each sequence in the order of the batches.
\<close>

definition once_inv :: "fstate \<Rightarrow> bool" where
  "once_inv s \<longleftrightarrow> (\<exists>xs \<in> shuffles (fs_delivered s) (fs_dead s). concat (fs_started s) = xs @ unsent (fs_flight s))"

lemma once_new: "once_inv (new_fstate m)"
  by (simp add: once_inv_def new_fstate_def unsent_def)

lemma once_cong:
  "\<lbrakk>once_inv s; fs_delivered s' = fs_delivered s; fs_dead s' = fs_dead s; fs_started s' = fs_started s;
     unsent (fs_flight s') = unsent (fs_flight s)\<rbrakk> \<Longrightarrow> once_inv s'"
  by (simp add: once_inv_def)

lemma once_frames [simp]:
  "once_inv (s\<lparr>fs_main := mm\<rparr>) = once_inv s" "once_inv (s\<lparr>fs_exit := x\<rparr>) = once_inv s"
  "once_inv (s\<lparr>fs_ctx := c\<rparr>) = once_inv s" "once_inv (s\<lparr>fs_shutting := b\<rparr>) = once_inv s"
  "once_inv (s\<lparr>fs_marks := mk\<rparr>) = once_inv s" "once_inv (s\<lparr>fs_wake := k\<rparr>) = once_inv s"
  "once_inv (s\<lparr>fs_pipe := p\<rparr>) = once_inv s" "once_inv (accept it s) = once_inv s"
  "once_inv (leave_with r s) = once_inv s" "once_inv (finish_record r s) = once_inv s"
  "once_inv (skip_line pa off ino pe s) = once_inv s" "once_inv (hibernate_now pd cfg e batch s) = once_inv s"
  by (auto simp: once_inv_def accept_def leave_with_def finish_record_def skip_line_def hibernate_now_def Let_def
      split: option.split prod.split)

lemma once_start: "\<lbrakk>once_inv s; fs_flight s = None\<rbrakk> \<Longrightarrow> once_inv (start_flush kind s)"
  by (auto simp: once_inv_def start_flush_def launch_def buf_drain_def unsent_def)

lemma once_main:
  assumes "once_inv s" "\<not> fs_running s \<Longrightarrow> fs_flight s = None" "hibernate_batch (fs_pipe s) = []"
  shows "\<not> fs_running s \<Longrightarrow> once_inv (swap_now k s)" "once_inv (after_swapping k s)" "once_inv (swap_and_start k s)"
    "once_inv (enqueue_turn mx it s)" "once_inv (sync_turn s)" "once_inv (trigger_flush s)"
proof -
  have b: "once_inv (after_swapping k s)" for k
    using assms by (simp add: after_swapping_def Let_def split: after_swap.split)
  have a: "once_inv (swap_now k s)" if "\<not> fs_running s" for k
    using assms that by (simp add: swap_now_def once_start b)
  have c: "once_inv (swap_and_start k s)" for k using assms a by (simp add: swap_and_start_def)
  show "once_inv (sync_turn s)" using assms by (auto simp: sync_turn_def drain_now_def once_start split: option.split)
  show "\<not> fs_running s \<Longrightarrow> once_inv (swap_now k s)" "once_inv (after_swapping k s)" "once_inv (swap_and_start k s)"
    "once_inv (enqueue_turn mx it s)" "once_inv (trigger_flush s)"
    using assms(1) a b c by (auto simp: enqueue_turn_def trigger_flush_def Let_def)
qed

lemma once_settle:
  assumes "once_inv s" "fs_flight s = Some fl" "fl_stage fl = Publishing" "st \<noteq> Publishing"
  shows "once_inv (to_stage MainSlot fl st (s\<lparr>fs_delivered := fs_delivered s @ fl_batch fl\<rparr>))"
    "once_inv (to_stage MainSlot fl st (s\<lparr>fs_dead := fs_dead s @ fl_batch fl\<rparr>))"
  using assms shuffles_append_left [where ys = "fs_dead s" and zs = "fl_batch fl"]
    shuffles_append_right [where xs = "fs_delivered s" and zs = "fl_batch fl"]
  by (auto simp: once_inv_def slot_defs unsent_def)

lemma once_stage:
  "\<lbrakk>once_inv s; fs_flight s = Some fl; fl_stage fl \<noteq> Publishing; st \<noteq> Publishing\<rbrakk> \<Longrightarrow> once_inv (to_stage MainSlot fl st s)"
  by (simp add: once_inv_def slot_defs unsent_def)

lemma flight_hibernate [simp]: "fs_flight (hibernate_now pd cfg e batch s) = fs_flight s"
  by (simp add: hibernate_now_def Let_def split: prod.split)

lemma once_step:
  assumes inv: "main_inv s" "safe_inv s" "once_inv s" and step: "safe_label cfg l" "fstep pd cfg l s = Some s'"
  shows "once_inv s'"
proof -
  have hb: "hibernate_batch (fs_pipe s) = []" and nw: "fs_wake_flight s = None" and err: "fs_err s = None"
    using inv(2) by (simp_all add: safe_inv_def)
  note m = once_main [OF inv(3) _ hb] and idle = idle_no_flight [OF inv(1)]
  from step(2) show ?thesis
  proof (cases rule: fstep_cases)
    case tick
    then show ?thesis using m idle by simp
  next
    case (shut r)
    then show ?thesis using inv(3) idle hb once_main(5) [of "s\<lparr>fs_shutting := True\<rparr>"] by (simp add: flusher_shutdown_def)
  next
    case (enqueue it)
    then show ?thesis using m idle by simp
  next
    case resume
    then show ?thesis using inv(3) idle m(1,5) err by (auto simp: resume_with_def split: main_pc.splits)
  next
    case (resume_ctx e)
    then show ?thesis using inv(3) by (auto simp: resume_with_def split: main_pc.splits)
  next
    case (relock k)
    then show ?thesis using m(2) idle by simp
  next
    case (published w fl)
    then show ?thesis using inv(3) nw by (cases w) (simp_all add: flight_published_def get_flight_def once_settle)
  next
    case (failed w fl e dlq)
    then show ?thesis using inv(3) nw step(1)
      by (cases w) (auto simp: flight_failed_def get_flight_def once_settle safe_label_def)
  next
    case (advance w fl perr)
    have "once_inv (s\<lparr>fs_marks := mk, fs_advanced := a\<rparr>)" for mk a using inv(3) by (rule once_cong) simp_all
    then show ?thesis using advance nw
      by (cases w) (auto simp: flight_advance_def get_flight_def intro!: once_stage
          split: flush_stage.splits list.splits option.splits if_splits)
  next
    case (finish w fl)
    then show ?thesis using inv(3) nw
      by (cases w) (auto simp: flight_finish_def get_flight_def Let_def intro!: once_stage
          split: flush_stage.splits list.splits option.splits if_splits prod.splits)
  next
    case (main_return fl r)
    then have u: "unsent (fs_flight s) = []" by (simp add: unsent_def)
    have rep: "once_inv (report r s)" using inv(3) by (rule once_cong) (use u in \<open>simp_all add: report_def unsent_def\<close>)
    have "once_inv (s\<lparr>fs_flight := None\<rparr>)" using inv(3) by (rule once_cong) (use u in \<open>simp_all add: unsent_def\<close>)
    then show ?thesis
      using main_return(4) rep once_main(5) [OF rep] hb
      by (auto simp: main_flush_return_def Let_def split: flush_kind.splits if_splits) (auto simp: report_def)
  next
    case wake_return
    then show ?thesis using nw by simp
  next
    case wake_tick
    then show ?thesis using inv(3) hb by (auto simp: wake_tick_def split: if_splits)
  next
    case wake_off
    then show ?thesis using inv(3) by (auto simp: wake_off_def split: if_splits)
  qed (use inv(3) in \<open>auto split: if_splits\<close>)
qed

section \<open>The watermark table\<close>

text \<open>
  The moves of the table: those of the flushed records, in the order of the flushes, and those of the
  filtered and skipped lines, in the order of the lines, in some interleaving.
\<close>

definition item_move :: "pending \<Rightarrow> string \<times> wm_entry" where
  "item_move it = (p_path it, \<lparr>w_offset = int (p_offset it), w_inode = p_inode it\<rparr>)"

definition apply_moves :: "(string \<times> wm_entry) list \<Rightarrow> wm_files \<Rightarrow> wm_files" where
  "apply_moves mv m = foldl (\<lambda>m pw. gm_put m (fst pw) (snd pw)) m mv"

lemma apply_moves_simps [simp]:
  "apply_moves [] = (\<lambda>m. m)" "apply_moves (pw # mv) m = apply_moves mv (gm_put m (fst pw) (snd pw))"
  "apply_moves (mv @ [pw]) m = gm_put (apply_moves mv m) (fst pw) (snd pw)"
  by (simp_all add: apply_moves_def fun_eq_iff)

lemma apply_item_moves: "apply_moves (map item_move items) m = mark_all items m"
  by (induction items arbitrary: m) (simp_all add: item_move_def item_mark_def)

definition skip_move :: "flabel \<Rightarrow> (string \<times> wm_entry) list" where
  "skip_move l = (case l of LSkip p off ino perr \<Rightarrow> [(p, \<lparr>w_offset = int off, w_inode = ino\<rparr>)] | _ \<Rightarrow> [])"

definition skip_moves :: "flabel list \<Rightarrow> (string \<times> wm_entry) list" where
  "skip_moves ls = concat (map skip_move ls)"

definition no_skip :: "flabel \<Rightarrow> bool" where
  "no_skip l = (case l of LSkip p off ino perr \<Rightarrow> False | _ \<Rightarrow> True)"

lemma no_skip_moves: "list_all no_skip ls \<Longrightarrow> skip_moves ls = []"
  by (induction ls) (auto simp: skip_moves_def skip_move_def no_skip_def split: flabel.splits)

definition marks_inv :: "wm_files option \<Rightarrow> (string \<times> wm_entry) list \<Rightarrow> fstate \<Rightarrow> bool" where
  "marks_inv m0 sk s \<longleftrightarrow>
     (\<exists>mv. mv \<in> shuffles (map item_move (fs_advanced s)) sk \<and> fs_marks s = map_option (apply_moves mv) m0)"

lemma marks_inv_new: "marks_inv m [] (new_fstate m)"
  by (simp add: marks_inv_def new_fstate_def option.map_ident)

text \<open>A move of either kind.\<close>

lemma marks_item:
  assumes "marks_inv m0 sk s"
  shows "marks_inv m0 sk (s\<lparr>fs_marks := map_option (item_mark it) (fs_marks s), fs_advanced := fs_advanced s @ [it]\<rparr>)"
proof -
  obtain mv where mv: "mv \<in> shuffles (map item_move (fs_advanced s)) sk" "fs_marks s = map_option (apply_moves mv) m0"
    using assms by (auto simp: marks_inv_def)
  have "map_option (item_mark it) (fs_marks s) = map_option (apply_moves (mv @ [item_move it])) m0"
    unfolding mv(2) by (cases m0) (simp_all add: item_move_def item_mark_def)
  then show ?thesis using shuffles_snoc_left [OF mv(1), of "item_move it"] by (auto simp: marks_inv_def)
qed

lemma marks_skip:
  assumes "marks_inv m0 sk s"
  shows "marks_inv m0 (sk @ [(p, w)]) (s\<lparr>fs_marks := map_option (\<lambda>m. gm_put m p w) (fs_marks s)\<rparr>)"
proof -
  obtain mv where mv: "mv \<in> shuffles (map item_move (fs_advanced s)) sk" "fs_marks s = map_option (apply_moves mv) m0"
    using assms by (auto simp: marks_inv_def)
  have "map_option (\<lambda>m. gm_put m p w) (fs_marks s) = map_option (apply_moves (mv @ [(p, w)])) m0"
    unfolding mv(2) by (cases m0) simp_all
  then show ?thesis using shuffles_snoc_right [OF mv(1), of "(p, w)"] by (auto simp: marks_inv_def)
qed

lemma marks_frames [simp]:
  "marks_inv m0 sk (s\<lparr>fs_main := m\<rparr>) = marks_inv m0 sk s" "marks_inv m0 sk (s\<lparr>fs_exit := x\<rparr>) = marks_inv m0 sk s"
  "marks_inv m0 sk (s\<lparr>fs_ctx := c\<rparr>) = marks_inv m0 sk s" "marks_inv m0 sk (s\<lparr>fs_shutting := b\<rparr>) = marks_inv m0 sk s"
  "marks_inv m0 sk (s\<lparr>fs_wake := k\<rparr>) = marks_inv m0 sk s" "marks_inv m0 sk (s\<lparr>fs_pipe := p\<rparr>) = marks_inv m0 sk s"
  "marks_inv m0 sk (s\<lparr>fs_flight := f\<rparr>) = marks_inv m0 sk s" "marks_inv m0 sk (s\<lparr>fs_wake_flight := f\<rparr>) = marks_inv m0 sk s"
  "marks_inv m0 sk (s\<lparr>fs_delivered := d\<rparr>) = marks_inv m0 sk s" "marks_inv m0 sk (s\<lparr>fs_dead := d\<rparr>) = marks_inv m0 sk s"
  "marks_inv m0 sk (accept it s) = marks_inv m0 sk s" "marks_inv m0 sk (leave_with r s) = marks_inv m0 sk s"
  "marks_inv m0 sk (finish_record r s) = marks_inv m0 sk s" "marks_inv m0 sk (report r s) = marks_inv m0 sk s"
  "marks_inv m0 sk (start_flush kind s) = marks_inv m0 sk s" "marks_inv m0 sk (put_flight w f s) = marks_inv m0 sk s"
  "marks_inv m0 sk (to_stage w fl st s) = marks_inv m0 sk s" "marks_inv m0 sk (hibernate_now pd cfg e batch s) = marks_inv m0 sk s"
  "marks_inv m0 sk (drain_now s) = marks_inv m0 sk s"
  by (auto simp: marks_inv_def accept_def leave_with_def finish_record_def report_def start_flush_def slot_defs
      hibernate_now_def launch_def drain_now_def Let_def split: option.split prod.split flush_slot.split sum.split)

lemma marks_main [simp]:
  "marks_inv m0 sk (after_swapping k s) = marks_inv m0 sk s" "marks_inv m0 sk (swap_now k s) = marks_inv m0 sk s"
  "marks_inv m0 sk (swap_and_start k s) = marks_inv m0 sk s"
  "marks_inv m0 sk (enqueue_turn mx it s) = marks_inv m0 sk s" "marks_inv m0 sk (sync_turn s) = marks_inv m0 sk s"
  "marks_inv m0 sk (trigger_flush s) = marks_inv m0 sk s" "marks_inv m0 sk (flusher_shutdown s) = marks_inv m0 sk s"
proof -
  show a: "marks_inv m0 sk (after_swapping k s) = marks_inv m0 sk s" for s k
    by (simp add: after_swapping_def Let_def split: after_swap.split)
  show a': "marks_inv m0 sk (swap_now k s) = marks_inv m0 sk s" for s k by (simp add: swap_now_def a)
  show b: "marks_inv m0 sk (swap_and_start k s) = marks_inv m0 sk s" for s k
    by (simp add: swap_and_start_def a')
  show "marks_inv m0 sk (enqueue_turn mx it s) = marks_inv m0 sk s" by (simp add: enqueue_turn_def Let_def b)
  show c: "marks_inv m0 sk (sync_turn s) = marks_inv m0 sk s" for s by (simp add: sync_turn_def split: option.split)
  show "marks_inv m0 sk (trigger_flush s) = marks_inv m0 sk s" by (simp add: trigger_flush_def b)
  show "marks_inv m0 sk (flusher_shutdown s) = marks_inv m0 sk s" by (simp add: flusher_shutdown_def c)
qed

lemma marks_step:
  assumes "marks_inv m0 sk s" "fstep pd cfg l s = Some s'"
  shows "marks_inv m0 (sk @ skip_move l) s'"
  using assms(2)
proof (cases rule: fstep_cases)
  case (skip p off ino perr)
  then show ?thesis using marks_skip [OF assms(1)] by (simp add: skip_line_def skip_move_def)
next
  case resume
  then show ?thesis using assms(1) by (auto simp: skip_move_def resume_with_def split: main_pc.splits if_splits)
next
  case (resume_ctx e)
  then show ?thesis using assms(1) by (auto simp: skip_move_def resume_with_def split: main_pc.splits)
next
  case (failed w fl e dlq)
  then show ?thesis using assms(1) by (auto simp: skip_move_def flight_failed_def Let_def split: option.splits)
next
  case (advance w fl perr)
  obtain it rest why where st: "fl_stage fl = Advancing (it # rest) why"
    using advance(3) by (auto simp: skip_move_def flight_advance_def split: flush_stage.splits list.splits)
  show ?thesis using advance(1,3) st marks_item [OF assms(1), of it] by (auto simp: skip_move_def flight_advance_def split: option.splits if_splits)
next
  case (finish w fl)
  then show ?thesis using assms(1)
    by (auto simp: skip_move_def flight_finish_def Let_def split: flush_stage.splits list.splits option.splits if_splits prod.splits)
next
  case main_return
  then show ?thesis using assms(1) by (auto simp: skip_move_def main_flush_return_def Let_def split: flush_kind.splits if_splits)
next
  case wake_return
  then show ?thesis using assms(1) by (simp add: skip_move_def wake_flush_return_def)
next
  case wake_tick
  then show ?thesis using assms(1) by (auto simp: skip_move_def wake_tick_def split: if_splits)
next
  case wake_off
  then show ?thesis using assms(1) by (auto simp: skip_move_def wake_off_def split: if_splits)
qed (use assms(1) in \<open>auto simp: skip_move_def flight_published_def split: if_splits\<close>)

end
