(* ===== verification/FlusherLive.thy ===== *)
theory FlusherLive
  imports FlusherInv
begin

text \<open>
  The shutdown ends: once the context is cancelled, a bound on the state decreases with every step that
  is not new input or the polling of a timer, and as long as \<open>Run\<close> has not returned such a step is
  enabled.
\<close>

section \<open>The bound\<close>

definition flight_weight :: "flight option \<Rightarrow> nat" where
  "flight_weight f = (case f of None \<Rightarrow> 0 | Some fl \<Rightarrow> (case fl_stage fl of
      Publishing \<Rightarrow> (if fl_kind fl = DrainFlush then 3 * length (fl_batch fl) + 8 else 6 * length (fl_batch fl) + 20)
    | Advancing rest why \<Rightarrow> length rest + 5
    | Clearing \<Rightarrow> 2
    | LimitHit e \<Rightarrow> 4
    | Returning r \<Rightarrow> 1))"

definition run_weight :: "check option \<Rightarrow> nat" where
  "run_weight x = (case x of None \<Rightarrow> 7 | Some r \<Rightarrow> 5)"

definition main_weight :: "main_pc \<Rightarrow> check option \<Rightarrow> nat" where
  "main_weight m x = (case m of
      MRun \<Rightarrow> run_weight x
    | MEnqueue it \<Rightarrow> run_weight x + 40
    | MHibernate it \<Rightarrow> run_weight x + 39
    | MSwapWait k \<Rightarrow> run_weight x + (case k of ThenEnqueue it \<Rightarrow> 39 | ThenAppendAlone it \<Rightarrow> 35 | ThenReturn \<Rightarrow> 1)
    | MSwapped k \<Rightarrow> run_weight x + (case k of ThenEnqueue it \<Rightarrow> 41 | ThenAppendAlone it \<Rightarrow> 33 | ThenReturn \<Rightarrow> 1)
    | MAloneWait \<Rightarrow> run_weight x + 2
    | MSyncWait \<Rightarrow> 4
    | MSyncFlush \<Rightarrow> 3
    | MDrain \<Rightarrow> 1
    | MDone r \<Rightarrow> 0)"

definition hibernate_weight :: "main_pc \<Rightarrow> pending list \<Rightarrow> nat" where
  "hibernate_weight m batch = (case m of MDrain \<Rightarrow> 0 | MDone r \<Rightarrow> 0 | _ \<Rightarrow> 4 * length batch + 9)"

definition wake_weight :: "wake_pc \<Rightarrow> nat" where
  "wake_weight k = (case k of WakeOff \<Rightarrow> 0 | WakeLeaving \<Rightarrow> 1 | WakeSleep \<Rightarrow> 2 | WakeFlushing \<Rightarrow> 3)"

definition shutdown_bound :: "fstate \<Rightarrow> nat" where
  "shutdown_bound s = main_weight (fs_main s) (fs_exit s) + flight_weight (fs_flight s) +
     flight_weight (fs_wake_flight s) + 30 * length (b_items (fs_active s)) +
     hibernate_weight (fs_main s) (hibernate_batch (fs_pipe s)) + wake_weight (fs_wake s)"

text \<open>Everything but new records, timers and polling.\<close>

definition internal_label :: "flabel \<Rightarrow> bool" where
  "internal_label l = (case l of
      LRecord it \<Rightarrow> False | LSkip p off ino perr \<Rightarrow> False | LTick \<Rightarrow> False | LPoll \<Rightarrow> False
    | LWakeTick \<Rightarrow> False | LCancel e \<Rightarrow> False | _ \<Rightarrow> True)"

lemmas weight_defs = main_weight_def run_weight_def hibernate_weight_def flight_weight_def wake_weight_def

section \<open>Waiting to swap, the buffer is not empty\<close>

definition swap_inv :: "fstate \<Rightarrow> bool" where
  "swap_inv s \<longleftrightarrow> buf_ok (fs_active s) \<and>
     (\<forall>it. fs_main s = MSwapWait (ThenEnqueue it) \<longrightarrow> b_items (fs_active s) \<noteq> [])"

definition not_swapping :: "main_pc \<Rightarrow> bool" where
  "not_swapping m \<longleftrightarrow> (\<forall>it. m \<noteq> MSwapWait (ThenEnqueue it))"

lemma not_swapping_simps [simp]:
  "not_swapping MRun" "not_swapping (MEnqueue it)" "not_swapping (MHibernate it)"
  "not_swapping (MSwapWait (ThenAppendAlone it))" "not_swapping (MSwapWait ThenReturn)" "not_swapping (MSwapped k)"
  "not_swapping MAloneWait" "not_swapping MSyncWait" "not_swapping MSyncFlush" "not_swapping MDrain" "not_swapping (MDone r)"
  by (simp_all add: not_swapping_def)

lemma swap_inv_I: "\<lbrakk>buf_ok (fs_active s); not_swapping (fs_main s)\<rbrakk> \<Longrightarrow> swap_inv s"
  by (simp add: swap_inv_def not_swapping_def)

lemma buf_ok_active:
  "buf_ok (fs_active s) \<Longrightarrow> buf_ok (fs_active (accept it s))"
  "buf_ok (fs_active s) \<Longrightarrow> buf_ok (fs_active (start_flush kind s))"
  "fs_active (leave_with r s) = fs_active s" "fs_active (finish_record r s) = fs_active s"
  "fs_active (drain_now s) = fs_active s" "fs_active (report r s) = fs_active s"
  by (auto simp: accept_def start_flush_def launch_def leave_with_def finish_record_def drain_now_def report_def
      inv_intros buf_drain_def buf_ok_def batch_bytes_def split: option.split)
     (auto simp: buf_append_def)

lemma not_swapping_goto:
  "not_swapping (fs_main (leave_with r s))" "not_swapping (fs_main (finish_record r s))"
  "not_swapping (fs_main (drain_now s))" "not_swapping (fs_main (after_swapping k s))" "not_swapping (fs_main (sync_turn s))"
  "not_swapping (fs_main (swap_now k s))"
proof -
  show a: "not_swapping (fs_main (leave_with r s))" for r s by (simp add: leave_with_def)
  show b: "not_swapping (fs_main (finish_record r s))" for r s by (simp add: finish_record_def a split: option.split)
  show c: "not_swapping (fs_main (drain_now s))" for s by (simp add: drain_now_def a)
  show d: "not_swapping (fs_main (after_swapping k s))" by (simp add: after_swapping_def Let_def b split: after_swap.split)
  show "not_swapping (fs_main (swap_now k s))" by (simp add: swap_now_def d)
  show "not_swapping (fs_main (sync_turn s))" by (simp add: sync_turn_def a c split: option.split)
qed

lemma buf_ok_moves:
  assumes "buf_ok (fs_active s)"
  shows "buf_ok (fs_active (after_swapping k s))" "buf_ok (fs_active (sync_turn s))" "buf_ok (fs_active (swap_now k s))"
  using assms by (auto simp: after_swapping_def swap_now_def sync_turn_def Let_def buf_ok_active split: after_swap.split option.split)

lemma swap_inv_swap:
  "\<lbrakk>buf_ok (fs_active s); \<forall>it. k = ThenEnqueue it \<longrightarrow> b_items (fs_active s) \<noteq> []\<rbrakk> \<Longrightarrow> swap_inv (swap_and_start k s)"
  by (auto simp: swap_and_start_def swap_inv_def[of "s\<lparr>fs_main := m\<rparr>" for m] buf_ok_active
      intro!: swap_inv_I buf_ok_moves not_swapping_goto)

lemma swap_inv_enqueue:
  assumes "buf_ok (fs_active s)"
  shows "swap_inv (enqueue_turn mx it s)"
proof -
  have ne: "0 < b_bytes (fs_active s) \<Longrightarrow> b_items (fs_active s) \<noteq> []"
    using assms by (auto simp: buf_ok_def batch_bytes_def)
  have a: "swap_inv (swap_and_start (ThenAppendAlone it) s)" using assms by (intro swap_inv_swap) simp_all
  have b: "0 < b_bytes (fs_active s) \<Longrightarrow> swap_inv (swap_and_start (ThenEnqueue it) s)"
    using assms ne by (intro swap_inv_swap) simp_all
  have c: "swap_inv (finish_record r s)" "swap_inv (finish_record r (accept it s))" for r
    using assms by (auto simp: buf_ok_active intro!: swap_inv_I not_swapping_goto)
  have d: "swap_inv (s\<lparr>fs_main := MHibernate it\<rparr>)" using assms by (intro swap_inv_I) simp_all
  show ?thesis using a b c d by (simp add: enqueue_turn_def Let_def)
qed

lemma swap_inv_frames [simp]:
  "swap_inv (s\<lparr>fs_exit := x\<rparr>) = swap_inv s" "swap_inv (s\<lparr>fs_ctx := c\<rparr>) = swap_inv s"
  "swap_inv (s\<lparr>fs_pipe := p\<rparr>) = swap_inv s" "swap_inv (s\<lparr>fs_wake := k\<rparr>) = swap_inv s"
  "swap_inv (s\<lparr>fs_marks := m, fs_advanced := d\<rparr>) = swap_inv s" "swap_inv (s\<lparr>fs_delivered := d\<rparr>) = swap_inv s"
  "swap_inv (s\<lparr>fs_dead := d\<rparr>) = swap_inv s" "swap_inv (put_flight w f s) = swap_inv s"
  "swap_inv (to_stage w fl st s) = swap_inv s" "swap_inv (report r s) = swap_inv s"
  "swap_inv (hibernate_now pd cfg e batch s) = swap_inv s" "swap_inv (s\<lparr>fs_wake_flight := f\<rparr>) = swap_inv s"
  "swap_inv (s\<lparr>fs_flight := f\<rparr>) = swap_inv s"
  by (auto simp: swap_inv_def slot_defs report_def hibernate_now_def Let_def split: flush_slot.split prod.split)

lemma swap_inv_goto: "\<lbrakk>swap_inv s; not_swapping m\<rbrakk> \<Longrightarrow> swap_inv (s\<lparr>fs_main := m\<rparr>)"
  by (simp add: swap_inv_def not_swapping_def)

lemma swap_inv_moves:
  assumes "swap_inv s"
  shows "swap_inv (leave_with r s)" "swap_inv (finish_record r s)" "swap_inv (sync_turn s)" "swap_inv (trigger_flush s)"
    "swap_inv (swap_now k s)" "swap_inv (after_swapping k s)"
  using assms
  by (auto simp: swap_inv_def[of s] trigger_flush_def buf_ok_active
      intro!: swap_inv_I not_swapping_goto buf_ok_moves swap_inv_swap)

lemma swap_inv_step:
  assumes "swap_inv s" "fstep pd cfg l s = Some s'"
  shows "swap_inv s'"
  using assms(2,1)
proof (cases rule: fstep_cases)
  case (skip p off ino perr)
  then show ?thesis using assms(1) by (auto simp: skip_line_def swap_inv_def finish_record_def leave_with_def split: option.splits)
next
  case (shut r)
  then show ?thesis using assms(1) swap_inv_moves(3) [of "s\<lparr>fs_shutting := True\<rparr>"]
    by (simp add: flusher_shutdown_def swap_inv_def)
next
  case (enqueue it)
  have "buf_ok (fs_active s)" using assms(1) by (simp add: swap_inv_def)
  then show ?thesis using enqueue(3) swap_inv_enqueue by simp
next
  case resume
  then show ?thesis using assms(1)
    by (auto simp: resume_with_def swap_inv_moves split: main_pc.splits if_splits)
next
  case (resume_ctx e)
  then show ?thesis using assms(1) by (auto simp: resume_with_def swap_inv_moves split: main_pc.splits)
next
  case (failed w fl e dlq)
  then show ?thesis using assms(1) by (auto simp: flight_failed_def Let_def split: option.splits)
next
  case (advance w fl perr)
  then show ?thesis using assms(1)
    by (auto simp: flight_advance_def split: flush_stage.splits list.splits option.splits if_splits)
next
  case (finish w fl)
  then show ?thesis using assms(1)
    by (auto simp: flight_finish_def Let_def split: flush_stage.splits list.splits option.splits if_splits prod.splits)
next
  case main_return
  then show ?thesis using assms(1)
    by (auto simp: main_flush_return_def Let_def intro!: swap_inv_moves split: flush_kind.splits if_splits)
next
  case wake_return
  then show ?thesis using assms(1) by (simp add: wake_flush_return_def swap_inv_def)
next
  case wake_tick
  then show ?thesis using assms(1) by (auto simp: wake_tick_def swap_inv_def split: if_splits)
next
  case wake_off
  then show ?thesis using assms(1) by (auto simp: wake_off_def swap_inv_def split: if_splits)
qed (use assms(1) in \<open>auto simp: flight_published_def intro!: swap_inv_moves swap_inv_goto split: if_splits\<close>)

lemma swap_inv_new: "swap_inv (new_fstate m)"
  by (simp add: swap_inv_def new_fstate_def inv_intros)

section \<open>Every internal step decreases the bound\<close>

definition core_weight :: "fstate \<Rightarrow> nat" where
  "core_weight s = flight_weight (fs_flight s) + flight_weight (fs_wake_flight s) +
     30 * length (b_items (fs_active s)) + wake_weight (fs_wake s)"

definition idle_weight :: "fstate \<Rightarrow> nat" where
  "idle_weight s = 4 * length (hibernate_batch (fs_pipe s)) + 9"

lemma bound_split:
  "shutdown_bound s = main_weight (fs_main s) (fs_exit s) + core_weight s +
     hibernate_weight (fs_main s) (hibernate_batch (fs_pipe s))"
  by (simp add: shutdown_bound_def core_weight_def)

definition own_end :: "main_pc \<Rightarrow> bool" where
  "own_end m = (case m of MDrain \<Rightarrow> True | MDone r \<Rightarrow> True | _ \<Rightarrow> False)"

lemma own_end_simps [simp]:
  "\<not> own_end MRun" "\<not> own_end (MEnqueue it)" "\<not> own_end (MHibernate it)" "\<not> own_end (MSwapWait k)" "\<not> own_end (MSwapped k)"
  "\<not> own_end MAloneWait" "\<not> own_end MSyncWait" "\<not> own_end MSyncFlush" "own_end MDrain" "own_end (MDone r)"
  by (simp_all add: own_end_def)

lemma bound_of: "\<not> own_end (fs_main s) \<Longrightarrow> shutdown_bound s = main_weight (fs_main s) (fs_exit s) + core_weight s + idle_weight s"
  "own_end (fs_main s) \<Longrightarrow> shutdown_bound s = main_weight (fs_main s) (fs_exit s) + core_weight s"
  by (cases "fs_main s"; simp add: bound_split hibernate_weight_def idle_weight_def)+

lemma weight_frames [simp]:
  "core_weight (s\<lparr>fs_main := m\<rparr>) = core_weight s" "core_weight (s\<lparr>fs_exit := x\<rparr>) = core_weight s"
  "core_weight (s\<lparr>fs_pipe := p\<rparr>) = core_weight s" "core_weight (s\<lparr>fs_shutting := b\<rparr>) = core_weight s"
  "core_weight (leave_with r s) = core_weight s" "core_weight (finish_record r s) = core_weight s"
  "core_weight (accept it s) = core_weight s + 30"
  "idle_weight (s\<lparr>fs_main := m\<rparr>) = idle_weight s" "idle_weight (s\<lparr>fs_exit := x\<rparr>) = idle_weight s"
  "idle_weight (s\<lparr>fs_shutting := b\<rparr>) = idle_weight s" "idle_weight (s\<lparr>fs_flight := f\<rparr>) = idle_weight s"
  "idle_weight (s\<lparr>fs_wake := k\<rparr>) = idle_weight s" "idle_weight (s\<lparr>fs_wake_flight := f\<rparr>) = idle_weight s"
  "idle_weight (accept it s) = idle_weight s" "idle_weight (launch fl s) = idle_weight s"
  "idle_weight (start_flush kind s) = idle_weight s" "idle_weight (report r s) = idle_weight s"
  "fs_exit (accept it s) = fs_exit s" "fs_exit (start_flush kind s) = fs_exit s"
  "fs_exit (report r s) = fs_exit s"
  by (auto simp: core_weight_def idle_weight_def leave_with_def finish_record_def accept_def buf_append_def
      start_flush_def launch_def report_def split: option.split prod.split)

lemma bound_leave: "shutdown_bound (leave_with r s) = core_weight s"
  by (subst bound_of(2)) (simp_all add: leave_with_def main_weight_def)

lemma run_weight_bounds: "run_weight x \<le> 7" "5 \<le> run_weight x"
  by (auto simp: run_weight_def split: option.split)

lemma bound_finish:
  "shutdown_bound (finish_record r s) \<le> run_weight (fs_exit s) + core_weight s + idle_weight s"
  "r \<noteq> ok \<Longrightarrow> shutdown_bound (finish_record r s) < run_weight (fs_exit s) + core_weight s + idle_weight s"
  using run_weight_bounds(2) [of "fs_exit s"]
  by (auto simp: finish_record_def bound_leave bound_of(1) main_weight_def run_weight_def split: option.split)

lemma core_start:
  assumes "fs_flight s = None" "b_items (fs_active s) \<noteq> []" "kind \<noteq> DrainFlush"
  shows "core_weight (start_flush kind s) + 4 \<le> core_weight s"
proof -
  have "1 \<le> length (b_items (fs_active s))" using assms(2) by (cases "b_items (fs_active s)") auto
  then show ?thesis
    using assms by (simp add: core_weight_def start_flush_def launch_def buf_drain_def flight_weight_def)
qed

lemma bound_after_swapping:
  "shutdown_bound (after_swapping (ThenEnqueue it) s) = run_weight (fs_exit s) + 40 + core_weight s + idle_weight s"
  "shutdown_bound (after_swapping (ThenAppendAlone it) s) \<le> run_weight (fs_exit s) + 32 + core_weight s + idle_weight s"
  "shutdown_bound (after_swapping ThenReturn s) \<le> run_weight (fs_exit s) + core_weight s + idle_weight s"
  using bound_finish(1) [of ok "accept it s"] bound_finish(1) [of ok s]
  by (auto simp: after_swapping_def Let_def bound_of(1) main_weight_def)

lemma bound_swap_now:
  assumes "fs_flight s = None" "\<And>i. k = ThenEnqueue i \<Longrightarrow> b_items (fs_active s) \<noteq> []"
  shows "shutdown_bound (swap_now k s) < run_weight (fs_exit s) + core_weight s + idle_weight s +
    (case k of ThenEnqueue it \<Rightarrow> 39 | ThenAppendAlone it \<Rightarrow> 35 | ThenReturn \<Rightarrow> 1)"
proof (cases "b_items (fs_active s) = []")
  case True
  then have s: "swap_now k s = after_swapping k s" by (simp add: swap_now_def)
  show ?thesis
  proof (cases k)
    case ThenEnqueue
    then show ?thesis using assms(2) True by blast
  next
    case (ThenAppendAlone it)
    then show ?thesis using s bound_after_swapping(2) [of it s] by simp
  next
    case ThenReturn
    then show ?thesis using s bound_after_swapping(3) [of s] by simp
  qed
next
  case False
  have "core_weight (start_flush AsyncFlush s) + 4 \<le> core_weight s" using assms(1) False by (intro core_start) simp_all
  then show ?thesis using False by (cases k) (simp_all add: swap_now_def bound_of(1) main_weight_def)
qed

lemma bound_sync:
  assumes "\<not> fs_running s \<Longrightarrow> fs_flight s = None"
  shows "\<not> fs_running s \<Longrightarrow> shutdown_bound (sync_turn s) \<le> core_weight s + idle_weight s"
    "shutdown_bound (sync_turn s) \<le> 4 + core_weight s + idle_weight s"
proof -
  show a: "shutdown_bound (sync_turn s) \<le> core_weight s + idle_weight s" if nr: "\<not> fs_running s"
  proof -
    have fl: "fs_flight s = None" using assms nr .
    have d: "shutdown_bound (drain_now s) \<le> core_weight s + idle_weight s"
    proof (cases "\<not> hibernating (fs_pipe s) \<or> length (hibernate_batch (fs_pipe s)) = 0")
      case True
      then have "drain_now s = leave_with ok s" by (simp add: drain_now_def)
      then show ?thesis by (simp add: bound_leave)
    next
      case False
      then show ?thesis
        using fl by (auto simp: drain_now_def launch_def bound_of(2) main_weight_def core_weight_def flight_weight_def idle_weight_def)
    qed
    show ?thesis
    proof (cases "b_items (fs_active s) = []")
      case True
      then show ?thesis using nr d by (simp add: sync_turn_def bound_leave split: option.split)
    next
      case False
      then show ?thesis
        using nr core_start [OF fl False, of SyncFlush] by (simp add: sync_turn_def bound_of(1) main_weight_def)
    qed
  qed
  show "shutdown_bound (sync_turn s) \<le> 4 + core_weight s + idle_weight s"
    using a by (cases "fs_running s") (simp_all add: sync_turn_def bound_of(1) main_weight_def)
qed

lemma bound_enqueue:
  assumes "\<not> fs_running s \<Longrightarrow> fs_flight s = None" "buf_ok (fs_active s)"
  shows "shutdown_bound (enqueue_turn mx it s) < run_weight (fs_exit s) + 40 + core_weight s + idle_weight s"
proof -
  have sw: "shutdown_bound (swap_and_start k s) < run_weight (fs_exit s) + 40 + core_weight s + idle_weight s"
    if k: "\<And>i. k = ThenEnqueue i \<Longrightarrow> b_items (fs_active s) \<noteq> []" for k
  proof (cases "fs_running s")
    case True
    then show ?thesis by (cases k) (simp_all add: swap_and_start_def bound_of(1) main_weight_def)
  next
    case False
    have "shutdown_bound (swap_now k s) < run_weight (fs_exit s) + core_weight s + idle_weight s +
        (case k of ThenEnqueue it \<Rightarrow> 39 | ThenAppendAlone it \<Rightarrow> 35 | ThenReturn \<Rightarrow> 1)"
      using assms(1) False k by (intro bound_swap_now) simp_all
    then show ?thesis using False by (cases k) (simp_all add: swap_and_start_def)
  qed
  have ne: "b_items (fs_active s) \<noteq> []" if "0 < b_bytes (fs_active s)"
    using that assms(2) by (auto simp: buf_ok_def batch_bytes_def)
  have h: "shutdown_bound (s\<lparr>fs_main := MHibernate it\<rparr>) < run_weight (fs_exit s) + 40 + core_weight s + idle_weight s"
    by (simp add: bound_of(1) main_weight_def)
  show ?thesis
    using bound_finish(1) [of "ctx_result s" s] bound_finish(1) [of ok "accept it s"] sw ne h
    by (auto simp: enqueue_turn_def Let_def)
qed

lemma bound_resume:
  assumes inv: "main_inv s" "swap_inv s" and r: "resume_with r s = Some s'" "r = ok \<Longrightarrow> \<not> fs_running s"
  shows "shutdown_bound s' < shutdown_bound s"
proof -
  have own: "\<not> own_flush (fs_main s)" "\<not> own_end (fs_main s)" using r(1) by (auto simp: resume_with_def split: main_pc.splits)
  have fl: "\<not> fs_running s \<Longrightarrow> fs_flight s = None" using idle_no_flight [OF inv(1) own(1)] .
  note b = bound_of(1) [OF own(2)]
  show ?thesis
  proof (cases "r = ok")
    case True
    have nr: "\<not> fs_running s" using r(2) True .
    show ?thesis
    proof (cases "fs_main s")
      case (MSwapWait k)
      have "k = ThenEnqueue i \<Longrightarrow> b_items (fs_active s) \<noteq> []" for i using inv(2) MSwapWait by (simp add: swap_inv_def)
      then have "shutdown_bound (swap_now k s) < run_weight (fs_exit s) + core_weight s + idle_weight s +
          (case k of ThenEnqueue it \<Rightarrow> 39 | ThenAppendAlone it \<Rightarrow> 35 | ThenReturn \<Rightarrow> 1)"
        by (rule bound_swap_now [OF fl [OF nr]])
      moreover have "s' = swap_now k s" using r(1) True MSwapWait by (simp add: resume_with_def)
      ultimately show ?thesis using b MSwapWait by (simp add: main_weight_def)
    next
      case MAloneWait
      then show ?thesis using b r(1) bound_finish(1) [of r s] by (simp add: resume_with_def main_weight_def)
    next
      case MSyncWait
      then show ?thesis using b r(1) True bound_sync(1) [OF fl nr] by (simp add: resume_with_def main_weight_def)
    qed (use r(1) in \<open>simp_all add: resume_with_def\<close>)
  next
    case False
    then show ?thesis
      using b r(1) bound_finish(2) [OF False, of s]
      by (auto simp: resume_with_def main_weight_def bound_leave split: main_pc.splits)
  qed
qed

text \<open>The flushes.\<close>

lemma bound_stage:
  "get_flight w s = Some fl \<Longrightarrow>
     shutdown_bound (to_stage w fl st s) + flight_weight (Some fl) = shutdown_bound s + flight_weight (Some (fl\<lparr>fl_stage := st\<rparr>))"
  by (cases w) (simp_all add: slot_defs shutdown_bound_def)

lemma bound_hibernate:
  "shutdown_bound (hibernate_now pd cfg e batch s) \<le>
     shutdown_bound s + (if own_end (fs_main s) then 0 else 4 * length batch) + 2"
proof -
  define hc where "hc = pb_hibernate (publish_batch cfg)"
  obtain p st where eh: "enter_hibernate (hib_wake_enabled hc) e batch (fs_pipe s) = (p, st)" by force
  define k where "k = (if st then (if wake_interval_duration pd hc \<le> 0 then WakeLeaving else WakeSleep) else fs_wake s)"
  define n where "n = (if st \<and> fs_wake s \<noteq> WakeOff then Suc (fs_extra_wakes s) else fs_extra_wakes s)"
  have now: "hibernate_now pd cfg e batch s = s\<lparr>fs_pipe := p, fs_wake := k, fs_extra_wakes := n\<rparr>"
    by (simp add: hibernate_now_def hc_def [symmetric] eh k_def n_def)
  have "hibernate_weight m (hibernate_batch (fst (enter_hibernate wk e batch q))) \<le>
      hibernate_weight m (hibernate_batch q) + (if own_end m then 0 else 4 * length batch)" for wk q m
    by (cases m) (auto simp: hibernate_weight_def enter_hibernate_def Let_def)
  from this [of "fs_main s" "hib_wake_enabled hc" "fs_pipe s"]
  have "hibernate_weight (fs_main s) (hibernate_batch p) \<le> hibernate_weight (fs_main s) (hibernate_batch (fs_pipe s)) +
      (if own_end (fs_main s) then 0 else 4 * length batch)" by (simp only: eh fst_conv)
  moreover have "wake_weight k \<le> wake_weight (fs_wake s) + 2" by (auto simp: k_def wake_weight_def)
  ultimately show ?thesis by (simp add: now shutdown_bound_def)
qed

lemma bound_exit_hibernate:
  "shutdown_bound (s\<lparr>fs_pipe := exit_hibernate p\<rparr>) \<le> shutdown_bound (s\<lparr>fs_pipe := p\<rparr>)"
  by (cases "fs_main s") (simp_all add: shutdown_bound_def hibernate_weight_def exit_hibernate_def)

lemma bound_ghosts [simp]:
  "shutdown_bound (s\<lparr>fs_delivered := d\<rparr>) = shutdown_bound s" "shutdown_bound (s\<lparr>fs_dead := d\<rparr>) = shutdown_bound s"
  "shutdown_bound (s\<lparr>fs_marks := m, fs_advanced := d\<rparr>) = shutdown_bound s"
  "shutdown_bound (s\<lparr>fs_pipe := (fs_pipe s)\<lparr>consecutive_dlq := n\<rparr>\<rparr>) = shutdown_bound s"
  by (simp_all add: shutdown_bound_def)

lemma flight_weights [simp]:
  "fl_kind fl \<noteq> DrainFlush \<Longrightarrow> fl_stage fl = Publishing \<Longrightarrow> flight_weight (Some fl) = 6 * length (fl_batch fl) + 20"
  "fl_kind fl = DrainFlush \<Longrightarrow> fl_stage fl = Publishing \<Longrightarrow> flight_weight (Some fl) = 3 * length (fl_batch fl) + 8"
  "flight_weight (Some (fl\<lparr>fl_stage := Advancing rest why\<rparr>)) = length rest + 5"
  "fl_stage fl = Advancing rest why \<Longrightarrow> flight_weight (Some fl) = length rest + 5"
  "flight_weight (Some (fl\<lparr>fl_stage := Returning r\<rparr>)) = 1"
  "fl_stage fl = Returning r \<Longrightarrow> flight_weight (Some fl) = 1"
  "fl_stage fl = Clearing \<Longrightarrow> flight_weight (Some fl) = 2" "flight_weight (Some (fl\<lparr>fl_stage := Clearing\<rparr>)) = 2"
  "fl_stage fl = LimitHit e \<Longrightarrow> flight_weight (Some fl) = 4" "flight_weight (Some (fl\<lparr>fl_stage := LimitHit e\<rparr>)) = 4"
  by (simp_all add: flight_weight_def)

lemma publishing_weight: "fl_stage fl = Publishing \<Longrightarrow> 3 * length (fl_batch fl) + 8 \<le> flight_weight (Some fl)"
  by (cases "fl_kind fl = DrainFlush") simp_all

lemma bound_failed:
  assumes inv: "main_inv s" "wake_inv s" and fl: "get_flight w s = Some fl" "fl_stage fl = Publishing"
  shows "shutdown_bound (flight_failed pd cfg w fl e dlq s) < shutdown_bound s"
proof -
  note pw = publishing_weight [OF fl(2)]
  have drain: "own_end (fs_main s)" if "fl_kind fl = DrainFlush"
    using that inv fl(1) by (cases w) (auto simp: slot_defs main_inv_def wake_inv_def own_end_def)
  have h: "shutdown_bound (to_stage w fl (Returning ok) (hibernate_now pd cfg e (fl_batch fl) s)) < shutdown_bound s"
  proof -
    have "shutdown_bound (to_stage w fl (Returning ok) (hibernate_now pd cfg e (fl_batch fl) s)) + flight_weight (Some fl)
        = shutdown_bound (hibernate_now pd cfg e (fl_batch fl) s) + 1"
      using bound_stage [of w "hibernate_now pd cfg e (fl_batch fl) s" fl "Returning ok"] fl(1) by simp
    moreover have "shutdown_bound (hibernate_now pd cfg e (fl_batch fl) s) \<le>
        shutdown_bound s + (if own_end (fs_main s) then 0 else 4 * length (fl_batch fl)) + 2"
      by (rule bound_hibernate)
    moreover have "(if own_end (fs_main s) then 0 else 4 * length (fl_batch fl)) + 4 \<le> flight_weight (Some fl)"
      using drain pw fl(2) by (cases "fl_kind fl = DrainFlush") auto
    ultimately show ?thesis by linarith
  qed
  have st: "shutdown_bound (to_stage w fl (Returning r) s) < shutdown_bound s" for r
    using bound_stage [OF fl(1), of "Returning r"] pw by simp
  have dd: "shutdown_bound (to_stage w fl (Advancing (fl_batch fl) (Some e)) (s\<lparr>fs_dead := d\<rparr>)) < shutdown_bound s" for d
    using bound_stage [of w "s\<lparr>fs_dead := d\<rparr>" fl "Advancing (fl_batch fl) (Some e)"] fl(1) pw by simp
  show ?thesis using h st dd by (auto simp: flight_failed_def Let_def split: option.split)
qed

lemma bound_finish_flush:
  assumes fl: "get_flight w s = Some fl" and f: "flight_finish pd cfg w fl s = Some s'"
  shows "shutdown_bound s' < shutdown_bound s"
proof -
  have stage: "shutdown_bound (to_stage w fl st q) + flight_weight (Some fl) =
      shutdown_bound q + flight_weight (Some (fl\<lparr>fl_stage := st\<rparr>))" if "get_flight w q = Some fl" for q st
    using bound_stage [OF that] .
  show ?thesis
  proof (cases "fl_stage fl")
    case Publishing
    then show ?thesis using f by (simp add: flight_finish_def)
  next
    case (Advancing rest why)
    have r: "rest = []" using f Advancing by (auto simp: flight_finish_def split: list.splits)
    have d: "flight_weight (Some fl) = 5" using Advancing r by simp
    have q: "shutdown_bound (s\<lparr>fs_pipe := reset_consecutive_dlq (fs_pipe s)\<rparr>) = shutdown_bound s"
      "shutdown_bound (s\<lparr>fs_pipe := fst (increment_consecutive_dlq (fs_pipe s))\<rparr>) = shutdown_bound s"
      by (simp_all add: reset_consecutive_dlq_def increment_consecutive_dlq_def Let_def)
    have "shutdown_bound (to_stage w fl st (s\<lparr>fs_pipe := p\<rparr>)) < shutdown_bound s"
      if "flight_weight (Some (fl\<lparr>fl_stage := st\<rparr>)) < 5" "shutdown_bound (s\<lparr>fs_pipe := p\<rparr>) = shutdown_bound s" for st p
      using stage [of "s\<lparr>fs_pipe := p\<rparr>" st] fl d that by simp
    then show ?thesis
      using f Advancing r q
      by (auto simp: flight_finish_def Let_def case_prod_beta split: option.splits if_splits)
  next
    case Clearing
    have "shutdown_bound (s\<lparr>fs_pipe := exit_hibernate (fs_pipe s)\<rparr>) \<le> shutdown_bound s"
      using bound_exit_hibernate [where s = s and p = "fs_pipe s"] by simp
    then show ?thesis
      using f Clearing fl stage [of "s\<lparr>fs_pipe := exit_hibernate (fs_pipe s)\<rparr>" "Returning ok"] by (simp add: flight_finish_def)
  next
    case (LimitHit e)
    have "shutdown_bound (hibernate_now pd cfg e [] s) \<le> shutdown_bound s + 2"
      using bound_hibernate [of pd cfg e "[]" s] by (simp split: if_splits)
    then show ?thesis
      using f LimitHit fl stage [of "hibernate_now pd cfg e [] s" "Returning ok"] by (simp add: flight_finish_def)
  next
    case (Returning r)
    then show ?thesis using f by (simp add: flight_finish_def)
  qed
qed

lemma bound_main_return:
  assumes inv: "main_inv s" and fl: "fs_flight s = Some fl" "fl_stage fl = Returning r"
    and m: "main_flush_return (fl_kind fl) r s = Some s'"
  shows "shutdown_bound s' < shutdown_bound s"
proof -
  have fw: "flight_weight (fs_flight s) = 1" using fl by simp
  have rep: "core_weight (report r s) + 1 = core_weight s" "fs_flight (report r s) = None" "\<not> fs_running (report r s)"
    using fw by (simp_all add: core_weight_def report_def flight_weight_def [of None])
  show ?thesis
  proof (cases "fl_kind fl")
    case AsyncFlush
    then have "s' = report r s" using m by (simp add: main_flush_return_def split: if_splits)
    then show ?thesis using fw by (simp add: shutdown_bound_def report_def flight_weight_def [of None])
  next
    case SyncFlush
    then have "fs_main s = MSyncFlush" using inv fl by (simp add: main_inv_def)
    then have b: "shutdown_bound s = 3 + core_weight s + idle_weight s" by (simp add: bound_of(1) main_weight_def)
    show ?thesis
    proof (cases "r = ok")
      case True
      then have "s' = sync_turn (report r s)" using m SyncFlush by (simp add: main_flush_return_def Let_def)
      then show ?thesis using b rep bound_sync(1) [of "report r s"] by simp
    next
      case False
      then have "s' = leave_with r (report r s)" using m SyncFlush by (simp add: main_flush_return_def Let_def)
      then show ?thesis using b rep by (simp add: bound_leave)
    qed
  next
    case DrainFlush
    then have "fs_main s = MDrain" using inv fl by (simp add: main_inv_def)
    then have "shutdown_bound s = 1 + core_weight s" by (simp add: bound_of(2) main_weight_def)
    moreover have "core_weight (s\<lparr>fs_flight := None\<rparr>) \<le> core_weight s"
      by (simp add: core_weight_def flight_weight_def [of None])
    ultimately show ?thesis using m DrainFlush by (auto simp: main_flush_return_def bound_leave)
  next
    case WakeFlush
    then show ?thesis using m by (simp add: main_flush_return_def)
  qed
qed

lemma bound_step:
  assumes inv: "main_inv s" "wake_inv s" "swap_inv s" and l: "internal_label l" "fstep pd cfg l s = Some s'"
  shows "shutdown_bound s' < shutdown_bound s"
  using l(2)
proof (cases rule: fstep_cases)
  case (error e)
  then show ?thesis using bound_finish(2) [of "Inl e" s] by (simp add: bound_of(1) main_weight_def)
next
  case stop
  then show ?thesis by (simp add: bound_of(1) main_weight_def run_weight_def)
next
  case (shut r)
  have "\<not> fs_running s \<Longrightarrow> fs_flight s = None" using idle_no_flight [OF inv(1)] shut(2) by simp
  then show ?thesis
    using shut bound_sync(2) [of "s\<lparr>fs_shutting := True\<rparr>"]
    by (simp add: flusher_shutdown_def bound_of(1) main_weight_def run_weight_def)
next
  case (enqueue it)
  have "\<not> fs_running s \<Longrightarrow> fs_flight s = None" using idle_no_flight [OF inv(1)] enqueue(2) by simp
  then show ?thesis
    using enqueue inv(3) bound_enqueue [of s] by (simp add: bound_of(1) main_weight_def swap_inv_def)
next
  case (poll_ctx it e)
  then show ?thesis using bound_finish(1) [of "Inl e" s] by (simp add: bound_of(1) main_weight_def)
next
  case resume
  then show ?thesis using bound_resume [OF inv(1,3)] by (cases "fs_err s") auto
next
  case (resume_ctx e)
  then show ?thesis using bound_resume [OF inv(1,3)] by blast
next
  case (relock k)
  then have b: "shutdown_bound s = main_weight (MSwapped k) (fs_exit s) + core_weight s + idle_weight s" by (simp add: bound_of(1))
  show ?thesis
  proof (cases k)
    case (ThenEnqueue it)
    then show ?thesis using relock(3) b by (simp add: bound_after_swapping(1) main_weight_def)
  next
    case (ThenAppendAlone it)
    then show ?thesis using relock(3) b bound_after_swapping(2) [of it s] by (simp add: main_weight_def)
  next
    case ThenReturn
    then show ?thesis using relock(3) b bound_after_swapping(3) [of s] by (simp add: main_weight_def)
  qed
next
  case (published w fl)
  then show ?thesis
    using bound_stage [of w "s\<lparr>fs_delivered := fs_delivered s @ fl_batch fl\<rparr>" fl "Advancing (fl_batch fl) None"]
      publishing_weight [of fl] by (simp add: flight_published_def)
next
  case failed
  then show ?thesis using bound_failed [OF inv(1,2)] by blast
next
  case (advance w fl perr)
  obtain it rest why where st: "fl_stage fl = Advancing (it # rest) why"
    using advance(3) by (auto simp: flight_advance_def split: flush_stage.splits list.splits)
  let ?s1 = "s\<lparr>fs_marks := map_option (item_mark it) (fs_marks s), fs_advanced := fs_advanced s @ [it]\<rparr>"
  have g: "get_flight w ?s1 = Some fl" using advance(2) by simp
  have wt: "flight_weight (Some fl) = length rest + 6" using st by (simp add: flight_weight_def)
  have 1: "shutdown_bound ?s1 = shutdown_bound s" by simp
  have "shutdown_bound (to_stage w fl (Advancing rest why) ?s1) < shutdown_bound s"
    using bound_stage [OF g, of "Advancing rest why"] wt flight_weights(3) [where fl = fl and rest = rest and why = why] 1 by linarith
  moreover have "shutdown_bound (to_stage w fl (Returning r) ?s1) < shutdown_bound s" for r
    using bound_stage [OF g, of "Returning r"] wt flight_weights(5) [where fl = fl and r = r] 1 by linarith
  ultimately show ?thesis using advance(3) st by (auto simp: flight_advance_def split: if_splits option.splits)
next
  case finish
  then show ?thesis using bound_finish_flush by blast
next
  case main_return
  then show ?thesis using bound_main_return [OF inv(1)] by blast
next
  case (wake_return fl r)
  then have "fs_wake s = WakeFlushing" "flight_weight (fs_wake_flight s) = 1" using inv(2) by (auto simp: wake_inv_def)
  then show ?thesis
    using wake_return(4) by (auto simp: wake_flush_return_def shutdown_bound_def wake_weight_def flight_weight_def [of None])
next
  case (wake_ctx e)
  then show ?thesis by (simp add: shutdown_bound_def wake_weight_def)
next
  case wake_off
  then show ?thesis by (auto simp: wake_off_def shutdown_bound_def wake_weight_def split: if_splits)
qed (use l(1) in \<open>simp_all add: internal_label_def\<close>)

section \<open>Such a step is enabled until Run returns\<close>

lemma flight_progress:
  assumes "main_inv s" "fs_flight s = Some fl" "own_flush (fs_main s)"
  shows "\<exists>l s'. internal_label l \<and> fstep pd cfg l s = Some s'"
proof (cases "fl_stage fl")
  case Publishing
  then show ?thesis using assms(2)
    by (intro exI [of _ "LPublished MainSlot"]) (simp add: internal_label_def fstep_defs slot_defs)
next
  case (Advancing rest why)
  show ?thesis
  proof (cases rest)
    case Nil
    then show ?thesis using Advancing assms(2)
      by (intro exI [of _ "LFinish MainSlot"])
        (auto simp: internal_label_def fstep_defs get_flight_def flight_finish_def Let_def split: option.split prod.split)
  next
    case Cons
    then show ?thesis using Advancing assms(2)
      by (intro exI [of _ "LAdvance MainSlot None"]) (simp add: internal_label_def fstep_defs get_flight_def flight_advance_def)
  qed
next
  case Clearing
  then show ?thesis using assms(2)
    by (intro exI [of _ "LFinish MainSlot"]) (simp add: internal_label_def fstep_defs get_flight_def flight_finish_def)
next
  case (LimitHit e)
  then show ?thesis using assms(2)
    by (intro exI [of _ "LFinish MainSlot"]) (simp add: internal_label_def fstep_defs get_flight_def flight_finish_def)
next
  case (Returning r)
  then show ?thesis using assms
    by (intro exI [of _ "LReturn MainSlot"])
      (auto simp: internal_label_def fstep_defs get_flight_def main_flush_return_def main_inv_def own_flush_def
        split: flush_kind.split)
qed

lemma cancelled_progress:
  assumes "main_inv s" "fs_ctx s = Some e" "\<And>r. fs_main s \<noteq> MDone r"
  shows "\<exists>l s'. internal_label l \<and> fstep pd cfg l s = Some s'"
proof (cases "fs_main s")
  case MRun
  then show ?thesis
    by (cases "fs_exit s"; intro exI [of _ "case fs_exit s of None \<Rightarrow> LStop | Some r \<Rightarrow> LShut"])
      (simp_all add: internal_label_def fstep_defs)
next
  case (MEnqueue it)
  then show ?thesis by (intro exI [of _ LEnqueue]) (simp add: internal_label_def fstep_defs)
next
  case (MHibernate it)
  then show ?thesis using assms(2) by (intro exI [of _ LPollCtx]) (simp add: internal_label_def fstep_defs)
next
  case (MSwapWait k)
  then show ?thesis using assms(2) by (intro exI [of _ LResumeCtx]) (simp add: internal_label_def fstep_defs resume_with_def)
next
  case (MSwapped k)
  then show ?thesis by (intro exI [of _ LRelock]) (simp add: internal_label_def fstep_defs)
next
  case MAloneWait
  then show ?thesis using assms(2) by (intro exI [of _ LResumeCtx]) (simp add: internal_label_def fstep_defs resume_with_def)
next
  case MSyncWait
  then show ?thesis using assms(2) by (intro exI [of _ LResumeCtx]) (simp add: internal_label_def fstep_defs resume_with_def)
next
  case MSyncFlush
  then obtain fl where "fs_flight s = Some fl" using assms(1) by (cases "fs_flight s") (auto simp: main_inv_def)
  then show ?thesis using flight_progress assms(1) MSyncFlush by (simp add: own_flush_def)
next
  case MDrain
  then obtain fl where "fs_flight s = Some fl" using assms(1) by (cases "fs_flight s") (auto simp: main_inv_def)
  then show ?thesis using flight_progress assms(1) MDrain by (simp add: own_flush_def)
next
  case MDone
  then show ?thesis using assms(3) by blast
qed

end
