(* ===== verification/FlusherSamples.thy ===== *)
theory FlusherSamples
  imports FlusherInv
begin

text \<open>
  Concrete configurations and runs of the publish flusher, evaluated by simplification; they are the
  inputs at which the properties of \<open>FlusherProps\<close> are applied.
\<close>

section \<open>Sample configurations\<close>

definition ten_bytes :: "string \<Rightarrow> bool \<Rightarrow> pipeline_config" where
  "ten_bytes policy wake = cfg_pipeline (default_config [])
     \<lparr>publish_batch := \<lparr>pb_max_bytes = 10, pb_flush_interval = ''0'', pb_on_flush_failure = policy, pb_max_attempts = 1,
        pb_hibernate = \<lparr>hib_wake_enabled = wake, hib_wake_interval = ''1m''\<rparr>,
        pb_dead_letter = \<lparr>dl_path = ''/dlq'', dl_max_consecutive_batches = 1\<rparr>\<rparr>\<rparr>"

definition minute_pd :: duration_parser where
  "minute_pd s = (if s = ''1m'' then Inr 60000000000 else failing ''no duration'')"

definition rec_at :: "nat \<Rightarrow> pending" where
  "rec_at n = \<lparr>p_payload = ''abcdef'', p_path = ''/a'', p_offset = n, p_inode = 7\<rparr>"

lemma ten_bytes_values [simp]:
  "max_bytes_limit pd (publish_batch (ten_bytes policy wake)) = 10"
  "on_flush_failure_or_default (publish_batch (ten_bytes ''hibernate'' wake)) = ''hibernate''"
  "on_flush_failure_or_default (publish_batch (ten_bytes ''dead_letter'' wake)) = ''dead_letter''"
  "hib_wake_enabled (pb_hibernate (publish_batch (ten_bytes policy wake))) = wake"
  "wake_interval_duration minute_pd (pb_hibernate (publish_batch (ten_bytes policy wake))) = 60000000000"
  "max_consecutive_batches_or_default (pb_dead_letter (publish_batch (ten_bytes policy wake))) = 1"
  by (simp_all add: max_bytes_limit_def size_trigger_enabled_def publish_batch_enabled_def ten_bytes_def
      on_flush_failure_or_default_def default_config_def Let_def wake_interval_duration_def minute_pd_def
      max_consecutive_batches_or_default_def parse_or_def)

lemma rec_at_simps [simp]: "p_payload (rec_at n) = ''abcdef''" "rec_at n = rec_at k \<longleftrightarrow> n = k"
  "item_mark (rec_at n) m = gm_put m ''/a'' \<lparr>w_offset = int n, w_inode = 7\<rparr>"
  by (simp_all add: rec_at_def item_mark_def)

lemmas run_eval = fstep_defs slot_defs new_fstate_def new_pipe_state_def empty_buffer_def
  enqueue_turn_def accept_def buf_append_def finish_record_def trigger_flush_def swap_and_start_def swap_now_def
  start_flush_def launch_def buf_drain_def after_swapping_def resume_with_def flight_published_def flight_failed_def
  flight_advance_def flight_finish_def main_flush_return_def holds_mutex_def report_def
  hibernate_now_def enter_hibernate_def exit_hibernate_def reset_consecutive_dlq_def increment_consecutive_dlq_def
  flusher_shutdown_def sync_turn_def drain_now_def leave_with_def exit_result_def
  wake_tick_def wake_flush_return_def wake_off_def skip_line_def Let_def

definition flush_ok :: "flush_slot \<Rightarrow> flabel list" where
  "flush_ok w = [LPublished w, LAdvance w None, LFinish w, LFinish w, LReturn w]"

definition one_record :: "nat \<Rightarrow> flabel list" where
  "one_record n = [LRecord (rec_at n), LEnqueue]"

text \<open>Two records in two batches, the second flushed by the shutdown.\<close>

definition healthy_run :: "flabel list" where
  "healthy_run = one_record 1 @ one_record 2 @ [LRelock, LEnqueue] @ flush_ok MainSlot @ [LStop, LShut] @ flush_ok MainSlot"

lemma healthy_run:
  "\<exists>s. run_steps (fstep minute_pd (ten_bytes ''hibernate'' True)) healthy_run (new_fstate (Some [])) = Some s \<and>
     fs_main s = MDone ok \<and> fs_accepted s = [rec_at 1, rec_at 2] \<and> fs_started s = [[rec_at 1], [rec_at 2]]"
  unfolding healthy_run_def flush_ok_def one_record_def by (simp add: run_eval split: option.split)

text \<open>The first of the two is stored as a dead letter.\<close>

definition spill_run :: "flabel list" where
  "spill_run = one_record 1 @ one_record 2 @ [LRelock, LEnqueue, LFailed MainSlot (ErrText ''down'') None, LAdvance MainSlot None,
     LFinish MainSlot, LFinish MainSlot, LReturn MainSlot, LStop, LShut] @ flush_ok MainSlot"

lemma spill_run:
  "\<exists>s. run_steps (fstep minute_pd (ten_bytes ''dead_letter'' True)) spill_run (new_fstate (Some [])) = Some s \<and>
     fs_main s = MDone ok \<and> fs_accepted s = [rec_at 1, rec_at 2] \<and> fs_dead s = [rec_at 1] \<and> fs_delivered s = [rec_at 2]"
  unfolding spill_run_def flush_ok_def one_record_def by (simp add: run_eval split: option.split)

text \<open>The same, after a line of another file that is skipped.\<close>

definition skipping_run :: "flabel list" where
  "skipping_run = LSkip ''/b'' 9 8 None # spill_run"

lemma skipping_run:
  "\<exists>s. run_steps (fstep minute_pd (ten_bytes ''dead_letter'' True)) skipping_run (new_fstate (Some [])) = Some s \<and>
     fs_dead s = [rec_at 1] \<and> fs_delivered s = [rec_at 2]"
  unfolding skipping_run_def spill_run_def flush_ok_def one_record_def by (simp add: run_eval split: option.split)

lemma skipping_run_moves: "skip_moves skipping_run = [(''/b'', \<lparr>w_offset = 9, w_inode = 8\<rparr>)]"
  by (simp add: skipping_run_def spill_run_def flush_ok_def one_record_def skip_moves_def skip_move_def)

text \<open>A cancelled run: the pipeline hibernates and the next record waits for it.\<close>

definition cancelled_run :: "flabel list" where
  "cancelled_run = one_record 1 @ [LTick, LRelock, LFailed MainSlot (ErrText ''down'') None, LReturn MainSlot] @
     one_record 2 @ [LCancel (ErrText ''context canceled'')]"

lemma cancelled_run:
  "\<exists>s. run_steps (fstep minute_pd (ten_bytes ''hibernate'' True)) cancelled_run (new_fstate (Some [])) = Some s \<and>
     fs_main s = MHibernate (rec_at 2) \<and> fs_ctx s = Some (ErrText ''context canceled'') \<and>
     fs_wake s = WakeSleep \<and> hibernating (fs_pipe s) \<and> hibernate_batch (fs_pipe s) = [rec_at 1] \<and> fs_marks s = Some []"
  unfolding cancelled_run_def flush_ok_def one_record_def by (simp add: run_eval split: option.split)

lemma healthy_run_labels: "list_all publishes healthy_run"
  by (simp add: healthy_run_def one_record_def flush_ok_def publishes_def)

lemma spill_run_labels: "list_all (safe_label (ten_bytes ''dead_letter'' True)) spill_run" "list_all no_skip spill_run"
  by (simp_all add: spill_run_def one_record_def flush_ok_def safe_label_def no_skip_def)

end
