(* ===== verification/FlusherProps.thy ===== *)
theory FlusherProps
  imports FlusherLive FlusherSamples
begin

text \<open>
  What the runs of the publish flusher guarantee: the invariants of \<open>FlusherInv\<close> and the bound of
  \<open>FlusherLive\<close> are carried to all runs by interpreting the locale of \<open>Automaton\<close>, once per kind of
  environment, and the properties are read off them.
\<close>

section \<open>The invariants hold in every run\<close>

definition flusher_start :: "fstate \<Rightarrow> bool" where
  "flusher_start s \<longleftrightarrow> (\<exists>m. s = new_fstate m)"

definition base_inv :: "duration_parser \<Rightarrow> pipeline_config \<Rightarrow> fstate \<Rightarrow> bool" where
  "base_inv pd cfg s \<longleftrightarrow> buffer_inv (max_bytes_limit pd (publish_batch cfg)) s \<and> main_inv s \<and> wake_inv s \<and>
     swap_inv s \<and> swapped_inv s \<and> delivery_inv s \<and> done_inv s"

lemma base_inv_new: "base_inv pd cfg (new_fstate m)"
  by (simp add: base_inv_def buffer_inv_new main_inv_new wake_inv_new swap_inv_new swapped_inv_new delivery_inv_new done_inv_new)

lemma base_inv_step: "\<lbrakk>base_inv pd cfg s; fstep pd cfg l s = Some s'\<rbrakk> \<Longrightarrow> base_inv pd cfg s'"
  unfolding base_inv_def
  by (intro conjI; elim conjE; rule buffer_inv_step main_inv_step wake_inv_step swap_inv_step swapped_step delivery_step done_inv_step;
      assumption)

interpretation any_run: invariant_of "fstep pd cfg" "\<lambda>l. True" flusher_start "base_inv pd cfg" for pd cfg
  by unfold_locales (auto simp: flusher_start_def base_inv_new intro: base_inv_step)

lemma base_main: "base_inv pd cfg s \<Longrightarrow> main_inv s"
  by (simp add: base_inv_def)

interpretation safe_run: invariant_of "fstep pd cfg" "safe_label cfg" flusher_start
    "\<lambda>s. base_inv pd cfg s \<and> safe_inv s \<and> once_inv s"
  for pd cfg
  by unfold_locales
    (auto simp: flusher_start_def base_inv_new safe_inv_new once_new intro: base_inv_step safe_step once_step base_main)

interpretation first_try_run: invariant_of "fstep pd cfg" publishes flusher_start "\<lambda>s. base_inv pd cfg s \<and> first_try_inv s"
  for pd cfg
  by unfold_locales
    (auto simp: flusher_start_def base_inv_new first_try_new intro: base_inv_step first_try_step base_main)

interpretation marks_run: history_invariant "fstep pd cfg" skip_move "marks_inv m" for pd cfg m
  by unfold_locales (rule marks_step)

text \<open>A cancelled context stays cancelled, with its error.\<close>

lemma ctx_frames [simp]:
  "fs_ctx (leave_with r s) = fs_ctx s" "fs_ctx (finish_record r s) = fs_ctx s" "fs_ctx (skip_line pa off ino pe s) = fs_ctx s"
  "fs_ctx (accept it s) = fs_ctx s" "fs_ctx (start_flush kind s) = fs_ctx s"
  "fs_ctx (drain_now s) = fs_ctx s" "fs_ctx (report r s) = fs_ctx s" "fs_ctx (put_flight w f s) = fs_ctx s"
  "fs_ctx (to_stage w fl st s) = fs_ctx s" "fs_ctx (hibernate_now pd cfg e batch s) = fs_ctx s"
  "fs_ctx (wake_flush_return s) = fs_ctx s" "fs_ctx (flight_published w fl s) = fs_ctx s"
  by (auto simp: leave_with_def finish_record_def skip_line_def accept_def start_flush_def launch_def drain_now_def
      report_def slot_defs hibernate_now_def wake_flush_return_def flight_published_def Let_def
      split: option.split prod.split flush_slot.split)

lemma ctx_moves [simp]:
  "fs_ctx (after_swapping k s) = fs_ctx s" "fs_ctx (swap_now k s) = fs_ctx s" "fs_ctx (swap_and_start k s) = fs_ctx s" "fs_ctx (sync_turn s) = fs_ctx s"
  "fs_ctx (enqueue_turn mx it s) = fs_ctx s" "fs_ctx (trigger_flush s) = fs_ctx s" "fs_ctx (flusher_shutdown s) = fs_ctx s"
  "fs_ctx (flight_failed pd cfg w fl e dlq s) = fs_ctx s"
proof -
  show a: "fs_ctx (after_swapping k s) = fs_ctx s" for k s by (simp add: after_swapping_def Let_def split: after_swap.split)
  show a': "fs_ctx (swap_now k s) = fs_ctx s" for k s by (simp add: swap_now_def a)
  show b: "fs_ctx (swap_and_start k s) = fs_ctx s" for k s by (simp add: swap_and_start_def a')
  show c: "fs_ctx (sync_turn s) = fs_ctx s" for s by (simp add: sync_turn_def split: option.split)
  show "fs_ctx (enqueue_turn mx it s) = fs_ctx s" by (simp add: enqueue_turn_def Let_def b)
  show "fs_ctx (trigger_flush s) = fs_ctx s" by (simp add: trigger_flush_def b)
  show "fs_ctx (flusher_shutdown s) = fs_ctx s" by (simp add: flusher_shutdown_def c)
  show "fs_ctx (flight_failed pd cfg w fl e dlq s) = fs_ctx s" by (simp add: flight_failed_def Let_def split: option.split)
qed

lemma ctx_stays:
  assumes "fs_ctx s = Some e" "fstep pd cfg l s = Some s'"
  shows "fs_ctx s' = Some e"
  using assms(2)
proof (cases rule: fstep_cases)
  case advance
  then show ?thesis using assms(1) by (auto simp: flight_advance_def split: flush_stage.splits list.splits option.splits if_splits)
next
  case finish
  then show ?thesis using assms(1)
    by (auto simp: flight_finish_def Let_def split: flush_stage.splits list.splits option.splits if_splits prod.splits)
next
  case main_return
  then show ?thesis using assms(1) by (auto simp: main_flush_return_def Let_def split: flush_kind.splits if_splits)
qed (use assms(1) in \<open>auto simp: resume_with_def wake_tick_def wake_off_def split: if_splits main_pc.splits\<close>)

interpretation cancelled: invariant_of "fstep pd cfg" "\<lambda>l. True" "\<lambda>s. fs_ctx s = Some e" "\<lambda>s. fs_ctx s = Some e" for pd cfg e
  by unfold_locales (auto intro: ctx_stays)

text \<open>The runs of the flusher from its start.\<close>

definition flusher_run ::
  "duration_parser \<Rightarrow> pipeline_config \<Rightarrow> wm_files option \<Rightarrow> flabel list \<Rightarrow> fstate \<Rightarrow> bool" where
  "flusher_run pd cfg m ls s \<longleftrightarrow> run_steps (fstep pd cfg) ls (new_fstate m) = Some s"

lemma run_base: "flusher_run pd cfg m ls s \<Longrightarrow> base_inv pd cfg s"
  unfolding flusher_run_def by (erule any_run.inv_run) (simp_all add: base_inv_new list_all_iff)

lemma run_safe:
  assumes "flusher_run pd cfg m ls s" "list_all (safe_label cfg) ls"
  shows "safe_inv s" "once_inv s"
proof -
  have "base_inv pd cfg s \<and> safe_inv s \<and> once_inv s"
    using assms unfolding flusher_run_def by (elim safe_run.inv_run) (simp_all add: base_inv_new safe_inv_new once_new)
  then show "safe_inv s" "once_inv s" by blast+
qed

lemma run_first_try: "\<lbrakk>flusher_run pd cfg m ls s; list_all publishes ls\<rbrakk> \<Longrightarrow> first_try_inv s"
  unfolding flusher_run_def by (drule first_try_run.inv_run) (simp_all add: base_inv_new first_try_new)

lemma run_marks: "flusher_run pd cfg m ls s \<Longrightarrow> marks_inv m (skip_moves ls) s"
  unfolding flusher_run_def skip_moves_def using marks_run.hinv_run [OF _ marks_inv_new] by fastforce

lemma run_started: "flusher_run pd cfg m ls s \<Longrightarrow> started_items s \<subseteq> set (fs_accepted s)"
  using run_base by (auto simp: base_inv_def buffer_inv_def started_items_def)

lemma done_all_started:
  assumes "flusher_run pd cfg m ls s" "fs_main s = MDone ok"
  shows "concat (fs_started s) = fs_accepted s" "fs_flight s = None"
  using run_base [OF assms(1)] assms(2) by (auto simp: base_inv_def buffer_inv_def done_inv_def)


lemma run_watermarks:
  assumes run: "flusher_run pd cfg m ls s"
  shows "set (fs_advanced s) \<subseteq> set (fs_delivered s) \<union> set (fs_dead s)"
    "set (fs_delivered s) \<union> set (fs_dead s) \<subseteq> set (fs_accepted s)"
    "\<exists>mv \<in> shuffles (map item_move (fs_advanced s)) (skip_moves ls). fs_marks s = map_option (apply_moves mv) m"
    "list_all no_skip ls \<Longrightarrow> fs_marks s = map_option (mark_all (fs_advanced s)) m"
proof -
  have "delivery_inv s" using run_base [OF run] by (simp add: base_inv_def)
  then show "set (fs_advanced s) \<subseteq> set (fs_delivered s) \<union> set (fs_dead s)"
    "set (fs_delivered s) \<union> set (fs_dead s) \<subseteq> set (fs_accepted s)"
    using run_started [OF run] by (auto simp: delivery_inv_def known_def)
  show mv: "\<exists>mv \<in> shuffles (map item_move (fs_advanced s)) (skip_moves ls). fs_marks s = map_option (apply_moves mv) m"
    using run_marks [OF run] by (auto simp: marks_inv_def)
  have "apply_moves (map item_move items) = mark_all items" for items by (simp add: fun_eq_iff apply_item_moves)
  then show "fs_marks s = map_option (mark_all (fs_advanced s)) m" if "list_all no_skip ls"
    using mv no_skip_moves [OF that] by simp
qed

lemma first_try_result:
  assumes run: "flusher_run pd cfg m ls s" and "list_all publishes ls"
  shows "fs_accepted s = fs_delivered s @ unsent (fs_flight s) @ b_items (fs_active s) \<and> fs_dead s = [] \<and>
     \<not> hibernating (fs_pipe s) \<and> (fs_main s = MDone ok \<longrightarrow> fs_delivered s = fs_accepted s)"
proof -
  have "first_try_inv s" using run_first_try [OF run assms(2)] .
  moreover have "fs_accepted s = concat (fs_started s) @ b_items (fs_active s)"
    using run_base [OF run] by (simp add: base_inv_def buffer_inv_def)
  ultimately show ?thesis
    using done_all_started [OF run] by (auto simp: first_try_inv_def awake_def unsent_def)
qed

lemma safe_run_result:
  assumes run: "flusher_run pd cfg m ls s" and "list_all (safe_label cfg) ls" "fs_main s = MDone ok"
  shows "fs_advanced s = fs_accepted s \<and> set (fs_accepted s) = set (fs_delivered s) \<union> set (fs_dead s) \<and>
     (list_all no_skip ls \<longrightarrow> fs_marks s = map_option (mark_all (fs_accepted s)) m)"
proof -
  have "safe_inv s" using run_safe(1) [OF run assms(2)] .
  then have "fs_advanced s = fs_accepted s"
    using done_all_started [OF run assms(3)] by (simp add: safe_inv_def in_flight_def)
  then show ?thesis using run_watermarks [OF run] by auto
qed

text \<open>Each record was settled once.\<close>

lemma safe_run_once:
  assumes run: "flusher_run pd cfg m ls s" and "list_all (safe_label cfg) ls" "fs_main s = MDone ok"
  shows "fs_accepted s \<in> shuffles (fs_delivered s) (fs_dead s)"
  using run_safe(2) [OF run assms(2)] done_all_started [OF run assms(3)] by (simp add: once_inv_def unsent_def)

section \<open>Batches\<close>

text \<open>
  C13. In every run, whatever fails and however the goroutines interleave: the records accepted so far
  are the batches handed to flushes, one after the other, followed by the active buffer (no record is
  lost, duplicated or reordered between \<open>enqueue\<close> and \<open>flushItems\<close>); no batch is empty; and with a
  byte limit every batch and the buffer stay within it unless they are a single oversize record.
\<close>

theorem batches_partition_the_records:
  assumes "run_steps (fstep pd cfg) ls (new_fstate m) = Some s"
  shows "fs_accepted s = concat (fs_started s) @ b_items (fs_active s) \<and>
     (\<forall>b \<in> set (b_items (fs_active s) # fs_started s). fits (max_bytes_limit pd (publish_batch cfg)) b) \<and>
     [] \<notin> set (fs_started s) \<and> b_bytes (fs_active s) = batch_bytes (b_items (fs_active s))"
  using run_base [unfolded flusher_run_def, OF assms] by (auto simp: base_inv_def buffer_inv_def buf_ok_def)

theorem batches_partition_the_records_witness:
  "\<exists>s. run_steps (fstep minute_pd (ten_bytes ''hibernate'' True)) healthy_run (new_fstate (Some [])) = Some s \<and>
     fs_started s = [[rec_at 1], [rec_at 2]] \<and> b_items (fs_active s) = []"
proof -
  obtain s where s: "run_steps (fstep minute_pd (ten_bytes ''hibernate'' True)) healthy_run (new_fstate (Some [])) = Some s"
      "fs_accepted s = [rec_at 1, rec_at 2]" "fs_started s = [[rec_at 1], [rec_at 2]]"
    using healthy_run by blast
  from batches_partition_the_records [OF s(1)] s show ?thesis by (intro exI [of _ s]) simp
qed

text \<open>
  C15. In every run the threads of control agree with the flags they share.  No flush is ever started
  while another one of \<open>Run\<close> exists: the list \<open>fs_others\<close> of the flushes beside \<open>fs_flight\<close>, to which starting one
  too early would move the one that runs, stays empty; \<open>flushRunning\<close> is set exactly while an asynchronous
  or synchronous flush exists.  The goroutine of \<open>Run\<close> is in a synchronous flush or the final drain exactly
  when that flush is the one that exists.  No wake loop is ever started beside another (\<open>fs_extra_wakes\<close>
  counts them), and one exists exactly while \<open>hibernateWakeRunning\<close> is set; only a wake loop inside
  \<open>flushItems\<close> has a flush of its own.
\<close>

theorem threads_match_their_flags:
  assumes "run_steps (fstep pd cfg) ls (new_fstate m) = Some s"
  shows "fs_others s = [] \<and> fs_extra_wakes s = 0 \<and>
     (fs_running s \<longleftrightarrow> (\<exists>fl. fs_flight s = Some fl \<and> fl_kind fl \<in> {AsyncFlush, SyncFlush})) \<and>
     (fs_main s = MSyncFlush \<longleftrightarrow> (\<exists>fl. fs_flight s = Some fl \<and> fl_kind fl = SyncFlush)) \<and>
     (fs_main s = MDrain \<longleftrightarrow> (\<exists>fl. fs_flight s = Some fl \<and> fl_kind fl = DrainFlush)) \<and>
     (wake_running (fs_pipe s) \<longleftrightarrow> fs_wake s \<noteq> WakeOff) \<and>
     (fs_wake s = WakeFlushing \<longleftrightarrow> (\<exists>fl. fs_wake_flight s = Some fl \<and> fl_kind fl = WakeFlush))"
proof -
  have "main_inv s" "wake_inv s" using run_base [unfolded flusher_run_def, OF assms] by (simp_all add: base_inv_def)
  then show ?thesis by (cases "fs_flight s"; cases "fs_wake_flight s") (auto simp: main_inv_def wake_inv_def)
qed

theorem threads_match_their_flags_witness:
  "\<exists>s. run_steps (fstep minute_pd (ten_bytes ''hibernate'' True)) cancelled_run (new_fstate (Some [])) = Some s \<and>
     wake_running (fs_pipe s)"
proof -
  obtain s where s: "run_steps (fstep minute_pd (ten_bytes ''hibernate'' True)) cancelled_run (new_fstate (Some [])) = Some s"
      "fs_wake s = WakeSleep"
    using cancelled_run by blast
  from threads_match_their_flags [OF s(1)] s show ?thesis by (intro exI [of _ s]) simp
qed

section \<open>Watermarks\<close>

text \<open>
  C6. The watermark table in every run, whatever fails and however the goroutines interleave: it is the
  initial table moved by an interleaving of two sequences, the positions of records that a sink took or
  that were stored as dead letters, and the positions of the lines that were filtered or skipped.  So an
  entry is the initial one, or that of a record delivered or stored, or that of a filtered or skipped line;
  without such lines only the first two remain.  The theorem does not say that the records before an
  entry were delivered: \<open>hibernated_batch_is_lost\<close> and \<open>filtered_line_overtakes_buffered_record\<close> are runs in
  which one was not.
\<close>

theorem watermarks_follow_delivery:
  assumes "run_steps (fstep pd cfg) ls (new_fstate m) = Some s"
  shows "\<exists>flushed mv. set flushed \<subseteq> set (fs_delivered s) \<union> set (fs_dead s) \<and>
     set (fs_delivered s) \<union> set (fs_dead s) \<subseteq> set (fs_accepted s) \<and>
     mv \<in> shuffles (map item_move flushed) (skip_moves ls) \<and> fs_marks s = map_option (apply_moves mv) m \<and>
     (list_all no_skip ls \<longrightarrow> fs_marks s = map_option (mark_all flushed) m)"
proof -
  note w = run_watermarks [OF assms [folded flusher_run_def]]
  obtain mv where "mv \<in> shuffles (map item_move (fs_advanced s)) (skip_moves ls)" "fs_marks s = map_option (apply_moves mv) m"
    using w(3) by blast
  with w(1,2,4) show ?thesis by blast
qed

theorem watermarks_follow_delivery_witness:
  "\<exists>s mv flushed. run_steps (fstep minute_pd (ten_bytes ''dead_letter'' True)) skipping_run (new_fstate (Some [])) = Some s \<and>
     fs_marks s = Some (apply_moves mv []) \<and> set flushed \<subseteq> {rec_at 1, rec_at 2} \<and>
     mv \<in> shuffles (map item_move flushed) [(''/b'', \<lparr>w_offset = 9, w_inode = 8\<rparr>)]"
proof -
  obtain s where s: "run_steps (fstep minute_pd (ten_bytes ''dead_letter'' True)) skipping_run (new_fstate (Some [])) = Some s"
      "fs_dead s = [rec_at 1]" "fs_delivered s = [rec_at 2]"
    using skipping_run by blast
  from watermarks_follow_delivery [OF s(1)] obtain flushed mv where f: "set flushed \<subseteq> set (fs_delivered s) \<union> set (fs_dead s)"
      "mv \<in> shuffles (map item_move flushed) (skip_moves skipping_run)" "fs_marks s = map_option (apply_moves mv) (Some [])"
    by blast
  with s show ?thesis by (intro exI [of _ s] exI [of _ mv] exI [of _ flushed]) (auto simp: skipping_run_moves)
qed

section \<open>Runs that lose nothing\<close>

text \<open>
  C14. A run in which every publish succeeds, whatever the interleaving, delivers the accepted records
  exactly once and in order: at any time what was delivered, what is being published and what is
  buffered are the records accepted; no dead letter is written and the pipeline never hibernates; and
  when \<open>Run\<close> has returned nil, everything accepted was delivered.
\<close>

theorem healthy_sink_delivers_in_order:
  assumes "run_steps (fstep pd cfg) ls (new_fstate m) = Some s" "list_all publishes ls"
  shows "fs_accepted s = fs_delivered s @ unsent (fs_flight s) @ b_items (fs_active s) \<and> fs_dead s = [] \<and>
     \<not> hibernating (fs_pipe s) \<and> (fs_main s = MDone ok \<longrightarrow> fs_delivered s = fs_accepted s)"
  using first_try_result [OF assms(1) [folded flusher_run_def] assms(2)] by blast

theorem healthy_sink_delivers_in_order_witness:
  "\<exists>s. run_steps (fstep minute_pd (ten_bytes ''hibernate'' True)) healthy_run (new_fstate (Some [])) = Some s \<and>
     fs_delivered s = [rec_at 1, rec_at 2]"
proof -
  obtain s where s: "run_steps (fstep minute_pd (ten_bytes ''hibernate'' True)) healthy_run (new_fstate (Some [])) = Some s"
      "fs_main s = MDone ok" "fs_accepted s = [rec_at 1, rec_at 2]"
    using healthy_run by blast
  have "fs_delivered s = fs_accepted s"
    using healthy_sink_delivers_in_order [OF s(1) healthy_run_labels] s(2) by blast
  with s(1,3) show ?thesis by (intro exI [of _ s]) simp
qed

text \<open>
  C7. Dead-letter mode loses nothing: in a run in which publishes may fail any number of times but
  every dead letter and every watermark can be written, the watermarks have passed the batches in
  order, each record accepted at the time \<open>Run\<close> returns nil was delivered or stored, and its watermark
  has moved; without filtered lines the final table is the initial one moved past all accepted records.
\<close>

theorem dead_letter_mode_loses_nothing:
  assumes "run_steps (fstep pd cfg) ls (new_fstate m) = Some s" "list_all (safe_label cfg) ls" "fs_main s = MDone ok"
  shows "fs_advanced s = fs_accepted s \<and> set (fs_accepted s) = set (fs_delivered s) \<union> set (fs_dead s) \<and>
     (list_all no_skip ls \<longrightarrow> fs_marks s = map_option (mark_all (fs_accepted s)) m)"
  using safe_run_result [OF assms(1) [folded flusher_run_def] assms(2,3)] by blast

theorem dead_letter_mode_loses_nothing_witness:
  "\<exists>s. run_steps (fstep minute_pd (ten_bytes ''dead_letter'' True)) spill_run (new_fstate (Some [])) = Some s \<and>
     fs_advanced s = [rec_at 1, rec_at 2] \<and> fs_marks s = Some (mark_all [rec_at 1, rec_at 2] [])"
proof -
  obtain s where s: "run_steps (fstep minute_pd (ten_bytes ''dead_letter'' True)) spill_run (new_fstate (Some [])) = Some s"
      "fs_main s = MDone ok" "fs_accepted s = [rec_at 1, rec_at 2]"
    using spill_run by blast
  from dead_letter_mode_loses_nothing [OF s(1) spill_run_labels(1) s(2)] spill_run_labels(2) s show ?thesis by (intro exI [of _ s]) simp
qed

section \<open>Shutdown\<close>

lemma internal_run_bound:
  "\<lbrakk>base_inv pd cfg s; list_all internal_label ks; run_steps (fstep pd cfg) ks s = Some s'\<rbrakk>
     \<Longrightarrow> length ks + shutdown_bound s' \<le> shutdown_bound s"
proof (induction ks arbitrary: s)
  case (Cons k ks)
  then obtain s1 where s1: "fstep pd cfg k s = Some s1" "run_steps (fstep pd cfg) ks s1 = Some s'"
    by (auto split: option.splits)
  have "shutdown_bound s1 < shutdown_bound s"
    using bound_step [OF _ _ _ _ s1(1)] Cons.prems by (simp add: base_inv_def)
  moreover have "length ks + shutdown_bound s' \<le> shutdown_bound s1"
    using Cons.IH [OF base_inv_step [OF Cons.prems(1) s1(1)] _ s1(2)] Cons.prems(2) by simp
  ultimately show ?case by simp
qed simp

lemma shutdown_reached:
  "\<lbrakk>base_inv pd cfg s; fs_ctx s = Some e\<rbrakk> \<Longrightarrow>
     \<exists>ks s' r. list_all internal_label ks \<and> run_steps (fstep pd cfg) ks s = Some s' \<and> fs_main s' = MDone r"
proof (induction "shutdown_bound s" arbitrary: s rule: less_induct)
  case less
  show ?case
  proof (cases "\<exists>r. fs_main s = MDone r")
    case True
    then show ?thesis by (intro exI [of _ "[]"]) auto
  next
    case False
    then obtain l s1 where l: "internal_label l" "fstep pd cfg l s = Some s1"
      using cancelled_progress less.prems by (metis base_inv_def)
    have "shutdown_bound s1 < shutdown_bound s"
      using bound_step [OF _ _ _ l] less.prems(1) by (simp add: base_inv_def)
    moreover have "fs_ctx s1 = Some e" using ctx_stays less.prems(2) l(2) by blast
    ultimately obtain ks s' r where "list_all internal_label ks" "run_steps (fstep pd cfg) ks s1 = Some s'" "fs_main s' = MDone r"
      using less.hyps base_inv_step [OF less.prems(1) l(2)] by blast
    then show ?thesis using l by (intro exI [of _ "l # ks"]) auto
  qed
qed

text \<open>
  C8. The shutdown ends.  From any state of any run, at most \<open>shutdown_bound\<close> steps are possible
  that are not new input, a timer or its polling; once the context is cancelled, such a step is
  possible until \<open>Run\<close> has returned (no deadlock, even while the pipeline hibernates, a flush is being
  waited for or the flusher's mutex is held); so \<open>Run\<close> returns whatever the sink and the disk answer.
\<close>

theorem cancelled_run_returns:
  assumes "run_steps (fstep pd cfg) ls (new_fstate m) = Some s" "fs_ctx s = Some e"
  shows "(\<forall>ks s'. list_all internal_label ks \<and> run_steps (fstep pd cfg) ks s = Some s' \<longrightarrow>
       length ks \<le> shutdown_bound s \<and>
       ((\<exists>r. fs_main s' = MDone r) \<or> (\<exists>l s''. internal_label l \<and> fstep pd cfg l s' = Some s''))) \<and>
     (\<exists>ks s' r. list_all internal_label ks \<and> run_steps (fstep pd cfg) ks s = Some s' \<and> fs_main s' = MDone r)"
proof -
  have inv: "base_inv pd cfg s" using run_base [unfolded flusher_run_def, OF assms(1)] .
  have "(\<exists>r. fs_main s' = MDone r) \<or> (\<exists>l s''. internal_label l \<and> fstep pd cfg l s' = Some s'')"
    if "run_steps (fstep pd cfg) ks s = Some s'" for ks s'
  proof -
    have r: "reaches (fstep pd cfg) (\<lambda>l. True) s s'"
      using that by (rule run_reaches) (simp add: list_all_iff)
    have "base_inv pd cfg s'" using r inv by (rule any_run.inv_reaches)
    moreover have "fs_ctx s' = Some e" using r assms(2) by (rule cancelled.inv_reaches)
    ultimately show ?thesis using cancelled_progress by (metis base_inv_def)
  qed
  then show ?thesis using internal_run_bound [OF inv] shutdown_reached [OF inv assms(2)] by fastforce
qed

theorem cancelled_run_returns_witness:
  "\<exists>s. run_steps (fstep minute_pd (ten_bytes ''hibernate'' True)) cancelled_run (new_fstate (Some [])) = Some s \<and>
     fs_main s = MHibernate (rec_at 2) \<and> (\<exists>ks s' r. run_steps (fstep minute_pd (ten_bytes ''hibernate'' True)) ks s = Some s' \<and> fs_main s' = MDone r)"
proof -
  obtain s where s: "run_steps (fstep minute_pd (ten_bytes ''hibernate'' True)) cancelled_run (new_fstate (Some [])) = Some s"
      "fs_ctx s = Some (ErrText ''context canceled'')" "fs_main s = MHibernate (rec_at 2)"
    using cancelled_run by blast
  from cancelled_run_returns [OF s(1,2)] s show ?thesis by (intro exI [of _ s]) blast
qed

section \<open>Waking up\<close>

lemma wake_advances:
  "\<lbrakk>fs_wake_flight s = Some fl; fl_stage fl = Advancing items why\<rbrakk> \<Longrightarrow>
     run_steps (fstep pd cfg) (replicate (length items) (LAdvance WakeSlot None)) s =
       Some (s\<lparr>fs_marks := map_option (mark_all items) (fs_marks s), fs_advanced := fs_advanced s @ items,
               fs_wake_flight := Some (fl\<lparr>fl_stage := Advancing [] why\<rparr>)\<rparr>)"
proof (induction items arbitrary: s fl)
  case Nil
  then have "fl\<lparr>fl_stage := Advancing [] why\<rparr> = fl" by (cases fl) simp
  then show ?case using Nil by (cases s) (simp add: option.map_ident)
next
  case (Cons it items)
  let ?fl1 = "fl\<lparr>fl_stage := Advancing items why\<rparr>"
  let ?s1 = "s\<lparr>fs_marks := map_option (item_mark it) (fs_marks s), fs_advanced := fs_advanced s @ [it],
    fs_wake_flight := Some ?fl1\<rparr>"
  have "fstep pd cfg (LAdvance WakeSlot None) s = Some ?s1"
    using Cons.prems by (simp add: fstep_defs slot_defs flight_advance_def)
  moreover have "run_steps (fstep pd cfg) (replicate (length items) (LAdvance WakeSlot None)) ?s1 =
      Some (?s1\<lparr>fs_marks := map_option (mark_all items) (fs_marks ?s1), fs_advanced := fs_advanced ?s1 @ items,
        fs_wake_flight := Some (?fl1\<lparr>fl_stage := Advancing [] why\<rparr>)\<rparr>)"
    by (rule Cons.IH) simp_all
  ultimately show ?case by (simp add: option.map_comp comp_def)
qed

text \<open>
  C16. A hibernating pipeline with a wake loop heals itself: from any state in which the loop sleeps
  with a batch to retry, the next wake-up that the sink accepts delivers the whole batch, moves its
  watermarks, ends the hibernation, resets the dead-letter counter and lets the loop end.
\<close>

theorem wake_up_recovers_the_batch:
  assumes "fs_wake s = WakeSleep" "hibernating (fs_pipe s)" "hibernate_batch (fs_pipe s) = batch" "batch \<noteq> []"
  shows "\<exists>s'. run_steps (fstep pd cfg)
       ([LWakeTick, LPublished WakeSlot] @ replicate (length batch) (LAdvance WakeSlot None) @
        [LFinish WakeSlot, LFinish WakeSlot, LReturn WakeSlot, LWakeOff]) s = Some s' \<and>
     fs_delivered s' = fs_delivered s @ batch \<and> fs_marks s' = map_option (mark_all batch) (fs_marks s) \<and>
     \<not> hibernating (fs_pipe s') \<and> hibernate_batch (fs_pipe s') = [] \<and> consecutive_dlq (fs_pipe s') = 0 \<and>
     fs_wake s' = WakeOff \<and> fs_main s' = fs_main s \<and> fs_active s' = fs_active s"
proof -
  let ?fl = "\<lparr>fl_kind = WakeFlush, fl_batch = batch, fl_stage = Advancing batch None\<rparr>"
  let ?s1 = "s\<lparr>fs_wake := WakeFlushing, fs_delivered := fs_delivered s @ batch, fs_wake_flight := Some ?fl\<rparr>"
  have 1: "run_steps (fstep pd cfg) [LWakeTick, LPublished WakeSlot] s = Some ?s1"
    using assms by (simp add: fstep_defs slot_defs wake_tick_def flight_published_def)
  have 2: "run_steps (fstep pd cfg) (replicate (length batch) (LAdvance WakeSlot None)) ?s1 =
      Some (?s1\<lparr>fs_marks := map_option (mark_all batch) (fs_marks s), fs_advanced := fs_advanced s @ batch,
        fs_wake_flight := Some (?fl\<lparr>fl_stage := Advancing [] None\<rparr>)\<rparr>)"
    using wake_advances [of ?s1 ?fl batch None] by simp
  show ?thesis
    using assms by (simp only: run_steps_append 1 2 Option.bind.simps)
      (simp add: fstep_defs slot_defs flight_finish_def wake_flush_return_def wake_off_def exit_hibernate_def
        reset_consecutive_dlq_def)
qed

theorem wake_up_recovers_the_batch_witness:
  "\<exists>s. run_steps (fstep minute_pd (ten_bytes ''hibernate'' True)) cancelled_run (new_fstate (Some [])) = Some s \<and>
     (\<exists>ks s'. run_steps (fstep minute_pd (ten_bytes ''hibernate'' True)) ks s = Some s' \<and> \<not> hibernating (fs_pipe s') \<and>
       fs_marks s' = Some (mark_all [rec_at 1] []))"
proof -
  obtain s where s: "run_steps (fstep minute_pd (ten_bytes ''hibernate'' True)) cancelled_run (new_fstate (Some [])) = Some s"
      "fs_wake s = WakeSleep" "hibernating (fs_pipe s)" "hibernate_batch (fs_pipe s) = [rec_at 1]" "fs_marks s = Some []"
    using cancelled_run by blast
  have "\<exists>ks s'. run_steps (fstep minute_pd (ten_bytes ''hibernate'' True)) ks s = Some s' \<and>
      \<not> hibernating (fs_pipe s') \<and> fs_marks s' = map_option (mark_all [rec_at 1]) (fs_marks s)"
    using wake_up_recovers_the_batch [OF s(2-4)] by blast
  with s(1,5) show ?thesis by (intro exI [of _ s]) (simp only: option.map simp_thms)
qed

end
