(* ===== verification/BatchPipeline.thy ===== *)
theory BatchPipeline
  imports Pipeline FlusherProps
begin

text \<open>
  The pipeline with batching: what \<open>process\<close> makes of a record is a step of the flusher, so a run of
  the pipeline is a run of the flusher whose input steps come from the records of the parser.  Here
  parser, stages and flusher are put together.
\<close>

section \<open>Records as steps of the flusher\<close>

text \<open>\<open>process\<close> ends in \<open>enqueuePublish\<close>, in \<open>Set\<close>, or in an error.\<close>

definition label_of :: "('l, 't) stage_env \<Rightarrow> 'l pipeline \<Rightarrow> event \<Rightarrow> flabel" where
  "label_of env p ev = (case run_stages env p ev of
      Passed payload truncated \<Rightarrow> LRecord (pending_of ev payload)
    | Skipped \<Rightarrow> LSkip (ev_path ev) (ev_offset ev) (ev_inode ev) None
    | Filtered \<Rightarrow> LSkip (ev_path ev) (ev_offset ev) (ev_inode ev) None
    | Refused e \<Rightarrow> LError e)"

text \<open>The input steps of a run, whatever \<open>Set\<close> answers for a skipped line.\<close>

definition input_of :: "flabel \<Rightarrow> flabel list" where
  "input_of l = (case l of
      LRecord it \<Rightarrow> [LRecord it] | LSkip pa off ino perr \<Rightarrow> [LSkip pa off ino None] | LError e \<Rightarrow> [LError e] | _ \<Rightarrow> [])"

definition inputs_of :: "flabel list \<Rightarrow> flabel list" where
  "inputs_of ls = concat (map input_of ls)"

lemma inputs_of_simps [simp]: "inputs_of [] = []" "inputs_of (l # ls) = input_of l @ inputs_of ls"
  by (simp_all add: inputs_of_def)

definition record_of :: "flabel \<Rightarrow> pending list" where
  "record_of l = (case l of LRecord it \<Rightarrow> [it] | _ \<Rightarrow> [])"

definition records_of :: "flabel list \<Rightarrow> pending list" where
  "records_of ls = concat (map record_of ls)"

lemma records_of_simps [simp]: "records_of [] = []" "records_of (l # ls) = record_of l @ records_of ls"
  by (simp_all add: records_of_def)

lemma record_of_input: "records_of (input_of l) = record_of l"
  by (cases l) (simp_all add: input_of_def record_of_def)

lemma records_of_append [simp]: "records_of (ls @ ks) = records_of ls @ records_of ks"
  by (simp add: records_of_def)

lemma records_of_inputs: "records_of (inputs_of ls) = records_of ls"
  by (induction ls) (simp_all add: record_of_input)

lemma skip_moves_inputs: "skip_moves (inputs_of ls) = skip_moves ls"
  by (induction ls) (auto simp: skip_moves_def skip_move_def input_of_def split: flabel.splits)

section \<open>A run without error accepts every record\<close>

text \<open>The record the goroutine of \<open>Run\<close> has in hand.\<close>

definition in_hand :: "main_pc \<Rightarrow> pending list" where
  "in_hand m = (case m of
      MEnqueue it \<Rightarrow> [it] | MHibernate it \<Rightarrow> [it]
    | MSwapWait k \<Rightarrow> (case k of ThenEnqueue it \<Rightarrow> [it] | ThenAppendAlone it \<Rightarrow> [it] | ThenReturn \<Rightarrow> [])
    | MSwapped k \<Rightarrow> (case k of ThenEnqueue it \<Rightarrow> [it] | ThenAppendAlone it \<Rightarrow> [it] | ThenReturn \<Rightarrow> [])
    | _ \<Rightarrow> [])"

definition exit_failed :: "fstate \<Rightarrow> bool" where
  "exit_failed s = (case fs_exit s of Some (Inl e) \<Rightarrow> True | _ \<Rightarrow> False)"

definition run_failed :: "fstate \<Rightarrow> bool" where
  "run_failed s \<longleftrightarrow> exit_failed s \<or> (case fs_main s of MDone (Inl e) \<Rightarrow> True | _ \<Rightarrow> False)"

definition shutting_pc :: "main_pc \<Rightarrow> bool" where
  "shutting_pc m = (case m of MSyncWait \<Rightarrow> True | MSyncFlush \<Rightarrow> True | MDrain \<Rightarrow> True | MDone r \<Rightarrow> True | _ \<Rightarrow> False)"

definition accepts_inv :: "pending list \<Rightarrow> fstate \<Rightarrow> bool" where
  "accepts_inv offered s \<longleftrightarrow> (fs_shutting s \<longrightarrow> shutting_pc (fs_main s)) \<and>
     (exit_failed s \<longrightarrow> fs_main s \<noteq> MDone ok) \<and>
     (run_failed s \<or> offered = fs_accepted s @ in_hand (fs_main s))"

lemma accepts_new: "accepts_inv [] (new_fstate m)"
  by (simp add: accepts_inv_def new_fstate_def in_hand_def)

lemma pc_simps [simp]:
  "in_hand MRun = []" "in_hand (MEnqueue it) = [it]" "in_hand (MHibernate it) = [it]" "in_hand MAloneWait = []"
  "in_hand (MSwapWait (ThenEnqueue it)) = [it]" "in_hand (MSwapWait (ThenAppendAlone it)) = [it]" "in_hand (MSwapWait ThenReturn) = []"
  "in_hand (MSwapped (ThenEnqueue it)) = [it]" "in_hand (MSwapped (ThenAppendAlone it)) = [it]" "in_hand (MSwapped ThenReturn) = []"
  "\<not> shutting_pc (MSwapped k)"
  "in_hand MSyncWait = []" "in_hand MSyncFlush = []" "in_hand MDrain = []" "in_hand (MDone r) = []"
  "\<not> shutting_pc MRun" "\<not> shutting_pc (MEnqueue it)" "\<not> shutting_pc (MHibernate it)" "\<not> shutting_pc (MSwapWait k)"
  "\<not> shutting_pc MAloneWait" "shutting_pc MSyncWait" "shutting_pc MSyncFlush" "shutting_pc MDrain" "shutting_pc (MDone r)"
  by (simp_all add: in_hand_def shutting_pc_def)

text \<open>Ending a call, with or without an error.\<close>

lemma not_ok_error: "r \<noteq> ok \<Longrightarrow> \<exists>e. r = Inl e"
  by (cases r) auto

lemma exit_failed_result: "exit_failed s \<or> r \<noteq> ok \<Longrightarrow> \<exists>e. exit_result (case fs_exit s of None \<Rightarrow> ok | Some r0 \<Rightarrow> r0) r = Inl e"
  using not_ok_error [of r] by (auto simp: exit_failed_def exit_result_def dest: not_ok_error split: option.splits sum.splits)

lemma exit_failed_main [simp]: "exit_failed (s\<lparr>fs_main := mm\<rparr>) = exit_failed s"
  by (simp add: exit_failed_def)

lemma accepts_leave:
  assumes "r \<noteq> ok \<or> exit_failed s \<or> offered = fs_accepted s"
  shows "accepts_inv offered (leave_with r s)"
  using assms exit_failed_result [of s r] by (auto simp: accepts_inv_def leave_with_def run_failed_def)

lemma accepts_goto:
  assumes "\<not> fs_shutting s \<or> shutting_pc m" "exit_failed s \<or> offered = fs_accepted s @ in_hand m" "m \<noteq> MDone ok"
  shows "accepts_inv offered (s\<lparr>fs_main := m\<rparr>)"
  using assms by (auto simp: accepts_inv_def run_failed_def exit_failed_def)

lemma accepts_finish:
  assumes "\<not> fs_shutting s" "r \<noteq> ok \<or> exit_failed s \<or> offered = fs_accepted s"
  shows "accepts_inv offered (finish_record r s)"
proof (cases "r = ok")
  case True
  then show ?thesis using assms by (simp add: finish_record_def accepts_goto)
next
  case False
  then show ?thesis
    using assms accepts_leave [of r s offered]
    by (cases r) (auto simp: finish_record_def accepts_inv_def run_failed_def exit_failed_def split: option.splits)
qed

lemma failed_frames [simp]:
  "exit_failed (accept it s) = exit_failed s" "exit_failed (start_flush kind s) = exit_failed s"
  "exit_failed (report r s) = exit_failed s" "exit_failed (s\<lparr>fs_flight := f\<rparr>) = exit_failed s" "exit_failed (s\<lparr>fs_shutting := b\<rparr>) = exit_failed s"
  "exit_failed (s\<lparr>fs_marks := mm\<rparr>) = exit_failed s"
  "fs_accepted (start_flush kind s) = fs_accepted s" "exit_failed (launch fl s) = exit_failed s" "fs_accepted (launch fl s) = fs_accepted s"
  "fs_accepted (accept it s) = fs_accepted s @ [it]" "fs_accepted (report r s) = fs_accepted s"
  "fs_shutting (accept it s) = fs_shutting s" "fs_shutting (start_flush kind s) = fs_shutting s"
  "fs_shutting (launch fl s) = fs_shutting s" "fs_shutting (report r s) = fs_shutting s"
  by (auto simp: exit_failed_def accept_def start_flush_def launch_def report_def buf_drain_def)

lemma accepts_swapping:
  assumes "\<not> fs_shutting s" "exit_failed s \<or> offered = fs_accepted s @ in_hand (MSwapWait k)"
  shows "accepts_inv offered (after_swapping k s)" "accepts_inv offered (swap_and_start k s)" "accepts_inv offered (swap_now k s)"
proof -
  have a: "accepts_inv offered (after_swapping k s)"
    if "\<not> fs_shutting s" "exit_failed s \<or> offered = fs_accepted s @ in_hand (MSwapWait k)" for s
    using that by (cases k) (auto simp: after_swapping_def Let_def intro!: accepts_finish accepts_goto)
  have hand: "in_hand (MSwapped k) = in_hand (MSwapWait k)" by (cases k) simp_all
  show "accepts_inv offered (after_swapping k s)" using a assms .
  show b: "accepts_inv offered (swap_now k s)"
    using assms a hand by (auto simp: swap_now_def intro!: accepts_goto)
  show "accepts_inv offered (swap_and_start k s)"
    using assms b by (auto simp: swap_and_start_def intro: accepts_goto)
qed

lemma accepts_enqueue:
  assumes "\<not> fs_shutting s" "exit_failed s \<or> offered = fs_accepted s @ [it]"
  shows "accepts_inv offered (enqueue_turn mx it s)"
  using assms by (auto simp: enqueue_turn_def Let_def intro!: accepts_swapping(2) accepts_goto accepts_finish)

lemma accepts_drain:
  assumes "exit_failed s \<or> offered = fs_accepted s"
  shows "accepts_inv offered (drain_now s)"
proof -
  have "accepts_inv offered ((launch fl s)\<lparr>fs_main := MDrain\<rparr>)" for fl
    using assms by (intro accepts_goto) simp_all
  moreover have "accepts_inv offered (leave_with ok s)" using assms by (intro accepts_leave) simp
  ultimately show ?thesis by (simp add: drain_now_def)
qed

lemma accepts_sync: "exit_failed s \<or> offered = fs_accepted s \<Longrightarrow> accepts_inv offered (sync_turn s)"
  by (auto simp: sync_turn_def accepts_drain split: option.split intro!: accepts_goto accepts_leave)

lemma accepts_not_done:
  "\<lbrakk>accepts_inv offered s; \<And>r. fs_main s \<noteq> MDone r\<rbrakk> \<Longrightarrow> exit_failed s \<or> offered = fs_accepted s @ in_hand (fs_main s)"
  by (auto simp: accepts_inv_def run_failed_def split: main_pc.splits)

lemma accepts_not_shutting: "\<lbrakk>accepts_inv offered s; \<not> shutting_pc (fs_main s)\<rbrakk> \<Longrightarrow> \<not> fs_shutting s"
  by (auto simp: accepts_inv_def)

text \<open>Steps that leave the goroutine of \<open>Run\<close> where it is.\<close>

lemma accepts_cong:
  "\<lbrakk>accepts_inv offered s; fs_main s' = fs_main s; fs_exit s' = fs_exit s; fs_accepted s' = fs_accepted s;
     fs_shutting s' = fs_shutting s\<rbrakk> \<Longrightarrow> accepts_inv offered s'"
  by (simp add: accepts_inv_def run_failed_def exit_failed_def)

lemma accepts_resume:
  assumes "accepts_inv offered s" "resume_with r s = Some s'"
  shows "accepts_inv offered s'"
proof -
  have "fs_main s \<noteq> MDone x" for x using assms(2) by (auto simp: resume_with_def)
  then have nd: "exit_failed s \<or> offered = fs_accepted s @ in_hand (fs_main s)"
    using accepts_not_done [OF assms(1)] by blast
  have ns: "\<not> fs_shutting s" if "\<not> shutting_pc (fs_main s)" using accepts_not_shutting assms(1) that .
  show ?thesis
    using assms(2) nd ns
    by (auto simp: resume_with_def intro!: accepts_finish accepts_swapping(3) accepts_sync accepts_leave split: main_pc.splits if_splits)
qed

lemma slot_frames [simp]:
  "fs_exit (put_flight w f s) = fs_exit s"
  "fs_accepted (put_flight w f s) = fs_accepted s" "fs_shutting (put_flight w f s) = fs_shutting s"
  "fs_exit (hibernate_now pd cfg e batch s) = fs_exit s"
  "fs_accepted (hibernate_now pd cfg e batch s) = fs_accepted s" "fs_shutting (hibernate_now pd cfg e batch s) = fs_shutting s"
  by (auto simp: put_flight_def hibernate_now_def Let_def split: flush_slot.split prod.split)

lemma accepts_step:
  assumes inv: "accepts_inv offered s" and main: "main_inv s" and step: "fstep pd cfg l s = Some s'"
  shows "accepts_inv (offered @ record_of l) s'"
proof -
  have run: "fs_main s = MRun \<Longrightarrow> \<not> fs_shutting s \<and> (exit_failed s \<or> offered = fs_accepted s)"
    using accepts_not_done [OF inv] accepts_not_shutting [OF inv] by auto
  have own: "\<lbrakk>fs_main s = m; \<And>r. m \<noteq> MDone r\<rbrakk> \<Longrightarrow> exit_failed s \<or> offered = fs_accepted s @ in_hand m" for m
    using accepts_not_done [OF inv] by auto
  from step show ?thesis
  proof (cases rule: fstep_cases)
    case (accepted it)
    then show ?thesis using run by (auto simp: record_of_def intro!: accepts_goto)
  next
    case (skip p off ino perr)
    then show ?thesis using run by (auto simp: record_of_def skip_line_def intro!: accepts_finish)
  next
    case (error e)
    then show ?thesis using run by (auto simp: record_of_def intro!: accepts_finish)
  next
    case tick
    then show ?thesis
      using run inv by (auto simp: record_of_def trigger_flush_def intro!: accepts_swapping(2))
  next
    case stop
    then show ?thesis using run by (auto simp: record_of_def accepts_inv_def run_failed_def exit_failed_def)
  next
    case (shut r)
    then show ?thesis using run by (auto simp: record_of_def flusher_shutdown_def intro!: accepts_sync)
  next
    case (enqueue it)
    then show ?thesis
      using own [of "MEnqueue it"] accepts_not_shutting [OF inv] by (auto simp: record_of_def intro!: accepts_enqueue)
  next
    case (poll it)
    then show ?thesis
      using own [of "MHibernate it"] accepts_not_shutting [OF inv] inv by (auto simp: record_of_def intro!: accepts_goto)
  next
    case (poll_ctx it e)
    then show ?thesis using accepts_not_shutting [OF inv] by (auto simp: record_of_def intro!: accepts_finish)
  next
    case resume
    then show ?thesis using accepts_resume [OF inv] by (simp add: record_of_def)
  next
    case (resume_ctx e)
    then show ?thesis using accepts_resume [OF inv] by (simp add: record_of_def)
  next
    case (relock k)
    have "in_hand (MSwapped k) = in_hand (MSwapWait k)" by (cases k) simp_all
    then show ?thesis
      using relock own [of "MSwapped k"] accepts_not_shutting [OF inv] by (auto simp: record_of_def intro!: accepts_swapping(1))
  next
    case (failed w fl e dlq)
    then show ?thesis
      by (auto simp: record_of_def flight_failed_def to_stage_def Let_def intro!: accepts_cong [OF inv] split: option.split)
  next
    case (advance w fl perr)
    then show ?thesis
      by (auto simp: record_of_def flight_advance_def to_stage_def intro!: accepts_cong [OF inv]
          split: flush_stage.splits list.splits option.splits if_splits)
  next
    case (finish w fl)
    then show ?thesis
      by (auto simp: record_of_def flight_finish_def to_stage_def Let_def intro!: accepts_cong [OF inv]
          split: flush_stage.splits list.splits option.splits if_splits prod.splits)
  next
    case (main_return fl r)
    show ?thesis
    proof (cases "fl_kind fl")
      case AsyncFlush
      then show ?thesis
        using main_return by (auto simp: record_of_def main_flush_return_def report_def intro!: accepts_cong [OF inv] split: if_splits)
    next
      case SyncFlush
      then have "fs_main s = MSyncFlush" using main main_return(2) by (simp add: main_inv_def)
      then show ?thesis
        using own [of MSyncFlush] main_return(1,4) SyncFlush
        by (auto simp: record_of_def main_flush_return_def Let_def intro!: accepts_sync accepts_leave)
    next
      case DrainFlush
      then have "fs_main s = MDrain" using main main_return(2) by (simp add: main_inv_def)
      then show ?thesis
        using own [of MDrain] main_return(1,4) DrainFlush
        by (auto simp: record_of_def main_flush_return_def intro!: accepts_leave)
    next
      case WakeFlush
      then show ?thesis using main_return(4) by (simp add: main_flush_return_def)
    qed
  next
    case (wake_tick)
    then show ?thesis
      by (auto simp: record_of_def wake_tick_def intro!: accepts_cong [OF inv] split: if_splits)
  next
    case (wake_off)
    then show ?thesis
      by (auto simp: record_of_def wake_off_def intro!: accepts_cong [OF inv] split: if_splits)
  qed (auto simp: record_of_def flight_published_def to_stage_def wake_flush_return_def intro!: accepts_cong [OF inv])
qed

interpretation accepts_run: history_invariant "fstep pd cfg" record_of "\<lambda>offered s. base_inv pd cfg s \<and> accepts_inv offered s"
  for pd cfg
  by unfold_locales (auto intro: base_inv_step accepts_step base_main)

lemma run_accepts:
  "\<lbrakk>run_steps (fstep pd cfg) ls s = Some s'; base_inv pd cfg s; accepts_inv offered s\<rbrakk> \<Longrightarrow> accepts_inv (offered @ records_of ls) s'"
  unfolding records_of_def using accepts_run.hinv_run by blast

lemma done_accepts: "\<lbrakk>accepts_inv offered s; fs_main s = MDone ok\<rbrakk> \<Longrightarrow> offered = fs_accepted s"
  by (auto simp: accepts_inv_def run_failed_def)

text \<open>After an error of the input the records offered no longer matter, so the run cannot end well.\<close>

lemma error_input_fails:
  assumes "base_inv pd cfg s" "accepts_inv offered s" "fstep pd cfg (LError e) s = Some s1"
    "run_steps (fstep pd cfg) ls s1 = Some s'"
  shows "fs_main s' \<noteq> MDone ok"
proof
  assume d: "fs_main s' = MDone ok"
  have s: "fs_main s = MRun" "s1 = finish_record (Inl e) s" using assms(3) by (auto simp: fstep_defs split: if_splits)
  have ns: "\<not> fs_shutting s" using accepts_not_shutting [OF assms(2)] s(1) by simp
  have any: "accepts_inv xs s1" for xs using accepts_finish [OF ns, of "Inl e" xs] s(2) by simp
  have "base_inv pd cfg s1" using base_inv_step assms(1,3) by blast
  from run_accepts [OF assms(4) this any] d have "xs @ records_of ls = fs_accepted s'" for xs
    using done_accepts by blast
  from this [of "[]"] this [of "[undefined]"] show False by simp
qed

lemma done_run_inputs:
  assumes "run_steps (fstep pd cfg) ls (new_fstate m) = Some s" "fs_main s = MDone ok"
  shows "fs_accepted s = records_of ls" "LError e \<notin> set ls"
proof -
  show "fs_accepted s = records_of ls"
    using done_accepts [OF run_accepts [OF assms(1) base_inv_new accepts_new]] assms(2) by simp
  show "LError e \<notin> set ls"
  proof
    assume "LError e \<in> set ls"
    then obtain l1 l2 where ls: "ls = l1 @ LError e # l2" by (meson split_list)
    then obtain s1 s2 where s: "run_steps (fstep pd cfg) l1 (new_fstate m) = Some s1" "fstep pd cfg (LError e) s1 = Some s2"
        "run_steps (fstep pd cfg) l2 s2 = Some s"
      using assms(1) by (auto simp: run_steps_append bind_eq_Some_conv split: option.splits)
    have "base_inv pd cfg s1" using run_base s(1) by (simp add: flusher_run_def)
    from error_input_fails [OF this run_accepts [OF s(1) base_inv_new accepts_new] s(2,3)] assms(2) show False by simp
  qed
qed

section \<open>Parser, stages and flusher together\<close>

text \<open>The records that are published, with their payloads.\<close>

definition publishable :: "('l, 't) stage_env \<Rightarrow> 'l pipeline \<Rightarrow> event list \<Rightarrow> pending list" where
  "publishable env p evs = records_of (map (label_of env p) evs)"

text \<open>The positions of the records that are skipped or filtered.\<close>

definition passed_over :: "('l, 't) stage_env \<Rightarrow> 'l pipeline \<Rightarrow> event list \<Rightarrow> (string \<times> wm_entry) list" where
  "passed_over env p evs = skip_moves (map (label_of env p) evs)"

text \<open>
  \<open>ls\<close> is a run of the pipeline on \<open>ins\<close>: its input steps are what \<open>process\<close> makes of the records of
  the parser, in the parser's order; the other steps are those of the flusher in any interleaving.
\<close>

definition pipeline_run ::
  "('l, 't) stage_env \<Rightarrow> duration_parser \<Rightarrow> 'l pipeline \<Rightarrow> string list \<Rightarrow> run_input list \<Rightarrow> wm_files option \<Rightarrow> flabel list \<Rightarrow>
     fstate \<Rightarrow> bool" where
  "pipeline_run env pd p order ins m ls s \<longleftrightarrow>
     run_steps (fstep pd (cfg_pipeline (pl_cfg p))) ls (new_fstate m) = Some s \<and>
     inputs_of ls = map (label_of env p) (parser_run (parser_feed (pl_parser p)) (parser_flush (pl_parser p)) order ins parser_init)"

lemma done_pipeline_run:
  assumes "pipeline_run env pd p order ins m ls s" "fs_main s = MDone ok"
    "flushes_visit_all (parser_feed (pl_parser p)) (parser_flush (pl_parser p)) (bp_visited (pl_parser p)) order ins parser_init"
  obtains evs where "\<And>path. cuts path (of_path path (lines_of ins)) evs []"
    "\<And>ev e. ev \<in> set evs \<Longrightarrow> run_stages env p ev \<noteq> Refused e" "fs_accepted s = publishable env p evs"
    "skip_moves ls = passed_over env p evs"
proof -
  let ?evs = "parser_run (parser_feed (pl_parser p)) (parser_flush (pl_parser p)) order ins parser_init"
  have run: "run_steps (fstep pd (cfg_pipeline (pl_cfg p))) ls (new_fstate m) = Some s"
    and ins: "inputs_of ls = map (label_of env p) ?evs" using assms(1) by (simp_all add: pipeline_run_def)
  have c: "cuts path (of_path path (lines_of ins)) ?evs []" for path
    using bp.parser_run_cuts [OF bp_rep_init assms(3), of path] by simp
  have "LError e \<in> set (inputs_of ls) \<longleftrightarrow> LError e \<in> set ls" for e
    by (induction ls) (auto simp: input_of_def split: flabel.splits)
  then have ne: "LError e \<notin> label_of env p ` set ?evs" for e
    using done_run_inputs(2) [OF run assms(2)] ins by (metis image_set)
  have r: "run_stages env p ev \<noteq> Refused e" if "ev \<in> set ?evs" for ev e
  proof
    assume "run_stages env p ev = Refused e"
    then have "label_of env p ev = LError e" by (simp add: label_of_def)
    then show False using ne [of e] that by force
  qed
  have "fs_accepted s = publishable env p ?evs"
    using done_run_inputs(1) [OF run assms(2)] records_of_inputs [of ls] ins by (simp add: publishable_def)
  moreover have "skip_moves ls = passed_over env p ?evs" using skip_moves_inputs [of ls] ins by (simp add: passed_over_def)
  ultimately show ?thesis using that c r by blast
qed

text \<open>A pipeline that flushes by time only, and one record through it.\<close>

definition timed_config :: "string \<Rightarrow> config" where
  "timed_config policy = (default_config [])\<lparr>cfg_pipeline := (ten_bytes policy False)
     \<lparr>publish_batch := (publish_batch (ten_bytes policy False))\<lparr>pb_max_bytes := 0, pb_flush_interval := ''1m''\<rparr>,
      max_publish_bytes := 0\<rparr>\<rparr>"

definition timed_pipeline :: "string \<Rightarrow> unit pipeline" where
  "timed_pipeline policy = (text_pipeline LineParser)\<lparr>pl_cfg := timed_config policy, pl_batch_enabled := True\<rparr>"

lemma timed_simps [simp]:
  "pl_cfg (timed_pipeline policy) = timed_config policy" "pl_parser (timed_pipeline policy) = LineParser"
  "max_bytes_limit pd (publish_batch (cfg_pipeline (timed_config policy))) = 0"
  "on_flush_failure_or_default (publish_batch (cfg_pipeline (timed_config ''dead_letter''))) = ''dead_letter''"
  "hib_wake_enabled (pb_hibernate (publish_batch (cfg_pipeline (timed_config policy)))) = False"
  "max_consecutive_batches_or_default (pb_dead_letter (publish_batch (cfg_pipeline (timed_config policy)))) = 1"
  by (simp_all add: timed_pipeline_def text_pipeline_def timed_config_def ten_bytes_def max_bytes_limit_def
      size_trigger_enabled_def on_flush_failure_or_default_def max_consecutive_batches_or_default_def)

lemma timed_stages: "\<exists>pl. run_stages (re_stages text_env) (timed_pipeline policy) (text_event s n) = Passed pl False"
proof -
  have "\<exists>pl. json_marshal (gm_put [(''message'', VStr s)] ''_path'' (VStr ''/a'')) = Inr pl"
    by (simp add: json_marshal_supported supported_def)
  then show ?thesis
    by (auto simp: run_stages_def finish_stages_def text_env_def timed_pipeline_def text_pipeline_def text_event_def transform_line_def
        normalize_def apply_chain_def marshal_publish_payload_def timed_config_def Let_def)
qed

definition timed_run :: "flabel list \<Rightarrow> pending \<Rightarrow> flabel list" where
  "timed_run answers it = [LRecord it, LEnqueue, LStop, LShut] @ answers @ [LAdvance MainSlot None, LFinish MainSlot, LFinish MainSlot, LReturn MainSlot]"

lemma timed_runs:
  "\<exists>s. run_steps (fstep minute_pd (cfg_pipeline (timed_config policy))) (timed_run [LPublished MainSlot] it) (new_fstate m) = Some s \<and>
     fs_main s = MDone ok"
  "\<exists>s. run_steps (fstep minute_pd (cfg_pipeline (timed_config ''dead_letter'')))
       (timed_run [LFailed MainSlot (ErrText ''down'') None] it) (new_fstate m) = Some s \<and> fs_main s = MDone ok"
  unfolding timed_run_def by (simp_all add: run_eval split: option.split)

lemma timed_pipeline_run:
  "\<exists>it. \<forall>answers s m. inputs_of answers = [] \<longrightarrow>
     run_steps (fstep minute_pd (cfg_pipeline (timed_config policy))) (timed_run answers it) (new_fstate m) = Some s \<longrightarrow>
     pipeline_run (re_stages text_env) minute_pd (timed_pipeline policy) [] [InLine (text_line ''x'' 2)] m (timed_run answers it) s"
proof -
  obtain pl where pl: "run_stages (re_stages text_env) (timed_pipeline policy) (text_event ''x'' 2) = Passed pl False"
    using timed_stages by blast
  have "inputs_of (xs @ ys) = inputs_of xs @ inputs_of ys" for xs ys by (simp add: inputs_of_def)
  moreover have "label_of (re_stages text_env) (timed_pipeline policy) (text_event ''x'' 2) = LRecord (pending_of (text_event ''x'' 2) pl)"
    using pl by (simp add: label_of_def)
  ultimately show ?thesis
    by (intro exI [of _ "pending_of (text_event ''x'' 2) pl"])
      (simp add: pipeline_run_def parser_feed_def line_feed_def parser_flush_def line_flush_def timed_run_def input_of_def)
qed

text \<open>
  C1.
  With batching, every line is accounted for, end to end and in every interleaving, on two conditions:
  \<open>Run\<close> returned nil (\<open>MDone ok\<close>), and what happened during the run was \<open>safe_label\<close>: publishes may fail any
  number of times, but only with \<open>on_flush_failure: dead_letter\<close>, and every dead letter and every
  watermark could be written.  Then the lines of every file were cut into consecutive records and no
  record was refused; the records that were not skipped or filtered were each delivered or stored as a
  dead letter, exactly once and each kind in order; and the final watermark table is the initial one
  moved by the positions of these records and of the skipped and filtered ones, both in order.  Without
  the conditions it is false: \<open>async_flush_error_is_swallowed\<close> and \<open>hibernated_batch_is_lost\<close> are runs that
  return nil and lose a record.
\<close>

theorem batched_lines_are_accounted_for:
  assumes "pipeline_run env pd p order ins m ls s" "fs_main s = MDone ok"
    "list_all (safe_label (cfg_pipeline (pl_cfg p))) ls"
    "flushes_visit_all (parser_feed (pl_parser p)) (parser_flush (pl_parser p)) (bp_visited (pl_parser p)) order ins parser_init"
  shows "\<exists>evs mv. (\<forall>path. cuts path (of_path path (lines_of ins)) evs []) \<and>
     (\<forall>ev \<in> set evs. \<forall>e. run_stages env p ev \<noteq> Refused e) \<and>
     publishable env p evs \<in> shuffles (fs_delivered s) (fs_dead s) \<and>
     mv \<in> shuffles (map item_move (publishable env p evs)) (passed_over env p evs) \<and>
     fs_marks s = map_option (apply_moves mv) m"
proof -
  obtain evs where evs: "\<And>path. cuts path (of_path path (lines_of ins)) evs []"
    "\<And>ev e. ev \<in> set evs \<Longrightarrow> run_stages env p ev \<noteq> Refused e" "fs_accepted s = publishable env p evs"
    "skip_moves ls = passed_over env p evs"
    by (rule done_pipeline_run [OF assms(1,2,4)]) blast
  have run: "flusher_run pd (cfg_pipeline (pl_cfg p)) m ls s" using assms(1) by (simp add: pipeline_run_def flusher_run_def)
  have adv: "fs_advanced s = publishable env p evs" using safe_run_result [OF run assms(3,2)] evs(3) by simp
  obtain mv where "mv \<in> shuffles (map item_move (fs_advanced s)) (skip_moves ls)" "fs_marks s = map_option (apply_moves mv) m"
    using run_watermarks(3) [OF run] by blast
  with safe_run_once [OF run assms(3,2)] evs adv show ?thesis by (intro exI [of _ evs] exI [of _ mv]) simp
qed

theorem batched_lines_are_accounted_for_witness:
  "\<exists>ls s evs mv. pipeline_run (re_stages text_env) minute_pd (timed_pipeline ''dead_letter'') [] [InLine (text_line ''x'' 2)] (Some []) ls s \<and>
     cuts ''/a'' [text_line ''x'' 2] evs [] \<and>
     publishable (re_stages text_env) (timed_pipeline ''dead_letter'') evs \<in> shuffles (fs_delivered s) (fs_dead s) \<and>
     fs_marks s = Some (apply_moves mv [])"
proof -
  let ?ls = "timed_run [LFailed MainSlot (ErrText ''down'') None]"
  obtain it where it': "\<forall>answers s m. inputs_of answers = [] \<longrightarrow>
     run_steps (fstep minute_pd (cfg_pipeline (timed_config ''dead_letter''))) (timed_run answers it) (new_fstate m) = Some s \<longrightarrow>
     pipeline_run (re_stages text_env) minute_pd (timed_pipeline ''dead_letter'') [] [InLine (text_line ''x'' 2)] m (timed_run answers it) s"
    using timed_pipeline_run [of "''dead_letter''"] by blast
  have it: "run_steps (fstep minute_pd (cfg_pipeline (timed_config ''dead_letter''))) (?ls it) (new_fstate (Some [])) = Some s \<Longrightarrow>
      pipeline_run (re_stages text_env) minute_pd (timed_pipeline ''dead_letter'') [] [InLine (text_line ''x'' 2)] (Some []) (?ls it) s" for s
    using it' by (simp add: input_of_def)
  obtain s where s: "run_steps (fstep minute_pd (cfg_pipeline (timed_config ''dead_letter''))) (?ls it) (new_fstate (Some [])) = Some s"
    "fs_main s = MDone ok" using timed_runs(2) by blast
  have "list_all (safe_label (cfg_pipeline (pl_cfg (timed_pipeline ''dead_letter'')))) (?ls it)"
    by (simp add: timed_run_def safe_label_def)
  from batched_lines_are_accounted_for [OF it [OF s(1)] s(2) this] obtain evs mv where
    "cuts ''/a'' (of_path ''/a'' [text_line ''x'' 2]) evs []"
    "publishable (re_stages text_env) (timed_pipeline ''dead_letter'') evs \<in> shuffles (fs_delivered s) (fs_dead s)"
    "fs_marks s = Some (apply_moves mv [])"
    by (auto simp: bp_visited_def)
  then show ?thesis using it [OF s(1)] by (auto simp: of_path_def)
qed

text \<open>
  C9.
  With batching and a sink that takes every batch, delivery is exactly once and in order, end to
  end and in every interleaving: when \<open>Run\<close> returns nil, what was delivered is the sequence of payloads
  of the parser's records that were not skipped or filtered, and the parser's records are the lines of
  every file, cut into consecutive groups.
\<close>

theorem batched_lines_are_delivered_once:
  assumes "pipeline_run env pd p order ins m ls s" "fs_main s = MDone ok" "list_all publishes ls"
    "flushes_visit_all (parser_feed (pl_parser p)) (parser_flush (pl_parser p)) (bp_visited (pl_parser p)) order ins parser_init"
  shows "\<exists>evs. (\<forall>path. cuts path (of_path path (lines_of ins)) evs []) \<and>
     (\<forall>ev \<in> set evs. \<forall>e. run_stages env p ev \<noteq> Refused e) \<and>
     fs_delivered s = publishable env p evs \<and> fs_dead s = []"
proof -
  obtain evs where evs: "\<And>path. cuts path (of_path path (lines_of ins)) evs []"
    "\<And>ev e. ev \<in> set evs \<Longrightarrow> run_stages env p ev \<noteq> Refused e" "fs_accepted s = publishable env p evs"
    by (rule done_pipeline_run [OF assms(1,2,4)]) blast
  have "flusher_run pd (cfg_pipeline (pl_cfg p)) m ls s" using assms(1) by (simp add: pipeline_run_def flusher_run_def)
  from first_try_result [OF this assms(3)] have "fs_delivered s = fs_accepted s" "fs_dead s = []"
    using assms(2) by blast+
  then show ?thesis using evs by (intro exI [of _ evs]) simp
qed

theorem batched_lines_are_delivered_once_witness:
  "\<exists>ls s evs. pipeline_run (re_stages text_env) minute_pd (timed_pipeline ''hibernate'') [] [InLine (text_line ''x'' 2)] None ls s \<and>
     cuts ''/a'' [text_line ''x'' 2] evs [] \<and>
     fs_delivered s = publishable (re_stages text_env) (timed_pipeline ''hibernate'') evs"
proof -
  let ?ls = "timed_run [LPublished MainSlot]"
  obtain it where it': "\<forall>answers s m. inputs_of answers = [] \<longrightarrow>
     run_steps (fstep minute_pd (cfg_pipeline (timed_config ''hibernate''))) (timed_run answers it) (new_fstate m) = Some s \<longrightarrow>
     pipeline_run (re_stages text_env) minute_pd (timed_pipeline ''hibernate'') [] [InLine (text_line ''x'' 2)] m (timed_run answers it) s"
    using timed_pipeline_run [of "''hibernate''"] by blast
  have it: "run_steps (fstep minute_pd (cfg_pipeline (timed_config ''hibernate''))) (?ls it) (new_fstate None) = Some s \<Longrightarrow>
      pipeline_run (re_stages text_env) minute_pd (timed_pipeline ''hibernate'') [] [InLine (text_line ''x'' 2)] None (?ls it) s" for s
    using it' by (simp add: input_of_def)
  obtain s where s: "run_steps (fstep minute_pd (cfg_pipeline (timed_config ''hibernate''))) (?ls it) (new_fstate None) = Some s"
    "fs_main s = MDone ok" using timed_runs(1) by blast
  have "list_all publishes (?ls it)" by (simp add: timed_run_def publishes_def)
  from batched_lines_are_delivered_once [OF it [OF s(1)] s(2) this] obtain evs where
    "cuts ''/a'' (of_path ''/a'' [text_line ''x'' 2]) evs []"
    "fs_delivered s = publishable (re_stages text_env) (timed_pipeline ''hibernate'') evs"
    by (auto simp: bp_visited_def)
  then show ?thesis using it [OF s(1)] by (auto simp: of_path_def)
qed

end
