(* ===== verification/FlusherBugs.thy ===== *)
theory FlusherBugs
  imports FlusherProps
begin

text \<open>
  Schedules in which the flusher does not do what its documentation promises, as runs that are
  evaluated, and the states of hibernation that nothing but a restart ends, as an invariant.
\<close>

section \<open>Batches that are lost\<close>

text \<open>
  Three records of which two do not fit one batch.  The flush of the first fails and hibernates the
  pipeline while \<open>enqueue\<close> of the third already waits in \<open>waitForFlushLocked\<close>, whose caller
  then starts the flush of the second without looking at the hibernation again.
\<close>

definition lost_batch_run :: "flabel list" where
  "lost_batch_run = one_record 1 @ one_record 2 @ [LRelock, LEnqueue] @ one_record 3 @
     [LFailed MainSlot (ErrText ''down'') None, LReturn MainSlot, LResume, LRelock,
      LPublished MainSlot, LAdvance MainSlot None, LFinish MainSlot, LFinish MainSlot, LEnqueue, LReturn MainSlot, LStop, LShut] @
     flush_ok MainSlot"

text \<open>
  C39. A hibernated batch can be lost: in this run the default policy hibernates with the first record,
  the next flush succeeds and \<open>exitHibernate\<close> drops the batch kept for the retry; \<open>Run\<close> returns nil, the
  record was neither delivered nor stored, and the watermark is past it, so no restart reads it again.
\<close>

theorem hibernated_batch_is_lost:
  "\<exists>s. run_steps (fstep minute_pd (ten_bytes ''hibernate'' True)) lost_batch_run (new_fstate (Some [])) = Some s \<and>
     fs_main s = MDone ok \<and> fs_accepted s = [rec_at 1, rec_at 2, rec_at 3] \<and> fs_delivered s = [rec_at 2, rec_at 3] \<and>
     fs_dead s = [] \<and> hibernate_batch (fs_pipe s) = [] \<and> fs_marks s = Some [(''/a'', \<lparr>w_offset = 3, w_inode = 7\<rparr>)]"
  unfolding lost_batch_run_def flush_ok_def one_record_def
  by (simp add: run_eval)

text \<open>The error of an asynchronous flush is only seen by a caller that waits for it.\<close>

definition swallowed_run :: "flabel list" where
  "swallowed_run = one_record 1 @ [LTick, LRelock, LFailed MainSlot (ErrText ''down'') (Some (ErrText ''disk full'')), LReturn MainSlot] @
     one_record 2 @ [LTick, LRelock] @ flush_ok MainSlot @ [LStop, LShut]"

text \<open>
  The error of an asynchronous flush can be swallowed: in dead-letter mode the publish and the
  writing of the dead letter fail, the flush ends before anyone waits for it, and the next flush
  resets \<open>flushErr\<close>.  \<open>Run\<close> returns nil although the first record was neither delivered nor stored, and the
  watermark is past it.
\<close>

theorem async_flush_error_is_swallowed:
  "\<exists>s. run_steps (fstep minute_pd (ten_bytes ''dead_letter'' True)) swallowed_run (new_fstate (Some [])) = Some s \<and>
     fs_main s = MDone ok \<and> fs_accepted s = [rec_at 1, rec_at 2] \<and> fs_delivered s = [rec_at 2] \<and> fs_dead s = [] \<and>
     fs_marks s = Some [(''/a'', \<lparr>w_offset = 2, w_inode = 7\<rparr>)]"
  unfolding swallowed_run_def flush_ok_def one_record_def
  by (simp add: run_eval)

text \<open>
  A filtered line overtakes the records before it: once a record is buffered, skipping or filtering
  a later line of the same file moves the watermark past the record while it is neither delivered nor
  stored; a crash at that moment loses it.
\<close>

theorem filtered_line_overtakes_buffered_record:
  "run_steps (fstep pd (ten_bytes policy wake)) (one_record 1 @ [LSkip ''/a'' 9 7 None]) (new_fstate (Some [])) = Some s
     \<Longrightarrow> b_items (fs_active s) = [rec_at 1] \<and> fs_delivered s = [] \<and> fs_dead s = [] \<and>
        fs_marks s = Some [(''/a'', \<lparr>w_offset = 9, w_inode = 7\<rparr>)]"
  unfolding one_record_def by (auto simp: run_eval split: option.split)

theorem filtered_line_overtakes_buffered_record_witness:
  "\<exists>s. run_steps (fstep minute_pd (ten_bytes ''hibernate'' True)) (one_record 1 @ [LSkip ''/a'' 9 7 None])
       (new_fstate (Some [])) = Some s \<and> fs_delivered s = [] \<and> fs_marks s \<noteq> Some []"
proof -
  obtain s where s: "run_steps (fstep minute_pd (ten_bytes ''hibernate'' True)) (one_record 1 @ [LSkip ''/a'' 9 7 None])
      (new_fstate (Some [])) = Some s"
    unfolding one_record_def by (simp add: run_eval)
  from filtered_line_overtakes_buffered_record [OF s] s show ?thesis by simp
qed

section \<open>Hibernation that does not end\<close>

text \<open>
  The pipeline hibernates and either has no wake loop or nothing for the loop to retry; no flush is
  publishing; the goroutine of \<open>Run\<close> is between records or in \<open>enqueue\<close>.
\<close>

definition asleep :: "fstate \<Rightarrow> bool" where
  "asleep s \<longleftrightarrow> hibernating (fs_pipe s) \<and> (fs_wake s = WakeOff \<or> hibernate_batch (fs_pipe s) = []) \<and>
     fs_wake_flight s = None \<and>
     (case fs_flight s of None \<Rightarrow> True | Some fl \<Rightarrow> fl_kind fl = AsyncFlush \<and> (case fl_stage fl of Returning r \<Rightarrow> True | _ \<Rightarrow> False)) \<and>
     (case fs_main s of MRun \<Rightarrow> True | MEnqueue it \<Rightarrow> True | MHibernate it \<Rightarrow> True | _ \<Rightarrow> False) \<and>
     fs_exit s = None \<and> fs_ctx s = None \<and> \<not> fs_shutting s"

text \<open>No stop, no cancellation, no error of the parser or of a watermark.\<close>

definition undisturbed :: "flabel \<Rightarrow> bool" where
  "undisturbed l = (case l of
      LStop \<Rightarrow> False | LCancel e \<Rightarrow> False | LError e \<Rightarrow> False | LSkip p off ino perr \<Rightarrow> perr = None | _ \<Rightarrow> True)"

definition asleep_since :: "pending list \<Rightarrow> pending list \<Rightarrow> pending list \<Rightarrow> fstate \<Rightarrow> bool" where
  "asleep_since accepted delivered dead s \<longleftrightarrow> asleep s \<and> fs_accepted s = accepted \<and> fs_delivered s = delivered \<and> fs_dead s = dead"

lemma asleep_enqueue:
  assumes "asleep s"
  shows "enqueue_turn mx it s = s\<lparr>fs_main := MHibernate it\<rparr>"
  using assms by (simp add: asleep_def enqueue_turn_def Let_def)

lemma asleep_fields:
  assumes "asleep s"
  shows "hibernating (fs_pipe s)" "fs_wake_flight s = None" "fs_exit s = None" "fs_ctx s = None" "\<not> fs_shutting s"
    "fs_wake s = WakeOff \<or> hibernate_batch (fs_pipe s) = []" "resume_with r s = None"
    "fs_flight s = Some fl \<Longrightarrow> fl_kind fl = AsyncFlush \<and> (\<exists>r. fl_stage fl = Returning r)"
  using assms by (auto simp: asleep_def resume_with_def split: main_pc.splits flush_stage.splits)

lemma asleep_since_goto:
  "asleep_since a d e s \<Longrightarrow> asleep_since a d e (s\<lparr>fs_main := MRun\<rparr>)"
  "asleep_since a d e s \<Longrightarrow> asleep_since a d e (s\<lparr>fs_main := MEnqueue it\<rparr>)"
  "asleep_since a d e s \<Longrightarrow> asleep_since a d e (s\<lparr>fs_main := MHibernate it\<rparr>)"
  "asleep_since a d e s \<Longrightarrow> asleep_since a d e (s\<lparr>fs_marks := m\<rparr>)"
  "asleep_since a d e s \<Longrightarrow> asleep_since a d e (report r s)"
  by (simp_all add: asleep_since_def asleep_def report_def)

lemma asleep_wake:
  assumes "asleep_since a d e s"
  shows "wake_tick s = Some s' \<Longrightarrow> asleep_since a d e s'" "wake_off s = Some s' \<Longrightarrow> asleep_since a d e s'"
  using assms by (auto simp: asleep_since_def asleep_def wake_tick_def wake_off_def split: if_splits)

lemma asleep_since_step:
  assumes inv: "asleep_since a d e s" and l: "undisturbed l" and step: "fstep pd cfg l s = Some s'"
  shows "asleep_since a d e s'"
proof -
  have "asleep s" using inv by (simp add: asleep_since_def)
  note f = asleep_fields [OF this] and h = asleep_enqueue [OF this]
  have fl: "get_flight w s = Some fl \<Longrightarrow> \<exists>r. fl_stage fl = Returning r" for w fl
    using f(2) f(8) [of fl] by (cases w) (auto simp: slot_defs)
  from step show ?thesis
  proof (cases rule: fstep_cases)
    case (skip p off ino perr)
    then show ?thesis using inv l by (simp add: skip_line_def finish_record_def undisturbed_def asleep_since_goto)
  next
    case tick
    then show ?thesis using inv f(1) by (simp add: trigger_flush_def)
  next
    case (enqueue it)
    then show ?thesis using inv h by (simp add: asleep_since_goto)
  next
    case (poll it)
    then show ?thesis using inv f(1) by simp
  next
    case (relock k)
    then show ?thesis using inv by (simp add: asleep_since_def asleep_def)
  next
    case (advance w fl perr)
    then show ?thesis using fl by (fastforce simp: flight_advance_def)
  next
    case (finish w fl)
    then show ?thesis using fl by (fastforce simp: flight_finish_def)
  next
    case (main_return fl r)
    then show ?thesis using inv f(8) [of fl] by (auto simp: main_flush_return_def asleep_since_goto split: if_splits)
  next
    case (published w fl)
    then show ?thesis using fl by fastforce
  next
    case (failed w fl)
    then show ?thesis using fl by fastforce
  qed (use inv l f(2-4,7) asleep_wake [OF inv] in \<open>simp_all add: undisturbed_def asleep_since_goto\<close>)
qed

interpretation asleep_run: invariant_of "fstep pd cfg" undisturbed "asleep_since a d e" "asleep_since a d e"
  for pd cfg a d e
  by unfold_locales (auto intro: asleep_since_step)

text \<open>
  Such a hibernation is permanent: whatever happens short of a shutdown or an error of the input,
  and however often the timers fire, the pipeline keeps hibernating and nothing is accepted,
  delivered or stored any more.
\<close>

theorem asleep_for_good:
  assumes "asleep s" "run_steps (fstep pd cfg) ls s = Some s'" "list_all undisturbed ls"
  shows "hibernating (fs_pipe s') \<and> fs_accepted s' = fs_accepted s \<and> fs_delivered s' = fs_delivered s \<and> fs_dead s' = fs_dead s"
proof -
  have "asleep_since (fs_accepted s) (fs_delivered s) (fs_dead s) s'"
    using asleep_run.inv_run [OF assms(2,3)] assms(1) by (simp add: asleep_since_def)
  then show ?thesis by (simp add: asleep_since_def asleep_def)
qed

text \<open>The limit of dead letters is reached: the wake loop runs, but there is no batch for it to retry.\<close>

definition limit_run :: "flabel list" where
  "limit_run = one_record 1 @ [LTick, LRelock, LFailed MainSlot (ErrText ''down'') None, LAdvance MainSlot None, LFinish MainSlot,
     LFinish MainSlot, LReturn MainSlot]"

lemma limit_run_asleep:
  "\<exists>s. run_steps (fstep minute_pd (ten_bytes ''dead_letter'' True)) limit_run (new_fstate (Some [])) = Some s \<and>
     asleep s \<and> fs_wake s = WakeSleep \<and> fs_delivered s = [] \<and> fs_dead s = [rec_at 1]"
  unfolding limit_run_def flush_ok_def one_record_def by (simp add: run_eval asleep_def split: option.split)

text \<open>The wake loop wakes up, a new record arrives and waits, the wake loop wakes up again.\<close>

definition later_run :: "flabel list" where
  "later_run = [LWakeTick, LRecord (rec_at 2), LEnqueue, LPoll, LWakeTick, LPoll]"

lemma later_run:
  "\<exists>s. run_steps (fstep minute_pd (ten_bytes ''dead_letter'' True)) (limit_run @ later_run) (new_fstate (Some [])) = Some s"
  unfolding limit_run_def later_run_def one_record_def by (simp add: run_eval)

theorem asleep_for_good_witness:
  "\<exists>s s'. run_steps (fstep minute_pd (ten_bytes ''dead_letter'' True)) limit_run (new_fstate (Some [])) = Some s \<and>
     run_steps (fstep minute_pd (ten_bytes ''dead_letter'' True)) later_run s = Some s' \<and>
     hibernating (fs_pipe s') \<and> fs_delivered s' = [] \<and> fs_dead s' = [rec_at 1]"
proof -
  obtain s where s: "run_steps (fstep minute_pd (ten_bytes ''dead_letter'' True)) limit_run (new_fstate (Some [])) = Some s"
      "asleep s" "fs_delivered s = []" "fs_dead s = [rec_at 1]"
    using limit_run_asleep by blast
  with later_run obtain s' where s': "run_steps (fstep minute_pd (ten_bytes ''dead_letter'' True)) later_run s = Some s'"
    by (auto simp: run_steps_append)
  have "list_all undisturbed later_run" by (simp add: later_run_def undisturbed_def)
  from asleep_for_good [OF s(2) s' this] s s' show ?thesis by (intro exI [of _ s] exI [of _ s']) simp
qed

text \<open>
  The last moment of a wake loop loses the next hibernation: after a successful retry the loop has
  decided to end but \<open>hibernateWakeRunning\<close> is still set when another flush fails, so no new loop is
  started for its batch; although \<open>wake_enabled\<close> is set, the pipeline then sleeps for good with a batch.
\<close>

definition race_run :: "flabel list" where
  "race_run = one_record 1 @ [LTick, LRelock, LFailed MainSlot (ErrText ''down'') None, LReturn MainSlot, LWakeTick] @
     flush_ok WakeSlot @ one_record 2 @
     [LTick, LRelock, LFailed MainSlot (ErrText ''down'') None, LWakeOff, LReturn MainSlot]"

theorem wake_loop_misses_new_hibernation:
  "\<exists>s. run_steps (fstep minute_pd (ten_bytes ''hibernate'' True)) race_run (new_fstate (Some [])) = Some s \<and>
     asleep s \<and> hibernate_batch (fs_pipe s) = [rec_at 2] \<and> fs_delivered s = [rec_at 1] \<and> fs_wake s = WakeOff"
  unfolding race_run_def flush_ok_def one_record_def by (simp add: run_eval asleep_def split: option.split)

section \<open>After Run has returned\<close>

text \<open>
  The wake loop outlives \<open>Run\<close>: the shutdown waits for no wake loop, and once the deferred function of
  \<open>Run\<close> has set \<open>runCtx\<close> to nil the loop goes on under \<open>context.Background\<close>.  Here \<open>Run\<close> returns nil while the
  record is still in the hibernated batch, and then the wake loop delivers it and moves the watermark: if
  the process has written its watermarks for the last time before that, the next one delivers it again.
\<close>

definition outliving_run :: "flabel list" where
  "outliving_run = one_record 1 @ [LTick, LRelock, LFailed MainSlot (ErrText ''down'') None, LReturn MainSlot, LStop, LShut,
     LFailed MainSlot (ErrText ''down'') None, LReturn MainSlot]"

theorem wake_loop_outlives_run:
  "\<exists>s s'. run_steps (fstep minute_pd (ten_bytes ''hibernate'' True)) outliving_run (new_fstate (Some [])) = Some s \<and>
     fs_main s = MDone ok \<and> fs_delivered s = [] \<and> fs_marks s = Some [] \<and>
     run_steps (fstep minute_pd (ten_bytes ''hibernate'' True)) (LWakeTick # flush_ok WakeSlot) s = Some s' \<and>
     fs_main s' = MDone ok \<and> fs_delivered s' = [rec_at 1] \<and> fs_marks s' = Some [(''/a'', \<lparr>w_offset = 1, w_inode = 7\<rparr>)]"
  unfolding outliving_run_def flush_ok_def one_record_def
  by (simp add: run_eval)

text \<open>
  The drain of the shutdown and the wake loop may publish the same batch: both take a copy, and neither
  sees that the other is publishing.
\<close>

theorem drain_repeats_the_wake_batch:
  "\<exists>s. run_steps (fstep minute_pd (ten_bytes ''hibernate'' True))
       (one_record 1 @ [LTick, LRelock, LFailed MainSlot (ErrText ''down'') None, LReturn MainSlot, LStop, LWakeTick, LShut] @
        flush_ok WakeSlot @ flush_ok MainSlot) (new_fstate (Some [])) = Some s \<and>
     fs_main s = MDone ok \<and> fs_accepted s = [rec_at 1] \<and> fs_delivered s = [rec_at 1, rec_at 1]"
  unfolding flush_ok_def one_record_def
  by (simp add: run_eval)

end
