(* ===== verification/Validate.thy ===== *)
theory Validate
  imports RecordFilter DeadLetter Transform
begin

text \<open>
  Validation of the configuration (\<open>Validate\<close> and its parts in \<open>internal/config\<close>): the registries of
  type names, the checks in the order of the code, each with its error, and what a configuration that
  passes is known to satisfy.
\<close>

section \<open>Registries\<close>

record type_registry =
  sink_types :: type_names
  enricher_types :: type_names
  parser_types :: type_names
  transformer_types :: type_names
  filter_types :: type_names

definition register_all :: "string list \<Rightarrow> type_names" where
  "register_all names = foldl (\<lambda>ts n. register_type n ts) gm_empty names"

text \<open>The names registered by \<open>init\<close>.\<close>

definition builtin_types :: type_registry where
  "builtin_types = \<lparr>sink_types = register_all [''kafka'', ''file'', ''http-noauth''],
     enricher_types = register_all [''static'', ''host''], parser_types = register_all [''line'', ''multiline''],
     transformer_types = register_all [''delimiter'', ''tab'', ''regex''], filter_types = register_all [''field'', ''compound'']\<rparr>"

section \<open>The outside of validation\<close>

text \<open>
  The working directory, and functions of the standard library whose results are only tested:
  \<open>filepath.Match\<close>, \<open>regexp.Compile\<close>, \<open>url.Parse\<close> (scheme, host and path), \<open>time.LoadLocation\<close>,
  \<open>time.Parse\<close> of a layout and a sample, and upper and lower case outside ASCII.
\<close>

record url_parts =
  url_scheme :: string
  url_host :: string
  url_path :: string

record val_env =
  ve_cwd :: "string result"
  ve_durations :: duration_parser
  ve_match :: "string \<Rightarrow> string \<Rightarrow> bool result"
  ve_regexp :: "string \<Rightarrow> check"
  ve_url :: "string \<Rightarrow> url_parts result"
  ve_zone :: "string \<Rightarrow> check"
  ve_layout :: "string \<Rightarrow> string \<Rightarrow> check"
  ve_upper :: "string \<Rightarrow> string"
  ve_lower :: "string \<Rightarrow> string"

definition ascii_upper_char :: "char \<Rightarrow> char" where
  "ascii_upper_char c = (if 97 \<le> byte_val c \<and> byte_val c \<le> 122 then char_of (byte_val c - 32) else c)"

definition ascii_lower_char :: "char \<Rightarrow> char" where
  "ascii_lower_char c = (if 65 \<le> byte_val c \<and> byte_val c \<le> 90 then char_of (byte_val c + 32) else c)"

text \<open>\<open>strings.ToUpper\<close> and \<open>strings.ToLower\<close>: exact on ASCII, the argument elsewhere.\<close>

definition is_ascii :: "string \<Rightarrow> bool" where
  "is_ascii s \<longleftrightarrow> list_all (\<lambda>c. byte_val c < 128) s"

definition to_upper :: "val_env \<Rightarrow> string \<Rightarrow> string" where
  "to_upper env s = (if is_ascii s then map ascii_upper_char s else ve_upper env s)"

definition to_lower :: "val_env \<Rightarrow> string \<Rightarrow> string" where
  "to_lower env s = (if is_ascii s then map ascii_lower_char s else ve_lower env s)"

text \<open>\<open>if cond { return fmt.Errorf (msg) }\<close>, and a duration that is parsed for its error.\<close>

definition reject_if :: "bool \<Rightarrow> string \<Rightarrow> check" where
  "reject_if b msg = (if b then failing msg else ok)"

definition wrap_error :: "string \<Rightarrow> 'a result \<Rightarrow> 'a result" where
  "wrap_error pre r = (case r of Inl e \<Rightarrow> Inl (ErrWrap pre e) | Inr v \<Rightarrow> Inr v)"

definition parses_duration :: "val_env \<Rightarrow> string \<Rightarrow> string \<Rightarrow> check" where
  "parses_duration env field s = bind_res (wrap_error (field @ '': '') (ve_durations env s)) (\<lambda>d. ok)"

text \<open>The same behind \<open>if s != "" \&\& s != "0"\<close>, and behind \<open>if s != ""\<close>.\<close>

definition optional_duration :: "val_env \<Rightarrow> string \<Rightarrow> string \<Rightarrow> check" where
  "optional_duration env field s = (if s \<noteq> [] \<and> s \<noteq> ''0'' then parses_duration env field s else ok)"

definition given_duration :: "val_env \<Rightarrow> string \<Rightarrow> string \<Rightarrow> check" where
  "given_duration env field s = (if s \<noteq> [] then parses_duration env field s else ok)"

lemma reject_ok [simp]: "reject_if b msg = ok \<longleftrightarrow> \<not> b"
  by (simp add: reject_if_def)

lemma wrap_ok [simp]: "wrap_error p r = Inr v \<longleftrightarrow> r = Inr v"
  by (cases r) (simp_all add: wrap_error_def)

section \<open>Watched directories\<close>

fun validate_sources :: "nat \<Rightarrow> watch_source list \<Rightarrow> check" where
  "validate_sources i [] = ok"
| "validate_sources i (s # ss) =
     (if src_path s = [] then failing (''watch.sources['' @ show_nat i @ ''].path must not be empty'')
      else if length (src_patterns s) = 0 then failing (''watch.sources['' @ show_nat i @ ''].patterns must not be empty'')
      else validate_sources (i + 1) ss)"

definition validate_watch :: "val_env \<Rightarrow> watch_config \<Rightarrow> check" where
  "validate_watch env c = first_error
     [if length (watch_sources c) > 0 then validate_sources 0 (watch_sources c)
      else first_error
        [reject_if (length (watch_paths c) = 0) ''watch.paths must not be empty'',
         reject_if (length (watch_patterns c) = 0) ''watch.patterns must not be empty''],
      parses_duration env ''watch.poll'' (watch_poll c)]"

text \<open>The loop over \<open>c.Watch.Entries ()\<close> that four checks share, with the test of the absolute directory.\<close>

fun each_source :: "string result \<Rightarrow> (string \<Rightarrow> watch_source \<Rightarrow> check) \<Rightarrow> watch_source list \<Rightarrow> check" where
  "each_source cwd test [] = ok"
| "each_source cwd test (s # ss) =
     (case wrap_error (''watch path '' @ quoted (src_path s) @ '': '') (fp_abs cwd (src_path s)) of
        Inl e \<Rightarrow> Inl e
      | Inr wp \<Rightarrow> (case test wp s of Inl e \<Rightarrow> Inl e | Inr u \<Rightarrow> each_source cwd test ss))"

lemma each_source_ok:
  "each_source cwd test ss = ok \<longleftrightarrow> (\<forall>s \<in> set ss. \<exists>wp. fp_abs cwd (src_path s) = Inr wp \<and> test wp s = ok)"
proof (induction ss)
  case (Cons s ss)
  then show ?case
    by (cases "fp_abs cwd (src_path s)") (auto simp: wrap_error_def split: sum.splits)
qed simp

definition validate_dead_letter_path :: "val_env \<Rightarrow> config \<Rightarrow> string \<Rightarrow> check" where
  "validate_dead_letter_path env c path =
     bind_res (wrap_error ''pipeline.publish_batch.dead_letter.path: '' (fp_abs (ve_cwd env) path)) (\<lambda>abs_path.
       each_source (ve_cwd env) (\<lambda>wp s. reject_if (path_inside wp abs_path)
         (''pipeline.publish_batch.dead_letter.path '' @ quoted abs_path @
          '' must not be inside a watched directory ('' @ quoted wp @ '')'')) (watch_entries (cfg_watch c)))"

definition validate_sink_file_path :: "val_env \<Rightarrow> config \<Rightarrow> string \<Rightarrow> check" where
  "validate_sink_file_path env c path =
     bind_res (wrap_error ''sink.file.path: '' (fp_abs (ve_cwd env) path)) (\<lambda>abs_path.
     bind_res (each_source (ve_cwd env) (\<lambda>wp s. first_error
         [reject_if (path_inside wp abs_path)
            (''sink.file.path '' @ quoted abs_path @ '' must not be inside a watched directory ('' @ quoted wp @ '')''),
          reject_if (log_file_matches_watch_pattern (ve_match env) abs_path wp (src_patterns s))
            (''sink.file.path '' @ quoted abs_path @ '' matches a watch pattern under '' @ quoted wp)])
         (watch_entries (cfg_watch c))) (\<lambda>_.
       if log_file (cfg_logging c) \<noteq> [] then
         bind_res (wrap_error ''logging.file: '' (fp_abs (ve_cwd env) (log_file (cfg_logging c)))) (\<lambda>log_path.
           reject_if (abs_path = log_path) ''sink.file.path must not be the same as logging.file'')
       else ok))"

definition validate_logging :: "val_env \<Rightarrow> config \<Rightarrow> check" where
  "validate_logging env c =
     (let lc = cfg_logging c;
          level0 = to_lower env (log_level lc); level = (if level0 = [] then ''info'' else level0);
          format0 = to_lower env (log_format lc); fmt = (if format0 = [] then ''text'' else format0) in
      bind_res (reject_if (level \<notin> {''debug'', ''info'', ''warn'', ''error''})
        ''logging.level must be debug, info, warn, or error'') (\<lambda>_.
      bind_res (reject_if (fmt \<notin> {''text'', ''json''}) ''logging.format must be text or json'') (\<lambda>_.
      bind_res (optional_duration env ''logging.status_interval'' (log_status_interval lc)) (\<lambda>_.
        if log_file lc = [] then ok
        else
          bind_res (wrap_error ''logging.file: '' (fp_abs (ve_cwd env) (log_file lc))) (\<lambda>log_path.
            each_source (ve_cwd env) (\<lambda>wp s. first_error
              [reject_if (path_inside wp log_path)
                 (''logging.file '' @ quoted log_path @ '' must not be inside a watched directory ('' @ quoted wp @
                  ''); that would cause the forwarder to read its own logs''),
               reject_if (log_file_matches_watch_pattern (ve_match env) log_path wp (src_patterns s))
                 (''logging.file '' @ quoted log_path @ '' matches a watch pattern under '' @ quoted wp @
                  ''; choose a log path outside watched directories'')])
              (watch_entries (cfg_watch c)))))))"

definition validate_state :: "val_env \<Rightarrow> config \<Rightarrow> check" where
  "validate_state env c =
     (let sc = watch_state (cfg_watch c) in
      bind_res (wrap_error ''watch.state.path: '' (fp_abs (ve_cwd env) (state_path c))) (\<lambda>st_path.
      bind_res (reject_if (state_flush_every sc < 0) ''watch.state.flush_every must not be negative'') (\<lambda>_.
      bind_res (optional_duration env ''watch.state.flush_interval'' (state_flush_interval sc)) (\<lambda>_.
        each_source (ve_cwd env) (\<lambda>wp s. reject_if (log_file_matches_watch_pattern (ve_match env) st_path wp (src_patterns s))
          (''watch.state.path '' @ quoted st_path @ '' matches a watch pattern under '' @ quoted wp @
           ''; choose a state file that will not be tailed'')) (watch_entries (cfg_watch c))))))"

section \<open>Stages\<close>

definition validate_parser :: "val_env \<Rightarrow> type_registry \<Rightarrow> config \<Rightarrow> check" where
  "validate_parser env types c =
     (let pc = cfg_parser c; ty = (if parser_type pc = [] then ''line'' else parser_type pc) in
      if \<not> known_type (parser_types types) ty then Inl (unknown_type_error ''parser.type'' ty (parser_types types))
      else if ty = ''multiline'' then
        bind_res (reject_if (parser_start_pattern pc = []) ''parser.start_pattern is required when parser.type is multiline'') (\<lambda>_.
        bind_res (wrap_error ''parser.start_pattern: '' (ve_regexp env (parser_start_pattern pc))) (\<lambda>_.
          optional_duration env ''parser.flush_interval'' (parser_flush_interval pc)))
      else ok)"

definition validate_transform :: "type_registry \<Rightarrow> config \<Rightarrow> check" where
  "validate_transform types c =
     (let tc = cfg_transform c in
      if transform_type tc = [] then failing ''transform.type must not be empty''
      else if \<not> known_type (transformer_types types) (transform_type tc) then
        Inl (unknown_type_error ''transform.type'' (transform_type tc) (transformer_types types))
      else if transform_type tc = ''regex'' \<and> transform_pattern tc = [] then
        failing ''transform.pattern is required when transform.type is regex''
      else reject_if (transform_on_error tc \<noteq> ''skip'' \<and> transform_on_error tc \<noteq> ''wrap'')
        ''transform.on_error must be skip or wrap'')"

text \<open>A layout is accepted when one of four samples parses with it.\<close>

definition layout_samples :: "string list" where
  "layout_samples = [''2006-01-02T15:04:05Z07:00'', ''2006-01-02 15:04:05.000'', ''2006-01-02 15:04:05'', ''2006-01-02T15:04:05Z'']"

definition validate_time_layout :: "val_env \<Rightarrow> string \<Rightarrow> check" where
  "validate_time_layout env layout =
     (if list_ex (\<lambda>s. ve_layout env layout s = ok) layout_samples then ok
      else failing (''invalid Go time layout '' @ quoted layout))"

definition validate_timestamp :: "val_env \<Rightarrow> config \<Rightarrow> check" where
  "validate_timestamp env c =
     (let tc = cfg_timestamp c in
      if \<not> timestamp_enabled tc then ok
      else if output_or_default tc \<noteq> ''rfc3339nano'' then failing (''timestamp.output must be '' @ quoted ''rfc3339nano'')
      else
        bind_res (if ts_format tc \<noteq> [] then wrap_error ''timestamp.format: '' (validate_time_layout env (ts_format tc)) else ok) (\<lambda>_.
          wrap_error ''timestamp.default_timezone: '' (ve_zone env (default_timezone_or_default tc))))"

fun validate_enrichers_from :: "type_registry \<Rightarrow> nat \<Rightarrow> enricher_config list \<Rightarrow> check" where
  "validate_enrichers_from types i [] = ok"
| "validate_enrichers_from types i (e # es) =
     (if enricher_type e = [] then failing (''enrichers['' @ show_nat i @ ''].type must not be empty'')
      else if \<not> known_type (enricher_types types) (enricher_type e) then
        Inl (unknown_type_error (''enrichers['' @ show_nat i @ ''].type'') (enricher_type e) (enricher_types types))
      else if enricher_type e = ''static'' \<and> length (enricher_fields e) = 0 then
        failing (''enrichers['' @ show_nat i @ ''].fields is required when type is static'')
      else validate_enrichers_from types (i + 1) es)"

definition validate_enrichers :: "type_registry \<Rightarrow> config \<Rightarrow> check" where
  "validate_enrichers types c = validate_enrichers_from types 0 (cfg_enrichers c)"

section \<open>Pipeline\<close>

definition validate_retry :: "val_env \<Rightarrow> publish_retry_config \<Rightarrow> check" where
  "validate_retry env rc = first_error
     [given_duration env ''pipeline.publish_retry.initial_backoff'' (initial_backoff rc),
      given_duration env ''pipeline.publish_retry.max_backoff'' (max_backoff rc),
      reject_if (retry_max_attempts rc < 0) ''pipeline.publish_retry.max_attempts must be >= 0'',
      reject_if (max_backoff_duration (ve_durations env) rc < initial_backoff_duration (ve_durations env) rc)
        ''pipeline.publish_retry.max_backoff must be >= initial_backoff'']"

definition validate_flush_failure :: "val_env \<Rightarrow> config \<Rightarrow> check" where
  "validate_flush_failure env c =
     (let bc = publish_batch (cfg_pipeline c); pol = on_flush_failure_or_default bc in
      if pol = ''hibernate'' then ok
      else if pol = ''dead_letter'' then first_error
        [reject_if (dl_path (pb_dead_letter bc) = [])
           ''pipeline.publish_batch.dead_letter.path is required when on_flush_failure is dead_letter'',
         reject_if (dl_max_consecutive_batches (pb_dead_letter bc) < 0)
           ''pipeline.publish_batch.dead_letter.max_consecutive_batches must be >= 0'',
         validate_dead_letter_path env c (dl_path (pb_dead_letter bc))]
      else failing ''pipeline.publish_batch.on_flush_failure must be hibernate or dead_letter'')"

definition validate_pipeline :: "val_env \<Rightarrow> config \<Rightarrow> check" where
  "validate_pipeline env c =
     (let pc = cfg_pipeline c; bc = publish_batch pc; hc = pb_hibernate bc in first_error
       [reject_if (buffer_size pc \<le> 0) ''pipeline.buffer_size must be positive'',
        reject_if (on_full pc \<noteq> ''block'' \<and> on_full pc \<noteq> ''drop'') ''pipeline.on_full must be block or drop'',
        optional_duration env ''pipeline.publish_timeout'' (publish_timeout pc),
        validate_retry env (publish_retry pc),
        reject_if (max_publish_bytes pc < 0) ''pipeline.max_publish_bytes must be >= 0'',
        reject_if (pb_max_bytes bc < 0) ''pipeline.publish_batch.max_bytes must be >= 0'',
        optional_duration env ''pipeline.publish_batch.flush_interval'' (pb_flush_interval bc),
        reject_if (pb_max_attempts bc < 0) ''pipeline.publish_batch.max_attempts must be >= 0'',
        validate_flush_failure env c,
        optional_duration env ''pipeline.publish_batch.hibernate.wake_interval'' (hib_wake_interval hc),
        reject_if (hib_wake_enabled hc \<and> wake_interval_duration (ve_durations env) hc \<le> 0)
          ''pipeline.publish_batch.hibernate.wake_interval must be positive when wake_enabled is true''])"

section \<open>Sinks\<close>

definition security_protocol :: "val_env \<Rightarrow> kafka_config \<Rightarrow> string" where
  "security_protocol env k = (case kafka_security k of
      None \<Rightarrow> ''PLAINTEXT''
    | Some sec \<Rightarrow> if sec_protocol sec = [] then ''PLAINTEXT'' else to_upper env (sec_protocol sec))"

definition validate_tls :: "string \<Rightarrow> kafka_security_config \<Rightarrow> check" where
  "validate_tls protocol sec =
     (if protocol \<noteq> ''SSL'' \<and> protocol \<noteq> ''SASL_SSL'' then ok
      else (case sec_tls sec of
          None \<Rightarrow> failing (''kafka.security.tls is required when protocol is '' @ protocol)
        | Some tls \<Rightarrow>
            (let has_cert = (tls_cert_file tls \<noteq> [] \<or> tls_key_file tls \<noteq> []) in first_error
              [reject_if (has_cert \<and> (tls_cert_file tls = [] \<or> tls_key_file tls = []))
                 ''kafka.security.tls.cert_file and key_file must both be set for mTLS'',
               reject_if (tls_ca_file tls = [] \<and> \<not> tls_insecure_skip_verify tls \<and> \<not> has_cert)
                 (''kafka.security.tls.ca_file is required when protocol is '' @ protocol @
                  '' (or set insecure_skip_verify for dev only)'')])))"

definition validate_sasl :: "val_env \<Rightarrow> string \<Rightarrow> kafka_security_config \<Rightarrow> check" where
  "validate_sasl env protocol sec =
     (if protocol \<noteq> ''SASL_PLAINTEXT'' \<and> protocol \<noteq> ''SASL_SSL'' then ok
      else (case sec_sasl sec of
          None \<Rightarrow> failing (''kafka.security.sasl is required when protocol is '' @ protocol)
        | Some sasl \<Rightarrow>
            (let mech = to_upper env (sasl_mechanism sasl) in
             if mech = ''PLAIN'' then first_error
               [reject_if (sasl_username sasl = []) ''kafka.security.sasl.username is required for PLAIN'',
                reject_if (sasl_password sasl = []) ''kafka.security.sasl.password is required for PLAIN'']
             else if mech = ''SCRAM-SHA-256'' \<or> mech = ''SCRAM-SHA-512'' then first_error
               [reject_if (sasl_username sasl = []) (''kafka.security.sasl.username is required for '' @ mech),
                reject_if (sasl_password sasl = []) (''kafka.security.sasl.password is required for '' @ mech)]
             else if mech = ''GSSAPI'' then
               (case sasl_kerberos sasl of
                  None \<Rightarrow> failing ''kafka.security.sasl.kerberos is required for GSSAPI''
                | Some krb \<Rightarrow> first_error
                    [reject_if (krb_keytab krb = []) ''kafka.security.sasl.kerberos.keytab is required for GSSAPI'',
                     reject_if (krb_principal krb = []) ''kafka.security.sasl.kerberos.principal is required for GSSAPI''])
             else if mech = ''OAUTHBEARER'' then
               (case sasl_oauth sasl of
                  None \<Rightarrow> failing ''kafka.security.sasl.oauth.token is required for OAUTHBEARER''
                | Some tok \<Rightarrow> reject_if (oauth_token tok = []) ''kafka.security.sasl.oauth.token is required for OAUTHBEARER'')
             else if mech = [] then failing (''kafka.security.sasl.mechanism is required when protocol is '' @ protocol)
             else failing (''kafka.security.sasl.mechanism '' @ quoted (sasl_mechanism sasl) @ '' is not supported''))))"

definition validate_kafka :: "val_env \<Rightarrow> kafka_config \<Rightarrow> check" where
  "validate_kafka env k =
     (let protocol = security_protocol env k in first_error
       [reject_if (length (kafka_brokers k) = 0) ''kafka.brokers must not be empty'',
        reject_if (kafka_topic k = []) ''kafka.topic must not be empty'',
        given_duration env ''kafka.connect_timeout'' (kafka_connect_timeout k),
        reject_if (protocol \<notin> {''PLAINTEXT'', ''SSL'', ''SASL_PLAINTEXT'', ''SASL_SSL''})
          ''kafka.security.protocol must be PLAINTEXT, SSL, SASL_PLAINTEXT, or SASL_SSL'',
        (case kafka_security k of
           None \<Rightarrow> ok
         | Some sec \<Rightarrow> first_error [validate_tls protocol sec, validate_sasl env protocol sec])])"

definition validate_http_noauth :: "val_env \<Rightarrow> http_noauth_config \<Rightarrow> check" where
  "validate_http_noauth env h = first_error
     [reject_if (http_url h = []) ''sink.http_noauth.url must not be empty'',
      bind_res (wrap_error ''sink.http_noauth.url: '' (ve_url env (http_url h))) (\<lambda>u. ok),
      given_duration env ''sink.http_noauth.timeout'' (http_timeout h)]"

definition validate_sink :: "val_env \<Rightarrow> type_registry \<Rightarrow> config \<Rightarrow> check" where
  "validate_sink env types c =
     (let sc = cfg_sink c; ty = (if sink_type sc = [] then ''kafka'' else sink_type sc) in
      if \<not> known_type (sink_types types) ty then Inl (unknown_type_error ''sink.type'' ty (sink_types types))
      else if ty = ''kafka'' then
        (case sink_kafka sc of
           None \<Rightarrow> failing ''sink.kafka is required when sink.type is kafka''
         | Some k \<Rightarrow> validate_kafka env k)
      else if ty = ''file'' then
        (case sink_file sc of
           None \<Rightarrow> failing ''sink.file.path is required when sink.type is file''
         | Some f \<Rightarrow> if file_sink_path f = [] then failing ''sink.file.path is required when sink.type is file''
                    else validate_sink_file_path env c (file_sink_path f))
      else if ty = ''http-noauth'' then
        (case sink_http_noauth sc of
           None \<Rightarrow> failing ''sink.http_noauth is required when sink.type is http-noauth''
         | Some h \<Rightarrow> validate_http_noauth env h)
      else ok)"

section \<open>Metrics and ATC\<close>

definition validate_metrics :: "val_env \<Rightarrow> config \<Rightarrow> check" where
  "validate_metrics env c =
     (let mc = cfg_metrics c; rc = metrics_readiness mc in
      if \<not> metrics_enabled mc then ok
      else first_error
        [reject_if (metrics_port mc < 0 \<or> metrics_port mc > 65535) ''metrics.port must be between 0 and 65535'',
         reject_if (metrics_path mc = ''/'') (''metrics.path must not be '' @ quoted ''/''),
         reject_if (ready_path rc = ''/'') (''metrics.readiness.path must not be '' @ quoted ''/''),
         reject_if (ready_path rc = metrics_path mc) ''metrics.readiness.path must differ from metrics.path'',
         reject_if (ready_buffer_threshold rc < 0 \<or> ready_buffer_threshold rc > 1)
           ''metrics.readiness.buffer_threshold must be between 0 and 1'',
         optional_duration env ''metrics.readiness.sink_check_timeout'' (ready_sink_check_timeout rc)])"

text \<open>\<open>strings.TrimRight (s, "/")\<close>.  (\<open>strings.TrimSpace\<close> is modelled with the transformers.)\<close>

definition trim_right_slash :: "string \<Rightarrow> string" where
  "trim_right_slash s = rev (dropWhile (\<lambda>ch. ch = SLASH) (rev s))"

definition atc_endpoint_url :: "atc_config \<Rightarrow> string" where
  "atc_endpoint_url c =
     (let raw = trim_space (atc_url c) in
      if raw = [] then ''http://localhost:8090/api/instances'' else trim_right_slash raw)"

definition validate_atc :: "val_env \<Rightarrow> config \<Rightarrow> check" where
  "validate_atc env c =
     (let ac = cfg_atc c in
      if \<not> atc_enabled ac then ok
      else if \<not> metrics_enabled (cfg_metrics c) then
        failing ''atc.enabled requires metrics.enabled so the controller can reach /health and /ready''
      else bind_res (wrap_error ''atc.url: '' (ve_url env (atc_endpoint_url ac))) (\<lambda>u. first_error
        [reject_if (url_scheme u \<noteq> ''http'' \<and> url_scheme u \<noteq> ''https'') ''atc.url must use http or https'',
         reject_if (url_host u = []) ''atc.url must include a host'',
         reject_if (url_path u = []) ''atc.url must include a path'',
         given_duration env ''atc.timeout'' (atc_timeout ac)]))"

section \<open>The whole configuration\<close>

definition validate_config :: "val_env \<Rightarrow> type_registry \<Rightarrow> config \<Rightarrow> check" where
  "validate_config env types c = first_error
     [validate_watch env (cfg_watch c), validate_sink env types c, validate_parser env types c,
      validate_transform types c, validate_timestamp env c, validate_enrichers types c,
      validate_filter (filter_types types) (cfg_filter c), validate_pipeline env c,
      validate_logging env c, validate_metrics env c, validate_atc env c, validate_state env c]"

text \<open>\<open>ValidateDeadLetterAtStartup\<close>, with the answers of the file system.\<close>

definition validate_dead_letter_at_startup ::
  "val_env \<Rightarrow> (string \<Rightarrow> check) \<Rightarrow> (string \<Rightarrow> check) \<Rightarrow> (string \<Rightarrow> check) \<Rightarrow> config \<Rightarrow> check" where
  "validate_dead_letter_at_startup env mkdir writef removef c =
     (let bc = publish_batch (cfg_pipeline c); path = dl_path (pb_dead_letter bc) in
      if on_flush_failure_or_default bc \<noteq> ''dead_letter'' then ok
      else if path = [] then
        failing ''pipeline.publish_batch.dead_letter.path is required when on_flush_failure is dead_letter''
      else
        bind_res (wrap_error ''pipeline.publish_batch.dead_letter.path: '' (fp_abs (ve_cwd env) path)) (\<lambda>abs_path.
          wrap_error ''pipeline.publish_batch.dead_letter.path: '' (validate_writable (ve_cwd env) mkdir writef removef abs_path)))"

section \<open>What a valid configuration satisfies\<close>

declare first_error.simps [simp del] first_error_ok_iff [simp]

lemma validate_config_parts:
  assumes "validate_config env types c = ok"
  shows "validate_watch env (cfg_watch c) = ok" "validate_sink env types c = ok" "validate_parser env types c = ok"
    "validate_transform types c = ok" "validate_timestamp env c = ok" "validate_enrichers types c = ok"
    "validate_filter (filter_types types) (cfg_filter c) = ok" "validate_pipeline env c = ok"
    "validate_logging env c = ok" "validate_metrics env c = ok" "validate_atc env c = ok" "validate_state env c = ok"
  using assms by (simp_all add: validate_config_def)

lemma bind_ok: "bind_res r f = ok \<longleftrightarrow> (\<exists>a. r = Inr a \<and> f a = ok)"
  by (simp add: bind_res_eq_Inr)

lemma abs_rooted:
  assumes "\<forall>d. cwd = Inr d \<longrightarrow> is_rooted d" "fp_abs cwd p = Inr q"
  shows "is_rooted q"
proof (cases "is_rooted p")
  case True
  then show ?thesis using assms(2) clean_rooted(1) by (auto simp: fp_abs_def)
next
  case False
  then obtain d where d: "cwd = Inr d" "q = fp_join [d, p]" using assms(2) by (auto simp: fp_abs_def bind_res_eq_Inr)
  have r: "is_rooted d" using assms(1) d(1) by blast
  then have "d \<noteq> []" by auto
  then have "q = fp_clean (d @ ''/'' @ p)" "is_rooted (d @ ''/'' @ p)"
    using d(2) r by (simp add: fp_join_def, cases d, simp_all)
  then show ?thesis using clean_rooted(1) by simp
qed

text \<open>The absolute path is not at or below the watched directory, element by element.\<close>

definition outside_of :: "val_env \<Rightarrow> string \<Rightarrow> watch_source \<Rightarrow> bool" where
  "outside_of env p s = (case (fp_abs (ve_cwd env) (src_path s), fp_abs (ve_cwd env) p) of
      (Inr wp, Inr q) \<Rightarrow> \<not> prefix (components wp) (components q)
    | _ \<Rightarrow> False)"

lemma outside_ofI:
  assumes "\<forall>d. ve_cwd env = Inr d \<longrightarrow> is_rooted d" "fp_abs (ve_cwd env) (src_path s) = Inr wp" "fp_abs (ve_cwd env) p = Inr q"
    "\<not> path_inside wp q"
  shows "outside_of env p s"
  using path_inside_prefix [of wp q] abs_rooted [OF assms(1)] assms by (simp add: outside_of_def)

lemma outside_of_loop:
  assumes cwd: "\<forall>d. ve_cwd env = Inr d \<longrightarrow> is_rooted d" and q: "fp_abs (ve_cwd env) p = Inr q"
    and loop: "each_source (ve_cwd env) test ss = Inr (u :: unit)" "\<And>wp. test wp s = ok \<Longrightarrow> \<not> path_inside wp q" and s: "s \<in> set ss"
  shows "outside_of env p s"
proof -
  obtain wp where "fp_abs (ve_cwd env) (src_path s) = Inr wp" "test wp s = ok" using loop(1) s by (cases u) (auto simp: each_source_ok)
  then show ?thesis using outside_ofI [OF cwd _ q] loop(2) by blast
qed

lemma reject_okD: "reject_if b msg = ok \<Longrightarrow> \<not> b"
  by (rule reject_ok [THEN iffD1])

lemma first_error_hd: "first_error (c # cs) = ok \<Longrightarrow> c = ok"
  by (simp only: first_error_ok_iff list.set ball_simps)

lemma logging_outside:
  assumes "validate_logging env c = ok" "log_file (cfg_logging c) \<noteq> []" "s \<in> set (watch_entries (cfg_watch c))"
    "\<forall>d. ve_cwd env = Inr d \<longrightarrow> is_rooted d"
  shows "outside_of env (log_file (cfg_logging c)) s"
  using assms(1) assms(2) unfolding validate_logging_def Let_def bind_ok wrap_ok
  by (elim exE conjE) (simp only: if_False bind_ok wrap_ok, elim exE conjE,
      rule outside_of_loop [OF assms(4) _ _ _ assms(3)], assumption, assumption, erule reject_okD [OF first_error_hd])

lemma sink_outside:
  assumes "validate_sink_file_path env c p = ok" "s \<in> set (watch_entries (cfg_watch c))" "\<forall>d. ve_cwd env = Inr d \<longrightarrow> is_rooted d"
  shows "outside_of env p s"
  using assms(1) unfolding validate_sink_file_path_def bind_ok wrap_ok
  by (elim exE conjE) (rule outside_of_loop [OF assms(3) _ _ _ assms(2)], assumption, assumption,
      erule reject_okD [OF first_error_hd])

lemma dead_letter_outside:
  assumes "validate_dead_letter_path env c p = ok" "s \<in> set (watch_entries (cfg_watch c))" "\<forall>d. ve_cwd env = Inr d \<longrightarrow> is_rooted d"
  shows "outside_of env p s"
  using assms(1) unfolding validate_dead_letter_path_def bind_ok wrap_ok
  by (elim exE conjE) (rule outside_of_loop [OF assms(3) _ _ _ assms(2)], assumption, assumption, erule reject_okD)

text \<open>
  C10.
  A valid configuration cannot make the forwarder read what it writes: the log file, the file of
  a file sink and the directory of dead letters are, as absolute paths and element by element, outside
  every watched directory; and the watermark file, where it is inside one, matches none of its patterns.
\<close>

theorem valid_outputs_are_not_watched:
  assumes "validate_config env types c = ok" "s \<in> set (watch_entries (cfg_watch c))"
    "\<forall>d. ve_cwd env = Inr d \<longrightarrow> is_rooted d"
  shows "(log_file (cfg_logging c) \<noteq> [] \<longrightarrow> outside_of env (log_file (cfg_logging c)) s) \<and>
     (\<forall>f. sink_type (cfg_sink c) = ''file'' \<and> sink_file (cfg_sink c) = Some f \<longrightarrow> outside_of env (file_sink_path f) s) \<and>
     (on_flush_failure_or_default (publish_batch (cfg_pipeline c)) = ''dead_letter'' \<longrightarrow>
        outside_of env (dl_path (pb_dead_letter (publish_batch (cfg_pipeline c)))) s) \<and>
     (\<exists>wp q. fp_abs (ve_cwd env) (src_path s) = Inr wp \<and> fp_abs (ve_cwd env) (state_path c) = Inr q \<and>
        \<not> log_file_matches_watch_pattern (ve_match env) q wp (src_patterns s))"
proof (intro conjI allI impI)
  note v = validate_config_parts [OF assms(1)]
  show "outside_of env (log_file (cfg_logging c)) s" if "log_file (cfg_logging c) \<noteq> []"
    using logging_outside [OF v(9) that assms(2,3)] .
  show "outside_of env (file_sink_path f) s" if "sink_type (cfg_sink c) = ''file'' \<and> sink_file (cfg_sink c) = Some f" for f
    using v(2) that by (intro sink_outside [OF _ assms(2,3)]) (auto simp: validate_sink_def Let_def split: if_splits)
  show "outside_of env (dl_path (pb_dead_letter (publish_batch (cfg_pipeline c)))) s"
    if "on_flush_failure_or_default (publish_batch (cfg_pipeline c)) = ''dead_letter''"
    using v(8) that
    by (intro dead_letter_outside [OF _ assms(2,3)]) (simp add: validate_pipeline_def validate_flush_failure_def Let_def)
  show "\<exists>wp q. fp_abs (ve_cwd env) (src_path s) = Inr wp \<and> fp_abs (ve_cwd env) (state_path c) = Inr q \<and>
      \<not> log_file_matches_watch_pattern (ve_match env) q wp (src_patterns s)"
    using v(12) assms(2) by (auto simp: validate_state_def Let_def bind_ok each_source_ok)
qed

text \<open>The default configuration with the three outputs beside a watched directory, and one of them inside.\<close>

definition sample_env :: val_env where
  "sample_env = \<lparr>ve_cwd = Inr ''/srv'',
     ve_durations = (\<lambda>s. if s = ''1s'' \<or> s = ''30s'' \<or> s = ''100ms'' then Inr 1000000000 else failing ''invalid duration''),
     ve_match = (\<lambda>pat s. Inr (pat = ''*.log*'' \<and> s = ''x.log'')), ve_regexp = (\<lambda>s. ok), ve_url = (\<lambda>s. failing ''no url''),
     ve_zone = (\<lambda>s. ok), ve_layout = (\<lambda>l s. ok), ve_upper = (\<lambda>s. s), ve_lower = (\<lambda>s. s)\<rparr>"

definition with_outputs :: "string \<Rightarrow> config" where
  "with_outputs log_path =
     (let c = default_config ''/w''; pc = cfg_pipeline c in
      c\<lparr>cfg_sink := (cfg_sink c)\<lparr>sink_type := ''file'', sink_file := Some \<lparr>file_sink_path = ''../o''\<rparr>\<rparr>,
        cfg_pipeline := pc\<lparr>publish_batch := (publish_batch pc)\<lparr>pb_on_flush_failure := ''dead_letter'',
          pb_dead_letter := \<lparr>dl_path = ''/d'', dl_max_consecutive_batches = 0\<rparr>\<rparr>\<rparr>,
        cfg_logging := (cfg_logging c)\<lparr>log_file := log_path\<rparr>\<rparr>)"

lemma with_outputs_valid: "validate_config sample_env builtin_types (with_outputs ''/wx/l'') = ok"
  by code_simp

lemma valid_outputs_are_not_watched_witness:
  "outside_of sample_env ''/wx/l'' \<lparr>src_path = ''/w'', src_patterns = [''*.log*'']\<rparr> \<and>
     validate_config sample_env builtin_types (with_outputs ''/w/l'') \<noteq> ok"
proof
  have "\<lparr>src_path = ''/w'', src_patterns = [''*.log*'']\<rparr> \<in> set (watch_entries (cfg_watch (with_outputs ''/wx/l'')))"
    by (simp add: with_outputs_def default_config_def watch_entries_def Let_def)
  moreover have "log_file (cfg_logging (with_outputs ''/wx/l'')) = ''/wx/l''" by (simp add: with_outputs_def Let_def)
  ultimately show "outside_of sample_env ''/wx/l'' \<lparr>src_path = ''/w'', src_patterns = [''*.log*'']\<rparr>"
    using valid_outputs_are_not_watched [OF with_outputs_valid] by (simp add: sample_env_def)
  show "validate_config sample_env builtin_types (with_outputs ''/w/l'') \<noteq> ok" by code_simp
qed

end
