(* ===== verification/Metrics.thy ===== *)
theory Metrics
  imports Validate Flush
begin

text \<open>
  Metrics and the management server (\<open>internal/metrics\<close>): the instruments of a collector and the
  methods that record on them, the construction of the server with its routes, and the handlers of
  \<open>/health\<close>, readiness and \<open>/deadletters\<close>.  OpenTelemetry, Prometheus and the process statistics are
  known by their answers.
\<close>

section \<open>The collector\<close>

text \<open>
  An instrument is \<open>None\<close> when it is a nil field, else what was recorded on it: the sum of a counter,
  the values of a histogram, the attributes of every batch flush.  Durations are nanoseconds.
\<close>

record collector =
  c_lines_read :: "int option"
  c_lines_replayed :: "int option"
  c_lines_published :: "int option"
  c_lines_skipped :: "int option"
  c_lines_filtered :: "int option"
  c_buffer_dropped :: "int option"
  c_transform_errors :: "int option"
  c_timestamp_failed :: "int option"
  c_publish_failures :: "int option"
  c_publish_retries :: "int option"
  c_publish_truncations :: "int option"
  c_batch_flushes :: "(string \<times> string) list option"
  c_batch_size :: "int list option"
  c_batch_bytes :: "int list option"
  c_dead_letter_batches :: "int option"
  c_publish_duration :: "int list option"
  c_watermark_errors :: "int option"

text \<open>\<open>noopCollector\<close>: every field is nil; and a collector on which nothing was recorded yet.\<close>

definition noop_collector :: collector where
  "noop_collector = \<lparr>c_lines_read = None, c_lines_replayed = None, c_lines_published = None, c_lines_skipped = None,
     c_lines_filtered = None, c_buffer_dropped = None, c_transform_errors = None, c_timestamp_failed = None,
     c_publish_failures = None, c_publish_retries = None, c_publish_truncations = None, c_batch_flushes = None,
     c_batch_size = None, c_batch_bytes = None, c_dead_letter_batches = None, c_publish_duration = None,
     c_watermark_errors = None\<rparr>"

definition fresh_collector :: collector where
  "fresh_collector = \<lparr>c_lines_read = Some 0, c_lines_replayed = Some 0, c_lines_published = Some 0, c_lines_skipped = Some 0,
     c_lines_filtered = Some 0, c_buffer_dropped = Some 0, c_transform_errors = Some 0, c_timestamp_failed = Some 0,
     c_publish_failures = Some 0, c_publish_retries = Some 0, c_publish_truncations = Some 0, c_batch_flushes = Some [],
     c_batch_size = Some [], c_batch_bytes = Some [], c_dead_letter_batches = Some 0, c_publish_duration = Some [],
     c_watermark_errors = Some 0\<rparr>"

text \<open>The methods, on a pointer that may be nil.\<close>

definition add_count :: "int \<Rightarrow> int option \<Rightarrow> int option" where
  "add_count n = map_option (\<lambda>v. v + n)"

definition add_value :: "'a \<Rightarrow> 'a list option \<Rightarrow> 'a list option" where
  "add_value x = map_option (\<lambda>xs. xs @ [x])"

definition record_line_read :: "int \<Rightarrow> collector option \<Rightarrow> collector option" where
  "record_line_read n = map_option (\<lambda>c. c\<lparr>c_lines_read := add_count n (c_lines_read c)\<rparr>)"

definition record_line_replayed :: "int \<Rightarrow> collector option \<Rightarrow> collector option" where
  "record_line_replayed n = map_option (\<lambda>c. c\<lparr>c_lines_replayed := add_count n (c_lines_replayed c)\<rparr>)"

definition record_line_published :: "collector option \<Rightarrow> collector option" where
  "record_line_published = map_option (\<lambda>c. c\<lparr>c_lines_published := add_count 1 (c_lines_published c)\<rparr>)"

definition record_line_skipped :: "collector option \<Rightarrow> collector option" where
  "record_line_skipped = map_option (\<lambda>c. c\<lparr>c_lines_skipped := add_count 1 (c_lines_skipped c)\<rparr>)"

definition record_line_filtered :: "collector option \<Rightarrow> collector option" where
  "record_line_filtered = map_option (\<lambda>c. c\<lparr>c_lines_filtered := add_count 1 (c_lines_filtered c)\<rparr>)"

definition record_line_buffer_dropped :: "collector option \<Rightarrow> collector option" where
  "record_line_buffer_dropped = map_option (\<lambda>c. c\<lparr>c_buffer_dropped := add_count 1 (c_buffer_dropped c)\<rparr>)"

definition record_transform_error :: "collector option \<Rightarrow> collector option" where
  "record_transform_error = map_option (\<lambda>c. c\<lparr>c_transform_errors := add_count 1 (c_transform_errors c)\<rparr>)"

definition record_timestamp_parse_failure :: "collector option \<Rightarrow> collector option" where
  "record_timestamp_parse_failure = map_option (\<lambda>c. c\<lparr>c_timestamp_failed := add_count 1 (c_timestamp_failed c)\<rparr>)"

definition record_publish_failure :: "collector option \<Rightarrow> collector option" where
  "record_publish_failure = map_option (\<lambda>c. c\<lparr>c_publish_failures := add_count 1 (c_publish_failures c)\<rparr>)"

definition record_publish_retry :: "collector option \<Rightarrow> collector option" where
  "record_publish_retry = map_option (\<lambda>c. c\<lparr>c_publish_retries := add_count 1 (c_publish_retries c)\<rparr>)"

definition record_publish_truncation :: "collector option \<Rightarrow> collector option" where
  "record_publish_truncation = map_option (\<lambda>c. c\<lparr>c_publish_truncations := add_count 1 (c_publish_truncations c)\<rparr>)"

definition record_dead_letter_batch :: "collector option \<Rightarrow> collector option" where
  "record_dead_letter_batch = map_option (\<lambda>c. c\<lparr>c_dead_letter_batches := add_count 1 (c_dead_letter_batches c)\<rparr>)"

definition record_publish_batch_flush :: "string \<Rightarrow> string \<Rightarrow> int \<Rightarrow> int \<Rightarrow> collector option \<Rightarrow> collector option" where
  "record_publish_batch_flush reason outcome count nbytes = map_option (\<lambda>c.
     c\<lparr>c_batch_flushes := add_value (reason, outcome) (c_batch_flushes c), c_batch_size := add_value count (c_batch_size c),
       c_batch_bytes := add_value nbytes (c_batch_bytes c)\<rparr>)"

definition record_publish_duration :: "int \<Rightarrow> collector option \<Rightarrow> collector option" where
  "record_publish_duration d = map_option (\<lambda>c. c\<lparr>c_publish_duration := add_value d (c_publish_duration c)\<rparr>)"

definition record_watermark_flush_error :: "collector option \<Rightarrow> collector option" where
  "record_watermark_flush_error = map_option (\<lambda>c. c\<lparr>c_watermark_errors := add_count 1 (c_watermark_errors c)\<rparr>)"

section \<open>Instruments\<close>

datatype instrument_kind = Int64Counter | Int64Histogram | Float64Histogram | Int64Gauge | Int64UpDownCounter | Float64Gauge

text \<open>Name, kind and unit, in the order of creation; first those of the collector.\<close>

definition collector_instruments :: "(string \<times> instrument_kind \<times> string) list" where
  "collector_instruments =
    [(''log_forwarder.lines.read'', Int64Counter, ''{line}''),
     (''log_forwarder.lines.replayed'', Int64Counter, ''{line}''),
     (''log_forwarder.lines.published'', Int64Counter, ''{line}''),
     (''log_forwarder.lines.skipped'', Int64Counter, ''{line}''),
     (''log_forwarder.lines.filtered'', Int64Counter, ''{line}''),
     (''log_forwarder.pipeline.buffer.dropped'', Int64Counter, ''{line}''),
     (''log_forwarder.transform.errors'', Int64Counter, ''{error}''),
     (''log_forwarder.timestamp.parse_failures'', Int64Counter, ''{record}''),
     (''log_forwarder.publish.failures'', Int64Counter, ''{attempt}''),
     (''log_forwarder.publish.truncations'', Int64Counter, ''{record}''),
     (''log_forwarder.publish.retries'', Int64Counter, ''{retry}''),
     (''log_forwarder.publish.batch.flushes'', Int64Counter, ''{flush}''),
     (''log_forwarder.publish.batch.size'', Int64Histogram, ''{record}''),
     (''log_forwarder.publish.batch.bytes'', Int64Histogram, ''By''),
     (''log_forwarder.publish.dead_letter.batches'', Int64Counter, ''{batch}''),
     (''log_forwarder.publish.duration'', Float64Histogram, ''s''),
     (''log_forwarder.watermark.flush.errors'', Int64Counter, ''{error}'')]"

definition snapshot_instruments :: "(string \<times> instrument_kind \<times> string) list" where
  "snapshot_instruments =
    [(''log_forwarder.files.watched'', Int64Gauge, ''{file}''),
     (''log_forwarder.pipeline.buffer.depth'', Int64Gauge, ''{event}''),
     (''log_forwarder.pipeline.buffer.capacity'', Int64UpDownCounter, ''{event}''),
     (''log_forwarder.publish.buffer.active_bytes'', Int64Gauge, ''By''),
     (''log_forwarder.publish.hibernating'', Int64Gauge, ''{bool}''),
     (''log_forwarder.publish.consecutive_dlq_batches'', Int64Gauge, ''{batch}'')]"

definition process_instruments :: "(string \<times> instrument_kind \<times> string) list" where
  "process_instruments = [(''process.memory.usage'', Int64Gauge, ''By''), (''process.cpu.utilization'', Float64Gauge, ''1'')]"

text \<open>The meter answers the creation of each instrument; the first error ends \<open>newInstruments\<close>.\<close>

definition create_instruments :: "(string \<Rightarrow> check) \<Rightarrow> (string \<times> instrument_kind \<times> string) list \<Rightarrow> check" where
  "create_instruments meter specs = first_error (map (\<lambda>s. meter (fst s)) specs)"

definition new_instruments :: "(string \<Rightarrow> check) \<Rightarrow> collector result" where
  "new_instruments meter =
     bind_res (create_instruments meter (collector_instruments @ snapshot_instruments)) (\<lambda>u. Inr fresh_collector)"

definition register_process_gauges :: "(string \<Rightarrow> check) \<Rightarrow> check" where
  "register_process_gauges meter = create_instruments meter process_instruments"

text \<open>
  \<open>Snapshot\<close>: a function field is \<open>None\<close> when it is nil, else the value it has at the moment of the
  scrape.  What the callbacks of the gauges observe then.
\<close>

record snapshot =
  sn_files_watched :: "int option"
  sn_buffer_depth :: "int option"
  sn_buffer_capacity :: int
  sn_active_bytes :: "int option"
  sn_hibernating :: "int option"
  sn_consecutive_dlq :: "int option"

definition observe_snapshot :: "snapshot \<Rightarrow> (string \<times> int) list" where
  "observe_snapshot sn =
     (let obs = (\<lambda>name v. case v of None \<Rightarrow> [] | Some x \<Rightarrow> [(name, x)]) in
      obs ''log_forwarder.files.watched'' (sn_files_watched sn) @
      obs ''log_forwarder.pipeline.buffer.depth'' (sn_buffer_depth sn) @
      [(''log_forwarder.pipeline.buffer.capacity'', sn_buffer_capacity sn)] @
      obs ''log_forwarder.publish.buffer.active_bytes'' (sn_active_bytes sn) @
      obs ''log_forwarder.publish.hibernating'' (sn_hibernating sn) @
      obs ''log_forwarder.publish.consecutive_dlq_batches'' (sn_consecutive_dlq sn))"

text \<open>An error of the process statistics leaves the gauge without an observation; \<open>uint64\<close> to \<open>int64\<close> wraps.\<close>

definition observe_memory :: "64 word result \<Rightarrow> int list" where
  "observe_memory mem = (case mem of Inl e \<Rightarrow> [] | Inr rss \<Rightarrow> [sint rss])"

definition observe_cpu :: "rat result \<Rightarrow> rat list" where
  "observe_cpu cpu = (case cpu of Inl e \<Rightarrow> [] | Inr percent \<Rightarrow> [percent])"

section \<open>Responses\<close>

record response =
  rs_status :: nat
  rs_headers :: "(string \<times> string) list"
  rs_body :: bytes

text \<open>\<open>json.NewEncoder (w).Encode\<close> ends the body with a newline; \<open>http.Error\<close> writes plain text.\<close>

definition json_response :: "nat \<Rightarrow> bytes \<Rightarrow> response" where
  "json_response status body = \<lparr>rs_status = status, rs_headers = [(''Content-Type'', ''application/json'')], rs_body = body @ [NL]\<rparr>"

definition http_error :: "nat \<Rightarrow> string \<Rightarrow> (string \<times> string) list \<Rightarrow> response" where
  "http_error status msg headers = \<lparr>rs_status = status,
     rs_headers = headers @ [(''Content-Type'', ''text/plain; charset=utf-8''), (''X-Content-Type-Options'', ''nosniff'')],
     rs_body = msg @ [NL]\<rparr>"

definition health_handler :: "nat \<Rightarrow> response" where
  "health_handler pid =
     json_response 200 (encode_struct [(''status'', JStr ''UP''), (''process_id'', JNum (show_int (int pid)))])"

section \<open>Readiness\<close>

text \<open>
  \<open>Readiness\<close>.  The check of the sink is an argument of its own: under a deadline, or under that of the
  request.  \<open>IsHibernating\<close> is its value at the moment of the request, or nil.
\<close>

record readiness =
  rd_snapshot :: snapshot
  rd_check_sink :: "(int option \<Rightarrow> check) option"
  rd_hibernating :: "bool option"
  rd_threshold :: rat
  rd_require_files :: bool
  rd_check_enabled :: bool
  rd_check_timeout :: int

record ready_answer =
  ra_status :: string
  ra_process :: nat
  ra_reason :: string
  ra_detail :: string

definition ready_answer_of :: "string \<Rightarrow> string \<Rightarrow> string \<Rightarrow> ready_answer" where
  "ready_answer_of status reason detail = \<lparr>ra_status = status, ra_process = 0, ra_reason = reason, ra_detail = detail\<rparr>"

text \<open>\<open>scale\<close> is \<open>int64 (float64 (capacity) * threshold)\<close>, a floating-point product.\<close>

definition buffer_threshold_events :: "(int \<Rightarrow> rat \<Rightarrow> int) \<Rightarrow> readiness \<Rightarrow> int" where
  "buffer_threshold_events scale r =
     (let threshold = (if rd_threshold r \<le> 0 then 4 / 5 else rd_threshold r)
      in scale (sn_buffer_capacity (rd_snapshot r)) threshold)"

text \<open>The three tests after the one of hibernation, with the detail of the answer.\<close>

definition sink_failure :: "readiness \<Rightarrow> string option" where
  "sink_failure r =
     (case rd_check_sink r of
        None \<Rightarrow> None
      | Some chk \<Rightarrow>
          if \<not> rd_check_enabled r then None
          else (case chk (if rd_check_timeout r > 0 then Some (rd_check_timeout r) else None) of
                  Inl e \<Rightarrow> Some (err_msg e)
                | Inr u \<Rightarrow> None))"

definition buffer_high :: "(int \<Rightarrow> rat \<Rightarrow> int) \<Rightarrow> readiness \<Rightarrow> string option" where
  "buffer_high scale r =
     (case sn_buffer_depth (rd_snapshot r) of
        None \<Rightarrow> None
      | Some depth \<Rightarrow>
          (let threshold = buffer_threshold_events scale r in
           if sn_buffer_capacity (rd_snapshot r) > 0 \<and> depth > threshold
           then Some (''buffer depth '' @ show_int depth @ '' exceeds threshold '' @ show_int threshold)
           else None))"

definition no_files :: "readiness \<Rightarrow> bool" where
  "no_files r \<longleftrightarrow> rd_require_files r \<and> sn_files_watched (rd_snapshot r) = Some 0"

definition evaluate :: "(int \<Rightarrow> rat \<Rightarrow> int) \<Rightarrow> readiness option \<Rightarrow> ready_answer" where
  "evaluate scale r0 = (case r0 of
      None \<Rightarrow> ready_answer_of ''READY'' [] []
    | Some r \<Rightarrow>
        if rd_hibernating r = Some True then ready_answer_of ''NOT_READY'' ''sink_hibernating'' []
        else
          (case sink_failure r of
             Some detail \<Rightarrow> ready_answer_of ''NOT_READY'' ''sink_unreachable'' detail
           | None \<Rightarrow>
               (case buffer_high scale r of
                  Some detail \<Rightarrow> ready_answer_of ''NOT_READY'' ''pipeline_buffer_high'' detail
                | None \<Rightarrow>
                    if no_files r then ready_answer_of ''NOT_READY'' ''no_files_watched'' []
                    else ready_answer_of ''READY'' [] [])))"

text \<open>The members of the answer; empty \<open>reason\<close> and \<open>detail\<close> are omitted.\<close>

definition ready_struct :: "ready_answer \<Rightarrow> (bytes \<times> jval) list" where
  "ready_struct a =
     [(''status'', JStr (ra_status a)), (''process_id'', JNum (show_int (int (ra_process a))))] @
     (if ra_reason a = [] then [] else [(''reason'', JStr (ra_reason a))]) @
     (if ra_detail a = [] then [] else [(''detail'', JStr (ra_detail a))])"

definition readiness_handler :: "(int \<Rightarrow> rat \<Rightarrow> int) \<Rightarrow> nat \<Rightarrow> readiness option \<Rightarrow> response" where
  "readiness_handler scale pid r =
     (let answer = (evaluate scale r)\<lparr>ra_process := pid\<rparr> in
      json_response (if ra_status answer \<noteq> ''READY'' then 503 else 200) (encode_struct (ready_struct answer)))"

section \<open>Dead letters\<close>

definition dead_letters_enabled :: "string option \<Rightarrow> bool" where
  "dead_letters_enabled d \<longleftrightarrow> (case d of None \<Rightarrow> False | Some dir \<Rightarrow> dir \<noteq> [])"

definition encode_entries :: "dl_entry list \<Rightarrow> bytes" where
  "encode_entries es = CHR ''['' # go_join '','' (map encode_dl_entry es) @ '']''"

definition dead_letters_handler :: "list_env \<Rightarrow> string \<Rightarrow> string \<Rightarrow> disk \<Rightarrow> response" where
  "dead_letters_handler env dir request_method d =
     (if request_method \<noteq> ''GET'' then http_error 405 ''method not allowed'' [(''Allow'', ''GET'')]
      else
        (case list_entries env dir d of
           Inl e \<Rightarrow> http_error 500 (err_msg e) []
         | Inr entries \<Rightarrow> json_response 200 (encode_entries entries)))"

section \<open>The management server\<close>

datatype route = RHealth | RReady | RDeadLetters | RMetrics

type_synonym mux = "(string \<times> route) list"

text \<open>
  \<open>ServeMux.Handle\<close> panics (\<open>None\<close>) when a pattern is invalid or conflicts with one that is registered.
  Patterns without wildcards, methods or hosts conflict when they are equal; what the other ones do is
  the argument \<open>special\<close>.
\<close>

definition literal_pattern :: "string \<Rightarrow> bool" where
  "literal_pattern p \<longleftrightarrow> has_prefix p ''/'' \<and> set p \<inter> {CHR ''{'', CHR ''}'', CHR '' '', CHR 0x09} = {}"

definition mux_handle :: "(string \<Rightarrow> string list \<Rightarrow> bool) \<Rightarrow> string \<Rightarrow> route \<Rightarrow> mux \<Rightarrow> mux option" where
  "mux_handle special p h m =
     (if (if list_all literal_pattern (p # map fst m) then p \<in> set (map fst m) else special p (map fst m)) then None
      else Some (m @ [(p, h)]))"

text \<open>The handler of a clean path: the equal pattern, else the longest one that ends in a slash and begins it.\<close>

fun longest_subtree :: "string \<Rightarrow> mux \<Rightarrow> (string \<times> route) option" where
  "longest_subtree path [] = None"
| "longest_subtree path ((p, h) # m) =
     (let rest = longest_subtree path m in
      if has_suffix p ''/'' \<and> has_prefix path p then
        (case rest of None \<Rightarrow> Some (p, h) | Some (q, k) \<Rightarrow> if length q > length p then rest else Some (p, h))
      else rest)"

definition mux_route :: "mux \<Rightarrow> string \<Rightarrow> route option" where
  "mux_route m path = (case map_of m path of Some h \<Rightarrow> Some h | None \<Rightarrow> map_option snd (longest_subtree path m))"

definition register_routes ::
  "(string \<Rightarrow> string list \<Rightarrow> bool) \<Rightarrow> metrics_config \<Rightarrow> bool \<Rightarrow> string option \<Rightarrow> mux option" where
  "register_routes special c has_readiness dead_letters =
     Option.bind (mux_handle special ''/health'' RHealth []) (\<lambda>m1.
     Option.bind (if has_readiness then mux_handle special (ready_path (metrics_readiness c)) RReady m1 else Some m1) (\<lambda>m2.
     Option.bind (if dead_letters_enabled dead_letters then mux_handle special (dead_letters_path c) RDeadLetters m2 else Some m2) (\<lambda>m3.
       mux_handle special (metrics_path c) RMetrics m3)))"

text \<open>
  \<open>New\<close>.  A collector without a server (metrics are off), with the routes and the address of its
  server, an error, with a note whether the provider was shut down, or a panic of the mux.
\<close>

record metrics_env =
  me_exporter :: check
  me_resource :: check
  me_runtime :: check
  me_host :: check
  me_meter :: "string \<Rightarrow> check"
  me_process :: check
  me_special :: "string \<Rightarrow> string list \<Rightarrow> bool"

datatype metrics_start =
    MetricsOff collector
  | MetricsOn collector mux string
  | MetricsError go_error bool
  | MetricsPanic

definition or_shutdown :: "'a result \<Rightarrow> ('a \<Rightarrow> metrics_start) \<Rightarrow> metrics_start" where
  "or_shutdown r k = (case r of Inl e \<Rightarrow> MetricsError e True | Inr a \<Rightarrow> k a)"

definition new_metrics :: "metrics_env \<Rightarrow> metrics_config \<Rightarrow> bool \<Rightarrow> string option \<Rightarrow> metrics_start" where
  "new_metrics env c has_readiness dead_letters =
     (if \<not> metrics_enabled c then MetricsOff noop_collector
      else
        (case bind_res (wrap_error ''create prometheus exporter: '' (me_exporter env)) (\<lambda>_.
                wrap_error ''create resource: '' (me_resource env)) of
           Inl e \<Rightarrow> MetricsError e False
         | Inr u \<Rightarrow>
             or_shutdown (wrap_error ''start runtime instrumentation: '' (me_runtime env)) (\<lambda>_.
             or_shutdown (wrap_error ''start host instrumentation: '' (me_host env)) (\<lambda>_.
             or_shutdown (new_instruments (me_meter env)) (\<lambda>collector.
             or_shutdown (wrap_error ''open process stats: '' (me_process env)) (\<lambda>_.
             or_shutdown (register_process_gauges (me_meter env)) (\<lambda>_.
               (case register_routes (me_special env) c has_readiness dead_letters of
                  None \<Rightarrow> MetricsPanic
                | Some m \<Rightarrow> MetricsOn collector m (metrics_addr c)))))))))"

text \<open>\<open>Start\<close>: the listener is opened before the server goroutine starts; nothing is opened without a server.\<close>

definition start_server :: "(string \<Rightarrow> check) \<Rightarrow> metrics_start \<Rightarrow> check" where
  "start_server listen ms = (case ms of
      MetricsOn c m addr \<Rightarrow> wrap_error (''listen on '' @ addr @ '': '') (listen addr)
    | _ \<Rightarrow> ok)"

section \<open>The answers of the endpoints\<close>

lemma skip_ws_NL [simp]: "skip_ws [NL] = []"
  by (simp add: skip_ws_def is_ws_def)

lemma parse_struct_value:
  assumes "ms \<noteq> []" "\<forall>kv \<in> set ms. utf8_valid (fst kv) \<and> plain_scalar (snd kv)" "length ms < n"
  shows "parse_value (Suc n) (encode_struct ms @ t) = Some (JObj ms, t)"
proof -
  let ?body = "go_join '','' (map encode_member ms)"
  obtain k v ms' where ms: "ms = (k, v) # ms'" using assms(1) by (cases ms) auto
  have head: "\<exists>r. skip_ws (?body @ CHR ''}'' # t) = DQUOTE # r"
    by (cases "ms' = []") (simp_all add: ms go_join_Cons encode_member_def json_string_def)
  have "parse_members n (?body @ CHR ''}'' # t) = Some (ms, t)"
    using parse_struct_members [OF assms] .
  with head show ?thesis by (auto simp: encode_struct_def Let_def)
qed

lemma parse_struct_elems:
  assumes "mss \<noteq> []" "\<forall>ms \<in> set mss. ms \<noteq> [] \<and> length ms \<le> k \<and> (\<forall>kv \<in> set ms. utf8_valid (fst kv) \<and> plain_scalar (snd kv))"
    "k + length mss + 1 < n"
  shows "parse_elems n (go_join '','' (map encode_struct mss) @ CHR '']'' # t) = Some (map JObj mss, t)"
  using assms
proof (induction mss arbitrary: n)
  case Nil
  then show ?case by simp
next
  case (Cons ms mss)
  obtain n' where n: "n = Suc (Suc n')" "k + length mss + 1 < Suc n'" using Cons.prems(3) by (cases n; cases "n - 1") auto
  have v: "parse_value (Suc n') (encode_struct ms @ r) = Some (JObj ms, r)" for r
    by (rule parse_struct_value) (use Cons.prems n in auto)
  show ?case
  proof (cases "mss = []")
    case True
    then show ?thesis using v [of "CHR '']'' # t"] by (simp add: n(1) is_ws_def del: parse_value.simps)
  next
    case False
    have "parse_elems (Suc n') (go_join '','' (map encode_struct mss) @ CHR '']'' # t) = Some (map JObj mss, t)"
      using Cons.IH [OF False _ n(2)] Cons.prems by simp
    then show ?thesis using False v [of "CHR '','' # go_join '','' (map encode_struct mss) @ CHR '']'' # t"]
      by (simp add: n(1) go_join_Cons del: parse_value.simps parse_elems.simps(2)) (simp add: is_ws_def del: parse_value.simps)
  qed
qed

lemma entry_struct_plain: "dl_storable e \<Longrightarrow> \<forall>kv \<in> set (entry_struct e). utf8_valid (fst kv) \<and> plain_scalar (snd kv)"
  by (auto simp: entry_struct_def plain_scalar_def utf8_valid_names dl_storable_def)

text \<open>
  C23.
  \<open>GET /deadletters\<close> tells clients what the directory holds: the body is one JSON array, and it
  parses to the entries of the listing, field by field and in order; any other method is refused.
\<close>

theorem dead_letters_endpoint_lists_the_directory:
  assumes "list_entries env dir d = Inr es" "list_all dl_storable es"
  shows "rs_status (dead_letters_handler env dir ''GET'' d) = 200 \<and>
    json_parse (rs_body (dead_letters_handler env dir ''GET'' d)) = Some (JArr (map (\<lambda>e. JObj (entry_struct e)) es)) \<and>
    (\<forall>m. m \<noteq> ''GET'' \<longrightarrow> rs_status (dead_letters_handler env dir m d) = 405)"
proof -
  let ?mss = "map entry_struct es" and ?s = "encode_entries es @ [NL]"
  have body: "encode_entries es = CHR ''['' # go_join '','' (map encode_struct ?mss) @ '']''"
    by (simp add: encode_entries_def encode_dl_entry_def [abs_def] comp_def)
  have "parse_value (2 * length ?s + 1) ?s = Some (JArr (map JObj ?mss), [NL])"
  proof (cases "es = []")
    case True
    then show ?thesis by (simp add: encode_entries_def numeral_eq_Suc skip_ws_def is_ws_def)
  next
    case False
    have len: "length ?mss \<le> length (go_join '','' (map encode_struct ?mss))"
      by (rule order.trans [OF _ length_go_join_ge]) (auto simp: encode_struct_def)
    obtain e es' where es: "es = e # es'" using False by (cases es) auto
    have head: "\<exists>r. skip_ws (go_join '','' (map encode_struct ?mss) @ CHR '']'' # [NL]) = CHR ''{'' # r"
      by (cases "es' = []") (simp_all add: es go_join_Cons encode_struct_def skip_ws_def is_ws_def)
    have "7 \<le> length (encode_struct (entry_struct e))" by (simp add: encode_struct_def entry_struct_def go_join_Cons)
    then have "7 \<le> length (go_join '','' (map encode_struct ?mss))"
      by (cases "es' = []") (simp_all add: es go_join_Cons)
    then have small: "7 + length ?mss + 1 < 2 * length ?s" using len by (simp add: body)
    define N where "N = 2 * length ?s"
    have "parse_elems N (go_join '','' (map encode_struct ?mss) @ CHR '']'' # [NL]) = Some (map JObj ?mss, [NL])"
      using parse_struct_elems [of ?mss 7 N "[NL]"] small False assms(2) entry_struct_plain
      by (auto simp: N_def entry_struct_def list_all_iff)
    then show ?thesis using head unfolding N_def [symmetric] by (auto simp: body is_ws_def Let_def)
  qed
  then show ?thesis
    using assms(1)
    by (simp add: dead_letters_handler_def json_response_def http_error_def json_parse_def comp_def)
qed

theorem dead_letters_endpoint_witness:
  "\<exists>ds e. list_entries sample_list_env ''/dlq'' (last ((\<lambda>_. None) # ds)) = Inr [e] \<and> de_event_count e = 1 \<and>
     json_parse (rs_body (dead_letters_handler sample_list_env ''/dlq'' ''GET'' (last ((\<lambda>_. None) # ds)))) =
       Some (JArr [JObj (entry_struct e)])"
proof -
  let ?e = "new_entry (sample_dl_env\<lparr>dle_writes := []\<rparr>) [''{}''] sample_info 3"
  obtain ds where "entry_for_file sample_list_env ''/dlq'' ''t_x.jsonl'' (last ((\<lambda>_. None) # ds)) = Inr ?e"
    using listing_counts_the_batch_witness by blast
  moreover have "fp_base ''t_x.jsonl'' = ''t_x.jsonl''" by (simp add: fp_base_def go_split_def has_prefix_def Let_def)
  then have "committed_name (''t_x.jsonl'', False)" by (simp add: committed_name_def has_suffix_def has_prefix_def)
  ultimately have l: "list_entries sample_list_env ''/dlq'' (last ((\<lambda>_. None) # ds)) = Inr [?e]"
    by (simp add: list_entries_def del: last.simps)
  have "json_parse (rs_body (dead_letters_handler sample_list_env ''/dlq'' ''GET'' (last ((\<lambda>_. None) # ds)))) =
      Some (JArr [JObj (entry_struct ?e)])"
    using dead_letters_endpoint_lists_the_directory [OF l] sample_storable by (simp del: last.simps)
  moreover have "de_event_count ?e = 1" by (simp add: new_entry_def)
  ultimately show ?thesis using l by blast
qed

lemma ready_details_utf8:
  "buffer_high scale r = Some d \<Longrightarrow> utf8_valid d"
  "\<lbrakk>sink_failure r = Some d; \<And>check e. rd_check_sink r = Some check \<Longrightarrow>
      check (if rd_check_timeout r > 0 then Some (rd_check_timeout r) else None) = Inl e \<Longrightarrow> utf8_valid (err_msg e)\<rbrakk> \<Longrightarrow> utf8_valid d"
proof -
  have digits: "\<forall>c \<in> set (show_int i). byte_val c < 128" for i
  proof
    fix c assume "c \<in> set (show_int i)"
    then have "c = CHR ''-'' \<or> (\<exists>n. c \<in> set (show_nat n))" by (auto simp: show_int_def split: if_splits)
    then show "byte_val c < 128" using show_nat_digits [of c] by fastforce
  qed
  show "utf8_valid d" if "buffer_high scale r = Some d"
    using that digits by (intro utf8_valid_ascii) (auto simp: buffer_high_def Let_def split: option.splits if_splits)
  show "utf8_valid d" if "sink_failure r = Some d" "\<And>check e. rd_check_sink r = Some check \<Longrightarrow>
      check (if rd_check_timeout r > 0 then Some (rd_check_timeout r) else None) = Inl e \<Longrightarrow> utf8_valid (err_msg e)"
    using that by (auto simp: sink_failure_def split: option.splits if_splits sum.splits)
qed

text \<open>
  C34.
  Readiness answers with the first obstacle of a list: the pipeline hibernates; the check of the sink is
  enabled and there is one, and under the configured deadline, if it is positive, it fails; a depth of the buffer is known,
  the capacity is positive and the depth is above the capacity times the threshold (0.8 unless positive);
  files are required, their number is known, and it is zero.  Without an obstacle the status is 200, otherwise 503; the
  body is JSON and parses to the status, the process id, the reason, and the detail when there is one: the error
  of the check, or the depth and the threshold.
\<close>

theorem readiness_names_the_first_obstacle:
  assumes "\<And>check e. rd_check_sink r = Some check \<Longrightarrow>
      check (if rd_check_timeout r > 0 then Some (rd_check_timeout r) else None) = Inl e \<Longrightarrow> utf8_valid (err_msg e)"
  shows "let files = sn_files_watched (rd_snapshot r); capacity = sn_buffer_capacity (rd_snapshot r);
      limit = scale capacity (if rd_threshold r > 0 then rd_threshold r else 4 / 5);
      sink_error = (case rd_check_sink r of None \<Rightarrow> None | Some check \<Rightarrow>
        (case check (if rd_check_timeout r > 0 then Some (rd_check_timeout r) else None) of Inl e \<Rightarrow> Some (err_msg e) | Inr u \<Rightarrow> None));
      obstacles = [(rd_hibernating r = Some True, ''sink_hibernating'', []),
        (rd_check_enabled r \<and> sink_error \<noteq> None, ''sink_unreachable'', the sink_error),
        (\<exists>depth. sn_buffer_depth (rd_snapshot r) = Some depth \<and> capacity > 0 \<and> depth > limit, ''pipeline_buffer_high'',
          ''buffer depth '' @ show_int (the (sn_buffer_depth (rd_snapshot r))) @ '' exceeds threshold '' @ show_int limit),
        (rd_require_files r \<and> files = Some 0, ''no_files_watched'', [])];
      answer = readiness_handler scale pid (Some r);
      about = (\<lambda>status. [(''status'', JStr status), (''process_id'', JNum (show_int (int pid)))])
    in case find fst obstacles of
         None \<Rightarrow> rs_status answer = 200 \<and> json_parse (rs_body answer) = Some (JObj (about ''READY''))
       | Some (holds, reason, detail) \<Rightarrow> rs_status answer = 503 \<and>
           json_parse (rs_body answer) = Some (JObj (about ''NOT_READY'' @ [(''reason'', JStr reason)] @
             (if detail = [] then [] else [(''detail'', JStr detail)])))"
proof -
  define a where "a = (evaluate scale (Some r))\<lparr>ra_process := pid\<rparr>"
  have "utf8_valid (ra_detail a)"
    using ready_details_utf8(2) [OF _ assms] ready_details_utf8(1) [of scale r]
    by (auto simp: a_def evaluate_def ready_answer_of_def utf8_valid_ascii split: option.split)
  moreover have "ra_status a \<in> {''READY'', ''NOT_READY''}"
    "ra_reason a \<in> {[], ''sink_hibernating'', ''sink_unreachable'', ''pipeline_buffer_high'', ''no_files_watched''}"
    by (simp_all add: a_def evaluate_def ready_answer_of_def split: option.split)
  ultimately have "\<forall>kv \<in> set (ready_struct a). utf8_valid (fst kv) \<and> plain_scalar (snd kv)"
    by (auto simp: ready_struct_def plain_scalar_def utf8_valid_ascii split: if_splits)
  then have "json_parse (encode_struct (ready_struct a) @ [NL]) = Some (JObj (ready_struct a))"
    by (intro parse_struct_trailing) (simp_all add: ready_struct_def)
  then have body: "json_parse (rs_body (readiness_handler scale pid (Some r))) = Some (JObj (ready_struct a))"
    by (simp add: readiness_handler_def json_response_def Let_def a_def)
  have status: "rs_status (readiness_handler scale pid (Some r)) = (if ra_status a \<noteq> ''READY'' then 503 else 200)"
    by (simp add: readiness_handler_def json_response_def Let_def a_def)
  show ?thesis
  proof (cases "rd_hibernating r = Some True")
    case True
    then show ?thesis by (simp add: Let_def body status a_def evaluate_def ready_answer_of_def ready_struct_def)
  next
    case awake: False
    show ?thesis
    proof (cases "sink_failure r")
      case (Some d)
      then have "rd_check_enabled r" by (simp add: sink_failure_def split: option.splits if_splits)
      then show ?thesis using awake Some
        by (simp add: Let_def body status a_def evaluate_def ready_answer_of_def ready_struct_def) (auto simp: sink_failure_def split: option.splits sum.splits if_splits)
    next
      case sink: None
      have reachable: "\<not> (rd_check_enabled r \<and> (case rd_check_sink r of None \<Rightarrow> None | Some check \<Rightarrow>
          (case check (if rd_check_timeout r > 0 then Some (rd_check_timeout r) else None) of Inl e \<Rightarrow> Some (err_msg e) | Inr u \<Rightarrow> None)) \<noteq> None)"
        using sink by (auto simp: sink_failure_def split: option.splits sum.splits if_splits)
      let ?limit = "scale (sn_buffer_capacity (rd_snapshot r)) (if rd_threshold r > 0 then rd_threshold r else 4 / 5)"
      have limit: "buffer_threshold_events scale r = ?limit" by (auto simp: buffer_threshold_events_def Let_def)
      show ?thesis
      proof (cases "\<exists>depth. sn_buffer_depth (rd_snapshot r) = Some depth \<and> sn_buffer_capacity (rd_snapshot r) > 0 \<and> depth > ?limit")
        case True
        then have "buffer_high scale r = Some (''buffer depth '' @ show_int (the (sn_buffer_depth (rd_snapshot r))) @
            '' exceeds threshold '' @ show_int ?limit)" by (auto simp: buffer_high_def limit Let_def)
        with True awake sink reachable show ?thesis
          by (simp add: Let_def body status a_def evaluate_def ready_answer_of_def ready_struct_def del: not_None_eq)
      next
        case False
        then have "buffer_high scale r = None" by (auto simp: buffer_high_def limit Let_def split: option.split)
        with False awake sink reachable show ?thesis
          by (simp add: Let_def body status a_def evaluate_def ready_answer_of_def ready_struct_def no_files_def del: not_None_eq)
      qed
    qed
  qed
qed

lemma validate_metrics_paths:
  assumes "validate_metrics env c = ok" "metrics_enabled (cfg_metrics c)"
  shows "ready_path (metrics_readiness (cfg_metrics c)) \<noteq> metrics_path (cfg_metrics c)"
  using assms by (simp only: validate_metrics_def Let_def not_True_eq_False if_False first_error_ok_iff
      list.set insert_iff empty_iff ball_simps reject_ok) blast

definition colliding :: "metrics_config \<Rightarrow> string option \<Rightarrow> bool" where
  "colliding c dl \<longleftrightarrow> ''/health'' \<in> {ready_path (metrics_readiness c), metrics_path c} \<or>
     dead_letters_enabled dl \<and> ''/deadletters'' \<in> {ready_path (metrics_readiness c), metrics_path c}"

text \<open>
  The routes of the management server: a valid configuration may still make start-up panic, exactly
  when the readiness or the metrics path is \<open>/health\<close>, or \<open>/deadletters\<close> while dead letters are served;
  otherwise every endpoint is reached under its own path.
\<close>

theorem metrics_routes_are_reachable_or_panic:
  fixes mc :: metrics_config
  assumes "validate_metrics env c = ok" "cfg_metrics c = mc" "metrics_enabled mc"
    and "list_all literal_pattern [ready_path (metrics_readiness mc), metrics_path mc]"
    and "list_all (\<lambda>r. r = ok) [me_exporter menv, me_resource menv, me_runtime menv, me_host menv, me_process menv]"
    and "\<And>name. me_meter menv name = ok"
  shows "if colliding mc dl then new_metrics menv mc True dl = MetricsPanic
    else \<exists>m. new_metrics menv mc True dl = MetricsOn fresh_collector m (metrics_addr mc) \<and>
      mux_route m ''/health'' = Some RHealth \<and> mux_route m (ready_path (metrics_readiness mc)) = Some RReady \<and>
      mux_route m (metrics_path mc) = Some RMetrics \<and>
      (dead_letters_enabled dl \<longrightarrow> mux_route m ''/deadletters'' = Some RDeadLetters)"
proof -
  have lit: "literal_pattern ''/health''" "literal_pattern ''/deadletters''"
    by (simp_all add: literal_pattern_def has_prefix_def)
  have differ: "ready_path (metrics_readiness mc) \<noteq> metrics_path mc"
    using validate_metrics_paths [OF assms(1)] assms(2,3) by simp
  have meter: "create_instruments (me_meter menv) specs = ok" for specs
    by (induction specs) (simp_all add: create_instruments_def assms(6))
  have new: "new_metrics menv mc True dl = (case register_routes (me_special menv) mc True dl of
      None \<Rightarrow> MetricsPanic | Some m \<Rightarrow> MetricsOn fresh_collector m (metrics_addr mc))"
    using assms(3,5) meter by (simp add: new_metrics_def or_shutdown_def wrap_error_def new_instruments_def register_process_gauges_def)
  show ?thesis
    using assms(4) lit differ unfolding new
    by (auto simp: register_routes_def mux_handle_def mux_route_def colliding_def dead_letters_path_def)
qed

definition ok_metrics_env :: metrics_env where
  "ok_metrics_env = \<lparr>me_exporter = ok, me_resource = ok, me_runtime = ok, me_host = ok, me_meter = (\<lambda>n. ok),
     me_process = ok, me_special = (\<lambda>p ps. False)\<rparr>"

definition metrics_on :: "string \<Rightarrow> metrics_config" where
  "metrics_on path = (cfg_metrics (default_config [])) \<lparr>metrics_enabled := True, metrics_path_cfg := path\<rparr>"

theorem metrics_routes_witness:
  "new_metrics ok_metrics_env (metrics_on ''health'') True None = MetricsPanic"
proof -
  have v: "validate_metrics sample_env ((default_config [])\<lparr>cfg_metrics := metrics_on ''health''\<rparr>) = ok" by code_simp
  have "colliding (metrics_on ''health'') None" by code_simp
  then show ?thesis
    using metrics_routes_are_reachable_or_panic [OF v, of "metrics_on ''health''" ok_metrics_env None]
    by (simp add: metrics_on_def ok_metrics_env_def ready_path_def metrics_path_def literal_pattern_def has_prefix_def default_config_def Let_def)
qed

text \<open>The check of the sink fails but is switched off; nine of ten places of the buffer are taken.\<close>

definition full_readiness :: readiness where
  "full_readiness = \<lparr>rd_snapshot = \<lparr>sn_files_watched = Some 0, sn_buffer_depth = Some 9, sn_buffer_capacity = 10,
       sn_active_bytes = Some 0, sn_hibernating = Some 1, sn_consecutive_dlq = Some 0\<rparr>,
     rd_check_sink = Some (\<lambda>d. failing ''refused''), rd_hibernating = Some False, rd_threshold = 1 / 2, rd_require_files = True,
     rd_check_enabled = False, rd_check_timeout = 0\<rparr>"

theorem readiness_names_the_first_obstacle_witness:
  "rs_status (readiness_handler (\<lambda>n t. \<lfloor>of_int n * t\<rfloor>) 42 (Some full_readiness)) = 503 \<and>
     json_parse (rs_body (readiness_handler (\<lambda>n t. \<lfloor>of_int n * t\<rfloor>) 42 (Some full_readiness))) =
       Some (JObj [(''status'', JStr ''NOT_READY''), (''process_id'', JNum ''42''), (''reason'', JStr ''pipeline_buffer_high''),
         (''detail'', JStr ''buffer depth 9 exceeds threshold 5'')])"
proof -
  have u: "utf8_valid (err_msg e)"
    if "rd_check_sink full_readiness = Some check"
      "check (if rd_check_timeout full_readiness > 0 then Some (rd_check_timeout full_readiness) else None) = Inl e" for check e
    using that by (auto simp: full_readiness_def utf8_valid_ascii)
  have n: "show_int 42 = ''42''" "show_int 9 = ''9''" "show_int 5 = ''5''" by code_simp+
  from readiness_names_the_first_obstacle [of full_readiness "\<lambda>n t. \<lfloor>of_int n * t\<rfloor>" 42, OF u] show ?thesis
    by (simp add: full_readiness_def Let_def n)
qed

end
