(* ===== verification/SinkSetup.thy ===== *)
theory SinkSetup
  imports Sinks Validate
begin

text \<open>
  Construction of the sinks (\<open>sink.go\<close>, \<open>kafka_security.go\<close> and the factories of \<open>internal/sink\<close>):
  the registry, and the choice of TLS and SASL for a Kafka dialer.  Certificates and the SCRAM mechanism
  come from libraries, whose answers are arguments.
\<close>

section \<open>TLS and SASL\<close>

text \<open>\<open>'c\<close> is a certificate with its key, \<open>'m\<close> a SCRAM mechanism of the Kafka library.\<close>

datatype scram_hash = SHA256 | SHA512

record ('c, 'm) tls_env =
  te_read :: "string \<Rightarrow> bytes result"
  te_certs :: "bytes \<Rightarrow> bool"
  te_keypair :: "string \<Rightarrow> string \<Rightarrow> 'c result"
  te_scram :: "scram_hash \<Rightarrow> string \<Rightarrow> string \<Rightarrow> 'm result"

record 'c tls_config =
  tc_insecure :: bool
  tc_root_cas :: "bytes option"
  tc_certificates :: "'c list"

datatype 'm sasl_mechanism = PlainMechanism string string | ScramMechanism 'm | OAuthBearer string

record ('c, 'm) dialer =
  dl_tls :: "'c tls_config option"
  dl_sasl :: "'m sasl_mechanism option"

definition build_tls_config :: "('c, 'm) tls_env \<Rightarrow> kafka_tls_config option \<Rightarrow> 'c tls_config result" where
  "build_tls_config env tls0 = (case tls0 of
      None \<Rightarrow> failing ''tls config is required''
    | Some tls \<Rightarrow>
        bind_res (if tls_ca_file tls = [] then Inr None
                  else bind_res (wrap_error ''read kafka tls ca_file: '' (te_read env (tls_ca_file tls))) (\<lambda>pem.
                         if \<not> te_certs env pem then failing ''kafka tls ca_file contains no certificates'' else Inr (Some pem))) (\<lambda>roots.
        bind_res (if tls_cert_file tls \<noteq> [] \<or> tls_key_file tls \<noteq> [] then
                    bind_res (wrap_error ''load kafka tls client certificate: '' (te_keypair env (tls_cert_file tls) (tls_key_file tls)))
                      (\<lambda>cert. Inr [cert])
                  else Inr []) (\<lambda>certs.
          Inr \<lparr>tc_insecure = tls_insecure_skip_verify tls, tc_root_cas = roots, tc_certificates = certs\<rparr>)))"

text \<open>
  The value \<open>None\<close> is a panic: with \<open>OAUTHBEARER\<close> the token is read through a pointer that may be nil.
\<close>

definition build_sasl_mechanism ::
  "val_env \<Rightarrow> ('c, 'm) tls_env \<Rightarrow> kafka_sasl_config option \<Rightarrow> 'm sasl_mechanism result option" where
  "build_sasl_mechanism venv env sasl0 = (case sasl0 of
      None \<Rightarrow> Some (failing ''sasl config is required'')
    | Some sasl \<Rightarrow>
        (let mech = to_upper venv (sasl_mechanism sasl) in
         if mech = ''PLAIN'' then Some (Inr (PlainMechanism (sasl_username sasl) (sasl_password sasl)))
         else if mech = ''SCRAM-SHA-256'' then
           Some (bind_res (te_scram env SHA256 (sasl_username sasl) (sasl_password sasl)) (\<lambda>m. Inr (ScramMechanism m)))
         else if mech = ''SCRAM-SHA-512'' then
           Some (bind_res (te_scram env SHA512 (sasl_username sasl) (sasl_password sasl)) (\<lambda>m. Inr (ScramMechanism m)))
         else if mech = ''OAUTHBEARER'' then map_option (\<lambda>tok. Inr (OAuthBearer (oauth_token tok))) (sasl_oauth sasl)
         else if mech = ''GSSAPI'' then Some (failing ''kafka GSSAPI (Kerberos) is not yet supported by log-forwarder'')
         else Some (failing (''unsupported kafka sasl mechanism '' @ quoted (sasl_mechanism sasl)))))"

text \<open>\<open>Start\<close> of the bearer mechanism: the first message of the client.\<close>

definition bearer_start :: "string \<Rightarrow> bytes" where
  "bearer_start token = ''n,,'' @ [CHR 0x01] @ ''auth=Bearer '' @ token @ [CHR 0x01, CHR 0x01]"

text \<open>\<open>Name\<close>, and \<open>Next\<close>: the exchange is over after the first answer of the server.\<close>

definition bearer_name :: string where
  "bearer_name = ''OAUTHBEARER''"

definition bearer_next :: "bytes \<Rightarrow> bool \<times> bytes \<times> check" where
  "bearer_next challenge = (True, [], ok)"

text \<open>The security section is read through a pointer too.\<close>

definition build_dialer :: "val_env \<Rightarrow> ('c, 'm) tls_env \<Rightarrow> kafka_config \<Rightarrow> ('c, 'm) dialer result option" where
  "build_dialer venv env k =
     (let protocol = security_protocol venv k in
      if protocol = ''PLAINTEXT'' then Some (Inr \<lparr>dl_tls = None, dl_sasl = None\<rparr>)
      else if protocol = ''SSL'' then
        map_option (\<lambda>sec. bind_res (build_tls_config env (sec_tls sec)) (\<lambda>t. Inr \<lparr>dl_tls = Some t, dl_sasl = None\<rparr>)) (kafka_security k)
      else if protocol = ''SASL_PLAINTEXT'' then
        Option.bind (kafka_security k) (\<lambda>sec. map_option (\<lambda>r. bind_res r (\<lambda>m. Inr \<lparr>dl_tls = None, dl_sasl = Some m\<rparr>))
          (build_sasl_mechanism venv env (sec_sasl sec)))
      else if protocol = ''SASL_SSL'' then
        Option.bind (kafka_security k) (\<lambda>sec.
          (case build_tls_config env (sec_tls sec) of
             Inl e \<Rightarrow> Some (Inl e)
           | Inr t \<Rightarrow> map_option (\<lambda>r. bind_res r (\<lambda>m. Inr \<lparr>dl_tls = Some t, dl_sasl = Some m\<rparr>))
                        (build_sasl_mechanism venv env (sec_sasl sec))))
      else Some (failing (''unsupported kafka security protocol '' @ quoted protocol)))"

section \<open>The factories\<close>

text \<open>\<open>newKafkaWriter\<close>: what it asks of the writer of the Kafka library; times in nanoseconds, one acknowledgement.\<close>

record ('c, 'm) kafka_writer =
  kw_brokers :: "string list"
  kw_topic :: string
  kw_batch_timeout :: int
  kw_acks :: int
  kw_async :: bool
  kw_dialer :: "('c, 'm) dialer"

definition new_kafka_writer :: "kafka_config \<Rightarrow> ('c, 'm) dialer \<Rightarrow> ('c, 'm) kafka_writer" where
  "new_kafka_writer k d = \<lparr>kw_brokers = kafka_brokers k, kw_topic = kafka_topic k, kw_batch_timeout = 10000000,
     kw_acks = 1, kw_async = False, kw_dialer = d\<rparr>"

datatype ('c, 'm) built_sink =
    KafkaSink kafka_config "('c, 'm) dialer" "('c, 'm) kafka_writer"
  | FileSink string
  | HttpSink string string int
  | CustomSink string

type_synonym ('c, 'm) sink_factory = "sink_config \<Rightarrow> ('c, 'm) built_sink result option"

definition new_kafka_sink :: "val_env \<Rightarrow> ('c, 'm) tls_env \<Rightarrow> ('c, 'm) sink_factory" where
  "new_kafka_sink venv env cfg = (case sink_kafka cfg of
      None \<Rightarrow> Some (failing ''sink.kafka is required'')
    | Some k \<Rightarrow> map_option (\<lambda>r. bind_res (wrap_error ''kafka dialer: '' r) (\<lambda>d. Inr (KafkaSink k d (new_kafka_writer k d)))) (build_dialer venv env k))"

definition new_file_sink :: "('c, 'm) sink_factory" where
  "new_file_sink cfg = Some (case sink_file cfg of
      None \<Rightarrow> failing ''sink.file.path is required''
    | Some f \<Rightarrow> if file_sink_path f = [] then failing ''sink.file.path is required'' else Inr (FileSink (file_sink_path f)))"

definition new_http_noauth_sink :: "val_env \<Rightarrow> ('c, 'm) sink_factory" where
  "new_http_noauth_sink venv cfg = Some (case sink_http_noauth cfg of
      None \<Rightarrow> failing ''sink.http_noauth is required''
    | Some h \<Rightarrow> Inr (HttpSink (http_url h) (http_method_or_default h) (http_timeout_duration (ve_durations venv) h)))"

text \<open>The registry after \<open>init\<close>, with what extensions registered later; the order of the names in the error is that of a Go map.\<close>

definition sink_registry :: "val_env \<Rightarrow> ('c, 'm) tls_env \<Rightarrow> (string \<rightharpoonup> ('c, 'm) sink_factory) \<Rightarrow> string \<rightharpoonup> ('c, 'm) sink_factory" where
  "sink_registry venv env custom =
     [''kafka'' \<mapsto> new_kafka_sink venv env, ''file'' \<mapsto> new_file_sink, ''http-noauth'' \<mapsto> new_http_noauth_sink venv] ++ custom"

definition new_sink :: "(string \<rightharpoonup> ('c, 'm) sink_factory) \<Rightarrow> string list \<Rightarrow> ('c, 'm) sink_factory" where
  "new_sink reg names cfg =
     (let ty = (if sink_type cfg = [] then ''kafka'' else sink_type cfg) in
      case reg ty of
        None \<Rightarrow> Some (failing (''unknown sink type '' @ quoted ty @ registered names))
      | Some factory \<Rightarrow> factory cfg)"

section \<open>A valid sink configuration builds\<close>

declare first_error.simps [simp del] first_error_ok_iff [simp]

text \<open>Every answer of the libraries is good.\<close>

definition tls_answers :: "('c, 'm) tls_env \<Rightarrow> bool" where
  "tls_answers env \<longleftrightarrow> (\<forall>p. \<exists>pem. te_read env p = Inr pem \<and> te_certs env pem) \<and>
     (\<forall>c k. \<exists>cert. te_keypair env c k = Inr cert) \<and> (\<forall>h u p. \<exists>m. te_scram env h u p = Inr m)"

lemma tls_builds:
  assumes "tls_answers env"
  shows "\<exists>t. build_tls_config env (Some tls) = Inr t \<and> tc_insecure t = tls_insecure_skip_verify tls \<and>
     (tc_root_cas t = None \<longleftrightarrow> tls_ca_file tls = [])"
proof -
  obtain pem cert where "te_read env (tls_ca_file tls) = Inr pem" "te_certs env pem"
    "te_keypair env (tls_cert_file tls) (tls_key_file tls) = Inr cert"
    using assms by (meson tls_answers_def)
  then show ?thesis by (simp add: build_tls_config_def wrap_error_def)
qed

text \<open>What the validation of the security section lets through.\<close>

lemma validate_kafka_security:
  assumes "validate_kafka venv k = ok"
  shows "security_protocol venv k \<in> {''PLAINTEXT'', ''SSL'', ''SASL_PLAINTEXT'', ''SASL_SSL''}"
    "kafka_security k = Some sec \<Longrightarrow> validate_tls (security_protocol venv k) sec = ok \<and> validate_sasl venv (security_protocol venv k) sec = ok"
  using assms
  by (simp_all only: validate_kafka_def Let_def first_error_ok_iff list.set insert_iff ball_simps reject_ok option.case not_not simp_thms)

lemma builtin_sink_types: "known_type (sink_types builtin_types) ty \<longleftrightarrow> ty \<in> {''kafka'', ''file'', ''http-noauth''}"
  by (simp add: known_type_def builtin_types_def register_all_def register_type_def gm_get_put gm_get_empty)

lemma validated_tls:
  assumes "validate_tls protocol sec = ok" "protocol \<in> {''SSL'', ''SASL_SSL''}"
  shows "sec_tls sec \<noteq> None"
  using assms by (cases "sec_tls sec") (auto simp: validate_tls_def)

lemma validated_sasl:
  assumes "validate_sasl venv protocol sec = ok" "protocol \<in> {''SASL_PLAINTEXT'', ''SASL_SSL''}"
  obtains sasl where "sec_sasl sec = Some sasl"
    "to_upper venv (sasl_mechanism sasl) \<in> {''PLAIN'', ''SCRAM-SHA-256'', ''SCRAM-SHA-512'', ''GSSAPI'', ''OAUTHBEARER''}"
    "to_upper venv (sasl_mechanism sasl) = ''OAUTHBEARER'' \<Longrightarrow> sasl_oauth sasl \<noteq> None"
proof (cases "sec_sasl sec")
  case None
  then show ?thesis using assms by (auto simp: validate_sasl_def)
next
  case (Some sasl)
  have "to_upper venv (sasl_mechanism sasl) \<in> {''PLAIN'', ''SCRAM-SHA-256'', ''SCRAM-SHA-512'', ''GSSAPI'', ''OAUTHBEARER''}"
    using assms Some by (auto simp: validate_sasl_def Let_def split: if_splits)
  moreover have "sasl_oauth sasl \<noteq> None" if "to_upper venv (sasl_mechanism sasl) = ''OAUTHBEARER''"
    using assms Some that by (cases "sasl_oauth sasl") (auto simp: validate_sasl_def Let_def)
  ultimately show ?thesis using that Some by blast
qed

lemma sasl_builds:
  assumes "validate_sasl venv protocol sec = ok" "protocol \<in> {''SASL_PLAINTEXT'', ''SASL_SSL''}"
  shows "build_sasl_mechanism venv env (sec_sasl sec) \<noteq> None"
    "\<lbrakk>tls_answers env; \<And>sasl. sec_sasl sec = Some sasl \<Longrightarrow> to_upper venv (sasl_mechanism sasl) \<noteq> ''GSSAPI''\<rbrakk> \<Longrightarrow>
       \<exists>m. build_sasl_mechanism venv env (sec_sasl sec) = Some (Inr m)"
proof -
  obtain sasl where sasl: "sec_sasl sec = Some sasl"
    "to_upper venv (sasl_mechanism sasl) \<in> {''PLAIN'', ''SCRAM-SHA-256'', ''SCRAM-SHA-512'', ''GSSAPI'', ''OAUTHBEARER''}"
    "to_upper venv (sasl_mechanism sasl) = ''OAUTHBEARER'' \<Longrightarrow> sasl_oauth sasl \<noteq> None"
    using validated_sasl [OF assms] by blast
  show "build_sasl_mechanism venv env (sec_sasl sec) \<noteq> None"
    using sasl by (auto simp: build_sasl_mechanism_def)
  assume tls: "tls_answers env" and no: "\<And>sasl. sec_sasl sec = Some sasl \<Longrightarrow> to_upper venv (sasl_mechanism sasl) \<noteq> ''GSSAPI''"
  obtain m1 m2 where "te_scram env SHA256 (sasl_username sasl) (sasl_password sasl) = Inr m1"
    "te_scram env SHA512 (sasl_username sasl) (sasl_password sasl) = Inr m2" using tls by (meson tls_answers_def)
  then show "\<exists>m. build_sasl_mechanism venv env (sec_sasl sec) = Some (Inr m)"
    using sasl no [OF sasl(1)] by (auto simp: build_sasl_mechanism_def)
qed

definition dialer_fits :: "val_env \<Rightarrow> kafka_config \<Rightarrow> ('c, 'm) dialer \<Rightarrow> bool" where
  "dialer_fits venv k d \<longleftrightarrow>
     (dl_tls d \<noteq> None \<longleftrightarrow> security_protocol venv k \<in> {''SSL'', ''SASL_SSL''}) \<and>
     (dl_sasl d \<noteq> None \<longleftrightarrow> security_protocol venv k \<in> {''SASL_PLAINTEXT'', ''SASL_SSL''})"

definition kerberos :: "val_env \<Rightarrow> kafka_config \<Rightarrow> bool" where
  "kerberos venv k \<longleftrightarrow> (case Option.bind (kafka_security k) sec_sasl of
      None \<Rightarrow> False | Some sasl \<Rightarrow> to_upper venv (sasl_mechanism sasl) = ''GSSAPI'')"

lemma dialer_builds:
  assumes "validate_kafka venv k = ok"
  shows "build_dialer venv env k \<noteq> None"
    "\<lbrakk>tls_answers env; \<not> kerberos venv k\<rbrakk> \<Longrightarrow> \<exists>d. build_dialer venv env k = Some (Inr d) \<and> dialer_fits venv k d"
proof -
  note v = validate_kafka_security [OF assms]
  show "build_dialer venv env k \<noteq> None"
  proof (cases "kafka_security k")
    case None
    then show ?thesis by (simp add: build_dialer_def security_protocol_def)
  next
    case (Some sec)
    then show ?thesis using v(1) v(2) [OF Some] sasl_builds(1) [of venv _ sec env]
      by (auto simp: build_dialer_def Let_def split: sum.split)
  qed
  assume tls: "tls_answers env" and no: "\<not> kerberos venv k"
  show "\<exists>d. build_dialer venv env k = Some (Inr d) \<and> dialer_fits venv k d"
  proof (cases "kafka_security k")
    case None
    then show ?thesis by (simp add: build_dialer_def security_protocol_def dialer_fits_def)
  next
    case (Some sec)
    define pr where "pr = security_protocol venv k"
    have nk: "sec_sasl sec = Some sasl \<Longrightarrow> to_upper venv (sasl_mechanism sasl) \<noteq> ''GSSAPI''" for sasl
      using no Some by (simp add: kerberos_def)
    have sa: "\<exists>m. build_sasl_mechanism venv env (sec_sasl sec) = Some (Inr m)" if "pr \<in> {''SASL_PLAINTEXT'', ''SASL_SSL''}"
      using sasl_builds(2) [of venv pr sec env, OF _ that tls nk] v(2) [OF Some] by (simp add: pr_def)
    have tl: "\<exists>t. build_tls_config env (sec_tls sec) = Inr t" if p: "pr \<in> {''SSL'', ''SASL_SSL''}"
    proof -
      have "sec_tls sec \<noteq> None" using validated_tls [of pr sec, OF _ p] v(2) [OF Some] by (simp add: pr_def)
      then obtain x where "sec_tls sec = Some x" by blast
      then show ?thesis using tls_builds [OF tls, of x] by auto
    qed
    have "pr \<in> {''PLAINTEXT'', ''SSL'', ''SASL_PLAINTEXT'', ''SASL_SSL''}" using v(1) by (simp add: pr_def)
    then show ?thesis using sa tl Some by (auto simp: build_dialer_def dialer_fits_def pr_def [symmetric] Let_def)
  qed
qed

text \<open>
  C30.
  A valid configuration has its sink: the constructor never panics, and when the certificates and
  mechanisms it names exist it builds the sink of the configured kind; a Kafka dialer then has TLS and
  SASL exactly where the security protocol asks for them.  (\<open>GSSAPI\<close>, which validation accepts, is the
  documented exception.)
\<close>

theorem valid_sink_is_constructed:
  assumes "validate_sink venv builtin_types c = ok"
  shows "new_sink (sink_registry venv env Map.empty) names (cfg_sink c) \<noteq> None \<and>
    (tls_answers env \<and> (\<forall>k. sink_kafka (cfg_sink c) = Some k \<longrightarrow> \<not> kerberos venv k) \<longrightarrow>
      (\<exists>s. new_sink (sink_registry venv env Map.empty) names (cfg_sink c) = Some (Inr s) \<and>
        (case s of KafkaSink k d wr \<Rightarrow> wr = new_kafka_writer k d \<and> sink_kafka (cfg_sink c) = Some k \<and> dialer_fits venv k d
         | FileSink p \<Rightarrow> p \<noteq> [] \<and> map_option file_sink_path (sink_file (cfg_sink c)) = Some p
         | HttpSink u m t \<Rightarrow> u \<noteq> [] \<and> map_option http_url (sink_http_noauth (cfg_sink c)) = Some u
         | CustomSink n \<Rightarrow> False)))"
proof -
  define ty where "ty = (if sink_type (cfg_sink c) = [] then ''kafka'' else sink_type (cfg_sink c))"
  have ns: "new_sink (sink_registry venv env Map.empty) names (cfg_sink c) =
      (if ty = ''kafka'' then new_kafka_sink venv env (cfg_sink c) else if ty = ''file'' then new_file_sink (cfg_sink c)
       else new_http_noauth_sink venv (cfg_sink c))" if "ty \<in> {''kafka'', ''file'', ''http-noauth''}"
    using that unfolding new_sink_def Let_def ty_def [symmetric] by (auto simp: sink_registry_def)
  have v: "validate_sink venv builtin_types c = ok" using assms .
  then have mem: "ty \<in> {''kafka'', ''file'', ''http-noauth''}"
    unfolding validate_sink_def Let_def ty_def [symmetric] builtin_sink_types by (simp split: if_splits)
  consider "ty = ''kafka''" | "ty = ''file''" | "ty = ''http-noauth''" using mem by blast
  then show ?thesis
  proof cases
    case 1
    then obtain k where k: "sink_kafka (cfg_sink c) = Some k" "validate_kafka venv k = ok"
      using v unfolding validate_sink_def Let_def ty_def [symmetric] builtin_sink_types by (auto split: option.splits)
    note d = dialer_builds [OF k(2), of env]
    show ?thesis unfolding ns [OF mem] using 1 k(1) d by (auto simp: new_kafka_sink_def wrap_error_def)
  next
    case 2
    then obtain f where "sink_file (cfg_sink c) = Some f" "file_sink_path f \<noteq> []"
      using v unfolding validate_sink_def Let_def ty_def [symmetric] builtin_sink_types
      by (auto split: option.splits if_splits)
    then show ?thesis unfolding ns [OF mem] using 2 by (simp add: new_file_sink_def)
  next
    case 3
    then obtain h where "sink_http_noauth (cfg_sink c) = Some h" "validate_http_noauth venv h = ok"
      using v unfolding validate_sink_def Let_def ty_def [symmetric] builtin_sink_types by (auto split: option.splits)
    moreover from this(2) have "http_url h \<noteq> []"
      unfolding validate_http_noauth_def by (rule reject_okD [OF first_error_hd])
    ultimately show ?thesis unfolding ns [OF mem] using 3 by (simp add: new_http_noauth_sink_def)
  qed
qed

definition secure_kafka :: kafka_config where
  "secure_kafka = \<lparr>kafka_brokers = [''b:9093''], kafka_topic = ''t'', kafka_connect_timeout = [],
     kafka_security = Some \<lparr>sec_protocol = ''sasl_ssl'',
       sec_tls = Some \<lparr>tls_ca_file = ''/ca'', tls_cert_file = [], tls_key_file = [], tls_insecure_skip_verify = False\<rparr>,
       sec_sasl = Some \<lparr>sasl_mechanism = ''plain'', sasl_username = ''u'', sasl_password = ''p'', sasl_kerberos = None,
         sasl_oauth = None\<rparr>\<rparr>\<rparr>"

definition secure_config :: config where
  "secure_config = (default_config ''/w'')\<lparr>cfg_sink := \<lparr>sink_type = [], sink_file = None, sink_kafka = Some secure_kafka,
     sink_http_noauth = None\<rparr>\<rparr>"

definition sample_tls :: "(unit, unit) tls_env" where
  "sample_tls = \<lparr>te_read = (\<lambda>p. Inr ''pem''), te_certs = (\<lambda>b. True), te_keypair = (\<lambda>c k. Inr ()), te_scram = (\<lambda>h u p. Inr ())\<rparr>"

theorem valid_sink_is_constructed_witness:
  "\<exists>d. new_sink (sink_registry sample_env sample_tls Map.empty) [] (cfg_sink secure_config) = Some (Inr (KafkaSink secure_kafka d (new_kafka_writer secure_kafka d))) \<and>
     dl_tls d \<noteq> None \<and> dl_sasl d \<noteq> None"
proof -
  have v: "validate_sink sample_env builtin_types secure_config = ok" "\<not> kerberos sample_env secure_kafka"
    "security_protocol sample_env secure_kafka = ''SASL_SSL''" by code_simp+
  have "tls_answers sample_tls" by (simp add: tls_answers_def sample_tls_def)
  moreover have "\<forall>k. sink_kafka (cfg_sink secure_config) = Some k \<longrightarrow> \<not> kerberos sample_env k"
    using v(2) by (simp add: secure_config_def)
  ultimately obtain s where s: "new_sink (sink_registry sample_env sample_tls Map.empty) [] (cfg_sink secure_config) = Some (Inr s)"
    "case s of KafkaSink k d wr \<Rightarrow> wr = new_kafka_writer k d \<and> sink_kafka (cfg_sink secure_config) = Some k \<and> dialer_fits sample_env k d
       | FileSink p \<Rightarrow> p \<noteq> [] \<and> map_option file_sink_path (sink_file (cfg_sink secure_config)) = Some p
       | HttpSink u m t \<Rightarrow> u \<noteq> [] \<and> map_option http_url (sink_http_noauth (cfg_sink secure_config)) = Some u
       | CustomSink n \<Rightarrow> False"
    using valid_sink_is_constructed [OF v(1), of sample_tls "[]"] by blast
  then show ?thesis using v(3)
    by (cases s) (auto simp: secure_config_def dialer_fits_def)
qed

end
