(* ===== verification/Restart.thy ===== *)
theory Restart
  imports Pipeline
begin

text \<open>
  Watcher, pipeline and watermark store together, across a crash: what the sink holds, what the disk
  remembers and what the next process reads.
\<close>

section \<open>Where the next process begins\<close>

text \<open>The table says that the first \<open>n\<close> lines of the file were dealt with.\<close>

definition resume_at :: "string \<Rightarrow> nat \<Rightarrow> bytes \<Rightarrow> wm_files \<Rightarrow> nat \<Rightarrow> bool" where
  "resume_at path inode data m n \<longleftrightarrow>
     (let es = line_events path inode 0 data in
      n \<le> length es \<and>
      gm_get m path = (if n = 0 then None else Some \<lparr>w_offset = int (le_offset (es ! (n - 1))), w_inode = inode\<rparr>))"

lemma line_events_distinct: "distinct (line_events p i off data)"
  using line_events_sorted [of p i off data] by (simp add: strict_sorted_iff distinct_map)

lemma resume_at_grown:
  assumes "resume_at path inode data m n" "grows_by_lines [data, data2]"
  shows "resume_at path inode data2 m n"
    "take n (line_events path inode 0 data2) = take n (line_events path inode 0 data)"
proof -
  obtain more where more: "data2 = data @ more" "data = [] \<or> last data = NL"
    using assms(2) has_prefix_append by auto
  have es: "line_events path inode 0 data2 = line_events path inode 0 data @ line_events path inode (length data) more"
    using line_events_append [OF more(2)] more(1) by simp
  show "resume_at path inode data2 m n" "take n (line_events path inode 0 data2) = take n (line_events path inode 0 data)"
    using assms(1) es by (auto simp: resume_at_def Let_def nth_append)
qed

text \<open>The answers of the file system under which a file can be opened and read.\<close>

definition readable :: "fs \<Rightarrow> string \<Rightarrow> nat \<Rightarrow> bool" where
  "readable fsys path inode \<longleftrightarrow> file_inode fsys path = Inr inode \<and> fs_open fsys path = Inr inode \<and>
     (\<forall>off. fs_seek fsys inode off = ok) \<and> fs_fstat fsys inode = ok \<and> fs_fin fsys inode = None"

lemma tail_from_offset:
  assumes "readable fsys path inode"
    "initial_offset marks path inode = (int off, resumed)"
  shows "\<exists>files l. tail_file ch fsys marks path gm_empty empty_log = (files, l, None) \<and>
     tl_events l = delivered ch (line_events path inode off (drop off (fs_data fsys inode)))"
proof -
  define st where "st = \<lparr>f_path = path, f_handle = inode, f_offset = off, f_inode = inode,
      f_resumed = resumed, f_resume_offset = off, f_size_at_open = length (fs_data fsys inode)\<rparr>"
  have op: "open_tail fsys marks path inode = Inr st"
    using assms by (simp add: open_tail_def readable_def st_def)
  obtain st' l r where rs: "read_state ch fsys st empty_log = (st', l, r)" by (metis prod_cases3)
  have "read_new_lines ch None st (drop off (fs_data fsys inode)) empty_log = (st', l, r)"
    using rs assms(1) by (simp add: read_state_def st_def readable_def)
  from read_new_lines_delivers [OF this]
  have "tl_events l = delivered ch (line_events path inode off (drop off (fs_data fsys inode)))" "r = None"
    by (simp_all add: st_def empty_log_def split: if_splits)
  moreover have "tail_file ch fsys marks path gm_empty empty_log = (gm_put gm_empty path st', l, r)"
    using assms(1) op rs by (simp add: tail_file_def readable_def)
  ultimately show ?thesis by simp
qed

lemma tail_resumes_at:
  assumes "resume_at path inode (fs_data fsys inode) m n" "readable fsys path inode"
  shows "\<exists>files l. tail_file ch fsys (gm_get m) path gm_empty empty_log = (files, l, None) \<and>
     tl_events l = delivered ch (drop n (line_events path inode 0 (fs_data fsys inode)))"
proof (cases "n = 0")
  case True
  then have "initial_offset (gm_get m) path inode = (int 0, False)"
    using assms(1) by (simp add: initial_offset_def resume_at_def Let_def)
  from tail_from_offset [OF assms(2) this] show ?thesis using True by simp
next
  case False
  define es where "es = line_events path inode 0 (fs_data fsys inode)"
  define e where "e = es ! (n - 1)"
  have n: "n - 1 < length es" "gm_get m path = Some \<lparr>w_offset = int (le_offset e), w_inode = inode\<rparr>"
    using assms(1) False by (auto simp: resume_at_def Let_def es_def e_def)
  then have off: "initial_offset (gm_get m) path inode = (int (le_offset e), True)" by (simp add: initial_offset_def)
  have mem: "e \<in> set es" using n(1) by (simp add: e_def)
  then obtain pre where pre: "es = pre @ e # line_events path inode (le_offset e) (drop (le_offset e) (fs_data fsys inode))"
    using line_events_resume [of e path inode 0 "fs_data fsys inode"] by (auto simp: es_def)
  have d: "distinct es" using line_events_distinct by (simp add: es_def)
  have "length pre < length es" using arg_cong [OF pre, of length] by simp
  moreover have "es ! length pre = e" by (subst pre) simp
  ultimately have "length pre = n - 1"
    using nth_eq_iff_index_eq [OF d _ n(1)] by (simp add: e_def)
  then have "drop n es = line_events path inode (le_offset e) (drop (le_offset e) (fs_data fsys inode))"
    using False by (subst pre) (simp add: drop_Cons')
  then show ?thesis using tail_from_offset [OF assms(2) off] by (simp add: es_def)
qed

section \<open>Moving through the events of a file\<close>

text \<open>The records of the file are groups of the lines that follow: after some records of the list the table
stands at the last line of the last of them.\<close>

lemma mark_events_resume:
  assumes "events_of_path path evs = map event_of gs" "\<forall>g \<in> set gs. g \<noteq> []"
    "drop n (line_events path inode 0 data) = concat gs @ rest"
    "resume_at path inode data m n"
  shows "resume_at path inode data (mark_events (take j evs) m)
     (n + length (concat (take (length (events_of_path path (take j evs))) gs)))"
  using assms
proof (induction evs arbitrary: m n j gs)
  case Nil
  then show ?case by (simp add: events_of_path_def)
next
  case (Cons ev evs)
  show ?case
  proof (cases j)
    case 0
    then show ?thesis using Cons.prems by (simp add: events_of_path_def)
  next
    case (Suc i)
    show ?thesis
    proof (cases "ev_path ev = path")
      case False
      then have "resume_at path inode data (event_mark ev m) n"
        using Cons.prems(4) by (simp add: resume_at_def event_mark_def gm_get_put)
      from Cons.IH [OF _ Cons.prems(2,3) this] show ?thesis using Cons.prems(1) False Suc by (simp add: events_of_path_def)
    next
      case True
      define es where "es = line_events path inode 0 data"
      obtain g hs where gs: "gs = g # hs" "ev = event_of g" "events_of_path path evs = map event_of hs"
        using Cons.prems(1) True by (cases gs) (auto simp: events_of_path_def)
      have g: "g \<noteq> []" and dr: "drop n es = g @ concat hs @ rest" using Cons.prems(2,3) gs(1) by (simp_all add: es_def)
      have "length g > 0" using g by simp
      moreover have "length es - n = length g + (length (concat hs) + length rest)"
        using arg_cong [OF dr, of length] by (simp del: length_concat)
      ultimately have le: "n + length g \<le> length es" "n < length es" by linarith+
      have "last g = es ! (n + length g - 1)"
        using arg_cong [OF dr, of "\<lambda>xs. xs ! (length g - 1)"] g le \<open>length g > 0\<close>
        by (simp add: last_conv_nth nth_append Nat.add_diff_assoc Suc_leI)
      moreover have "es ! (n + length g - 1) \<in> set es" using le g by simp
      then have "le_inode (es ! (n + length g - 1)) = inode" using line_events_off [of _ path inode 0 data] by (simp add: es_def)
      ultimately have "resume_at path inode data (event_mark ev m) (n + length g)"
        using le g gs(2) True by (simp add: resume_at_def Let_def event_mark_def gm_get_put event_of_def es_def)
      moreover have "drop (n + length g) (line_events path inode 0 data) = concat hs @ rest"
        using arg_cong [OF dr, of "drop (length g)"] by (simp add: es_def add.commute)
      ultimately have "resume_at path inode data (mark_events (take i evs) (event_mark ev m))
          (n + length g + length (concat (take (length (events_of_path path (take i evs))) hs)))"
        using Cons.IH [OF gs(3)] Cons.prems(2) gs(1) by simp
      then show ?thesis using gs(1) True Suc by (simp add: events_of_path_def add.assoc)
    qed
  qed
qed

section \<open>What processing does to the disk\<close>

text \<open>The disks of a world went on as a run of the store.\<close>

definition stores_ran :: "wm_op list \<Rightarrow> wm_store \<Rightarrow> 'k world \<Rightarrow> wm_store \<Rightarrow> 'k world \<Rightarrow> bool" where
  "stores_ran ops st w st' w' \<longleftrightarrow> w_marks w' = Some st' \<and>
     (\<exists>ds. wm_run ops st (w_disk w) = (st', ds) \<and> w_disk w' = last (w_disk w # ds) \<and> w_disks w' = w_disks w @ ds)"

lemma stores_ran_refl: "w_marks w = Some st \<Longrightarrow> stores_ran [] st w st w"
  by (simp add: stores_ran_def)

lemma stores_ran_trans:
  assumes "stores_ran a st w st1 w1" "stores_ran b st1 w1 st2 w2"
  shows "stores_ran (a @ b) st w st2 w2"
proof -
  obtain ds where 1: "wm_run a st (w_disk w) = (st1, ds)" "w_disk w1 = last (w_disk w # ds)" "w_disks w1 = w_disks w @ ds"
    using assms(1) by (auto simp: stores_ran_def)
  obtain ds' where 2: "wm_run b st1 (w_disk w1) = (st2, ds')" "w_disk w2 = last (w_disk w1 # ds')"
    "w_disks w2 = w_disks w1 @ ds'" "w_marks w2 = Some st2" using assms(2) by (auto simp: stores_ran_def)
  have "wm_run (a @ b) st (w_disk w) = (st2, ds @ ds')" using 1 2 by (simp add: run_append del: last.simps)
  moreover have "w_disk w2 = last (w_disk w # ds @ ds')" using 1 2 by (cases ds') auto
  ultimately show ?thesis using 1 2 by (simp add: stores_ran_def)
qed

text \<open>A record is dealt with: a stage left it out, or its payload is in the sink.\<close>

definition settled :: "('l, 't) stage_env \<Rightarrow> 'l pipeline \<Rightarrow> bytes list \<Rightarrow> event \<Rightarrow> bool" where
  "settled env p sent ev = (case run_stages env p ev of Passed payload t \<Rightarrow> payload \<in> set sent | Refused e \<Rightarrow> False | _ \<Rightarrow> True)"

lemma settled_mono: "settled env p xs ev \<Longrightarrow> settled env p (xs @ ys) ev"
  by (auto simp: settled_def split: fate.splits)

definition op_of_event :: "event \<Rightarrow> wm_op \<Rightarrow> bool" where
  "op_of_event ev op \<longleftrightarrow> (\<exists>pe. op = OpSet (ev_path ev) (int (ev_offset ev)) (ev_inode ev) pe)"

lemma set_mark_ran:
  assumes "set_mark (ev_path ev) (int (ev_offset ev)) (ev_inode ev) w = (w', r)" "w_marks w = Some st"
  shows "\<exists>op st'. op_of_event ev op \<and> stores_ran [op] st w st' w'"
proof -
  obtain st' ds q where s: "wm_set (next_persist w) (ev_path ev) (int (ev_offset ev)) (ev_inode ev) st (w_disk w) = (st', ds, q)"
    by (metis prod_cases3)
  have "stores_ran [OpSet (ev_path ev) (int (ev_offset ev)) (ev_inode ev) (next_persist w)] st w st' w'"
    using assms s by (auto simp: set_mark_def stores_ran_def wm_step_def add_disks_def)
  then show ?thesis by (auto simp: op_of_event_def)
qed

lemma spec_run_events:
  "list_all2 op_of_event evs ops \<Longrightarrow> spec_run ops m = mark_events evs m"
proof (induction arbitrary: m rule: list_all2_induct)
  case (Cons ev evs op ops)
  then show ?case by (auto simp: op_of_event_def spec_run_def spec_step_def event_mark_def)
qed (simp add: spec_run_def)

context sink_contract
begin

lemma publish_one_ran:
  assumes "publish_and_advance s pd cfg dn [pending_of ev pl] w = Some (w', r)" "w_marks w = Some st"
  shows "(\<exists>xs. log (w_sink w') = log (w_sink w) @ xs) \<and>
     ((\<exists>op st'. op_of_event ev op \<and> stores_ran [op] st w st' w' \<and> pl \<in> set (log (w_sink w'))) \<or> r \<noteq> ok \<and> stores_ran [] st w st w')"
proof -
  obtain k waits q where p: "publish_batch_with_retry s (retry_policy_of pd cfg) dn [pl] (w_sink w) = Some (k, waits, q)"
    using assms(1) by (auto simp: publish_and_advance_def pending_of_def split: option.splits)
  from retry_delivers [OF p [unfolded publish_batch_with_retry_def]] obtain xs
    where xs: "log k = log (w_sink w) @ xs @ (if q = ok then [pl] else [])" by auto
  show ?thesis
  proof (cases q)
    case (Inl e)
    then have "w' = w\<lparr>w_sink := k\<rparr>" "r \<noteq> ok" using assms(1) p by (auto simp: publish_and_advance_def)
    then show ?thesis using xs assms(2) by (auto simp: stores_ran_def)
  next
    case (Inr u)
    have "advance_watermarks [pending_of ev pl] (w\<lparr>w_sink := k\<rparr>) = (w', r)"
      using assms(1) p Inr by (simp add: publish_and_advance_def)
    then obtain q' where m: "set_mark (ev_path ev) (int (ev_offset ev)) (ev_inode ev) (w\<lparr>w_sink := k\<rparr>) = (w', q')"
      by (auto simp: pending_of_def split: prod.splits sum.splits)
    then obtain op st' where "op_of_event ev op" "stores_ran [op] st (w\<lparr>w_sink := k\<rparr>) st' w'"
      using set_mark_ran [OF m, of st] assms(2) by auto
    moreover have "stores_ran [op] st (w\<lparr>w_sink := k\<rparr>) st' w' \<longleftrightarrow> stores_ran [op] st w st' w'" for op st'
      by (simp add: stores_ran_def)
    moreover have "w_sink w' = k" using set_mark_result(2) [OF m] by simp
    moreover have "log k = log (w_sink w) @ xs @ [pl]" using xs Inr by simp
    ultimately show ?thesis by auto
  qed
qed

lemma process_event_ran:
  assumes "process_event env p ev w = Some (w', r)" "re_sink env = s" "w_marks w = Some st"
  shows "(\<exists>xs. log (w_sink w') = log (w_sink w) @ xs) \<and>
     ((\<exists>op st'. op_of_event ev op \<and> stores_ran [op] st w st' w' \<and>
        settled (re_stages env) p (log (w_sink w')) ev) \<or> r \<noteq> ok \<and> stores_ran [] st w st w')"
proof -
  have marked: ?thesis if "set_mark (ev_path ev) (int (ev_offset ev)) (ev_inode ev) w = (w', r)"
    "run_stages (re_stages env) p ev \<in> {Skipped, Filtered}"
    using set_mark_ran [OF that(1) assms(3)] set_mark_result(2) [OF that(1)] that(2) by (auto simp: settled_def)
  show ?thesis
  proof (cases "run_stages (re_stages env) p ev")
    case (Passed payload t)
    then have "publish_and_advance s (re_durations env) (cfg_pipeline (pl_cfg p)) (re_done env ev) [pending_of ev payload] w = Some (w', r)"
      using assms by (simp add: process_event_def)
    from publish_one_ran [OF this assms(3)] show ?thesis using Passed by (auto simp: settled_def)
  next
    case (Refused e)
    then show ?thesis using assms stores_ran_refl [OF assms(3)] by (auto simp: process_event_def)
  qed (use assms(1) marked in \<open>simp_all add: process_event_def\<close>)
qed

lemma process_events_ran:
  assumes "process_events env p evs w = Some (w', r)" "re_sink env = s" "w_marks w = Some st"
  shows "(\<exists>xs. log (w_sink w') = log (w_sink w) @ xs) \<and>
     (\<exists>k ops st'. k \<le> length evs \<and> list_all2 op_of_event (take k evs) ops \<and> stores_ran ops st w st' w' \<and>
        list_all (settled (re_stages env) p (log (w_sink w'))) (take k evs))"
  using assms
proof (induction evs arbitrary: w st)
  case Nil
  then show ?case using stores_ran_refl by (intro conjI exI [of _ 0] exI [of _ "[]"] exI [of _ st]) auto
next
  case (Cons ev evs)
  obtain w1 q where e: "process_event env p ev w = Some (w1, q)"
    using Cons.prems(1) by (auto split: option.splits prod.splits sum.splits)
  from process_event_ran [OF e Cons.prems(2,3)] obtain xs1 where l1: "log (w_sink w1) = log (w_sink w) @ xs1" by blast
  have alternatives: "(\<exists>op st1. op_of_event ev op \<and> stores_ran [op] st w st1 w1 \<and>
        settled (re_stages env) p (log (w_sink w1)) ev) \<or> q \<noteq> ok \<and> stores_ran [] st w st w1"
    using process_event_ran [OF e Cons.prems(2,3)] by blast
  show ?case
  proof (cases "q = ok")
    case False
    then have w': "w' = w1" using Cons.prems(1) e by (auto split: sum.splits)
    from alternatives show ?thesis
    proof
      assume "\<exists>op st1. op_of_event ev op \<and> stores_ran [op] st w st1 w1 \<and> settled (re_stages env) p (log (w_sink w1)) ev"
      then obtain op st1 where "op_of_event ev op" "stores_ran [op] st w st1 w1" "settled (re_stages env) p (log (w_sink w1)) ev"
        by blast
      then show ?thesis using w' l1 by (intro conjI exI [of _ 1] exI [of _ "[op]"] exI [of _ st1] exI [of _ xs1]) auto
    next
      assume "q \<noteq> ok \<and> stores_ran [] st w st w1"
      then show ?thesis using w' l1 by (intro conjI exI [of _ 0] exI [of _ "[]"] exI [of _ st] exI [of _ xs1]) auto
    qed
  next
    case True
    then obtain op st1 where op: "op_of_event ev op" "stores_ran [op] st w st1 w1"
      "settled (re_stages env) p (log (w_sink w1)) ev" using alternatives by blast
    have "process_events env p evs w1 = Some (w', r)" using Cons.prems(1) e True by simp
    moreover have "w_marks w1 = Some st1" using op(2) by (simp add: stores_ran_def)
    ultimately obtain xs k ops st' where k: "log (w_sink w') = log (w_sink w1) @ xs" "k \<le> length evs"
      "list_all2 op_of_event (take k evs) ops" "stores_ran ops st1 w1 st' w'"
      "list_all (settled (re_stages env) p (log (w_sink w'))) (take k evs)"
      using Cons.IH [of w1 st1] Cons.prems(2) by blast
    have "stores_ran (op # ops) st w st' w'" using stores_ran_trans [OF op(2) k(4)] by simp
    moreover have "settled (re_stages env) p (log (w_sink w')) ev" using settled_mono [OF op(3)] k(1) by simp
    ultimately show ?thesis using k op l1
      by - (rule conjI, simp, rule exI [of _ "Suc k"], rule exI [of _ "op # ops"], rule exI [of _ st'], auto)
  qed
qed

lemma process_events_append:
  "process_events env p (xs @ ys) w =
     (case process_events env p xs w of None \<Rightarrow> None | Some (w1, r) \<Rightarrow> if r = ok then process_events env p ys w1 else Some (w1, r))"
  by (induction xs arbitrary: w) (auto split: option.splits prod.splits sum.splits)

text \<open>With the line parser the shutdown after an error emits nothing, so what a run does is what
processing its records does, on every outcome.\<close>

lemma run_shutdown_line:
  assumes "pl_parser p = LineParser" "\<not> hibernating (w_pipe w)"
  shows "run_shutdown env p order ps w = Some (w, ok)"
  using assms by (simp add: run_shutdown_def run_flush_parser_def parser_flush_def line_flush_def drain_hibernate_batch_def)

lemma run_pipeline_line:
  assumes "run_pipeline env p order ins ps w = Some (w', r)" "pl_parser p = LineParser"
    "\<not> hibernating (w_pipe w)" "re_sink env = s"
  shows "process_events env p (parser_run (parser_feed (pl_parser p)) (parser_flush (pl_parser p)) order ins ps) w = Some (w', r)"
  using assms
proof (induction ins arbitrary: ps w)
  case Nil
  then show ?case by (simp add: run_shutdown_line) (simp add: parser_flush_def line_flush_def)
next
  case (Cons i ins)
  show ?case
  proof (cases i)
    case (InIdle order1)
    then show ?thesis using Cons
      by (simp add: run_flush_parser_def parser_flush_def line_flush_def split: prod.splits)
  next
    case (InLine l)
    have f: "parser_feed LineParser ps l = (ps, [event_of_line l])" by (simp add: parser_feed_def line_feed_def)
    obtain w1 q where e: "process_event env p (event_of_line l) w = Some (w1, q)"
      using Cons.prems(1,2) InLine f by (auto split: option.splits)
    have h: "\<not> hibernating (w_pipe w1)" using process_event_result [OF e Cons.prems(4)] Cons.prems(3) by simp
    show ?thesis
    proof (cases q)
      case (Inl x)
      then show ?thesis using Cons.prems(1,2) InLine f e h by (auto simp: exit_err_def run_shutdown_line)
    next
      case (Inr u)
      then have "run_pipeline env p order ins ps w1 = Some (w', r)" using Cons.prems(1,2) InLine f e by simp
      from Cons.IH [OF this Cons.prems(2) h Cons.prems(4)] show ?thesis
        using InLine f e Inr Cons.prems(2) by simp
    qed
  qed
qed

lemma run_pipeline_events:
  assumes "run_pipeline env p order ins ps w = Some (w', r)" "r = ok \<or> pl_parser p = LineParser"
    "\<not> hibernating (w_pipe w)" "re_sink env = s"
  shows "process_events env p (parser_run (parser_feed (pl_parser p)) (parser_flush (pl_parser p)) order ins ps) w = Some (w', r)"
  using run_pipeline_line [OF assms(1) _ assms(3,4)] run_pipeline_ok [of env p order ins ps w w'] assms by blast

end

section \<open>Crash and restart\<close>

definition storable_line :: "line_event \<Rightarrow> bool" where
  "storable_line l \<longleftrightarrow> utf8_valid (le_path l) \<and> entry_in_range \<lparr>w_offset = int (le_offset l), w_inode = le_inode l\<rparr>"

text \<open>The records of storable lines have storable positions.\<close>

lemma record_from_lines:
  assumes "\<forall>path. cuts path (of_path path ls) evs []" "ev \<in> set evs"
  shows "\<exists>l \<in> set ls. ev_path ev = le_path l \<and> ev_offset ev = le_offset l \<and> ev_inode ev = le_inode l"
proof -
  obtain gs where gs: "of_path (ev_path ev) ls = concat gs" "events_of_path (ev_path ev) evs = map event_of gs" "\<forall>g \<in> set gs. g \<noteq> []"
    using assms(1) by (auto simp: cuts_def)
  have "ev \<in> set (map event_of gs)" using assms(2) gs(2) by (auto simp: events_of_path_def simp flip: gs(2))
  then obtain g where g: "g \<in> set gs" "ev = event_of g" by auto
  then have "last g \<in> set (of_path (ev_path ev) ls)" using gs(1,3) by (auto intro!: bexI [of _ g])
  then show ?thesis using g(2) by (intro bexI [of _ "last g"]) (auto simp: of_path_def event_of_def)
qed

lemma ops_storable:
  assumes "list_all2 op_of_event evs ops" "\<And>ev. ev \<in> set evs \<Longrightarrow> \<exists>l. storable_line l \<and> ev_path ev = le_path l \<and>
     ev_offset ev = le_offset l \<and> ev_inode ev = le_inode l"
  shows "list_all op_storable ops"
  using assms
proof (induction rule: list_all2_induct)
  case (Cons ev evs op ops)
  from Cons.prems [of ev] Cons.hyps(1) have "op_storable op"
    by (auto simp: op_of_event_def op_storable_def storable_line_def)
  then show ?case using Cons by auto
qed simp

lemma take_concat_take:
  "take (length (concat (take k gs))) (concat gs) = concat (take k gs)" "length (concat (take k gs)) \<le> length (concat gs)"
proof -
  have "concat gs = concat (take k gs) @ concat (drop k gs)" by (metis append_take_drop_id concat_append)
  then show "take (length (concat (take k gs))) (concat gs) = concat (take k gs)" "length (concat (take k gs)) \<le> length (concat gs)"
    by (metis append_eq_conv_conj, metis le_add1 length_append)
qed

text \<open>A prefix of the records of a file covers a prefix of its lines.\<close>

lemma cuts_take:
  assumes "events_of_path path evs = map event_of gs" "\<forall>g \<in> set gs. g \<noteq> []"
  shows "cuts path (concat (take (length (events_of_path path (take j evs))) gs)) (take j evs) []"
proof -
  have "events_of_path path evs = events_of_path path (take j evs) @ events_of_path path (drop j evs)"
    by (simp add: events_of_path_def flip: filter_append)
  then have "events_of_path path (take j evs) = map event_of (take (length (events_of_path path (take j evs))) gs)"
    using arg_cong [OF assms(1), of "take (length (events_of_path path (take j evs)))"] by (simp add: take_map)
  then show ?thesis using assms(2) unfolding cuts_def by (intro exI) (auto dest: in_set_takeD)
qed

text \<open>
  C3.
  No line is lost by a crash, without batching and with the file sink.  A process reads a table under
  which the first \<open>n\<close> lines of a file are behind it, its pipeline reads the lines of that file that follow
  (\<open>unread\<close> are those it never got to), beside those of other files; \<open>Run\<close> returns nil, or the parser is the
  line parser and \<open>Run\<close> returns whatever it returns (with the multiline parser an error is the defect of C38).
  The process is killed when the disk is any of those the watermark store went through, whatever
  failed on it.  The next process reads a table from that disk: the initial one moved over a prefix of
  the records; of each of these no stage refused it, and it was skipped or filtered or its payload is in
  the sink; they are made of the next \<open>c\<close> lines of the file, and tailing the file, which may have grown by
  whole lines, with the channel of a running watcher tries to send exactly the lines after the first
  \<open>n + c\<close>.  All of them arrive when there is room; with \<open>on_full: drop\<close> those without room are missing, and in
  block mode those from a shutdown on.  The next process is where this one was, with \<open>n + c\<close> for \<open>n\<close>.
\<close>

theorem crash_and_restart_lose_no_line:
  assumes "run_pipeline env p order ins parser_init w = Some (w', r)" "r = ok \<or> pl_parser p = LineParser"
    and "re_sink env = the_file_sink" "\<not> hibernating (w_pipe w)"
    and "flushes_visit_all (parser_feed (pl_parser p)) (parser_flush (pl_parser p)) (bp_visited (pl_parser p)) order ins parser_init"
    and "w_marks w = Some st" "restart_files (s_path st) opts (w_disk w) = Some (s_files st)" "storable (s_files st)"
    and "list_all storable_line (lines_of ins)"
    and "resume_at path inode data (s_files st) n"
    and "drop n (line_events path inode 0 data) = of_path path (lines_of ins) @ unread"
    and "d' \<in> set (w_disk w # drop (length (w_disks w)) (w_disks w'))"
    and "readable fsys path inode" "grows_by_lines [data, fs_data fsys inode]"
  shows "\<exists>evs m' c files l. restart_files (s_path st) opts d' = Some m' \<and> storable m' \<and> m' = mark_events evs (s_files st) \<and>
     (\<exists>j. evs = take j (parser_run (parser_feed (pl_parser p)) (parser_flush (pl_parser p)) order ins parser_init)) \<and>
     (\<forall>ev \<in> set evs. case run_stages (re_stages env) p ev of
        Passed payload t \<Rightarrow> payload \<in> set (fk_lines (w_sink w')) | Refused e \<Rightarrow> False | _ \<Rightarrow> True) \<and>
     c \<le> length (of_path path (lines_of ins)) \<and> cuts path (take c (of_path path (lines_of ins))) evs [] \<and>
     tail_file (watcher_channel wa room) fsys (gm_get m') path gm_empty empty_log = (files, l, None) \<and>
     (let rest = drop (n + c) (line_events path inode 0 (fs_data fsys inode)) in
        tl_events l = (if wa_drop wa then filter room rest else takeWhile room rest)) \<and>
     resume_at path inode (fs_data fsys inode) m' (n + c)"
proof -
  let ?evs = "parser_run (parser_feed (pl_parser p)) (parser_flush (pl_parser p)) order ins parser_init"
  have cuts: "\<forall>path. cuts path (of_path path (lines_of ins)) ?evs []"
    using bp.parser_run_cuts [OF bp_rep_init assms(5)] by simp
  obtain gs where gs: "of_path path (lines_of ins) = concat gs" "events_of_path path ?evs = map event_of gs" "\<forall>g \<in> set gs. g \<noteq> []"
    using cuts by (auto simp: cuts_def)
  have "process_events env p ?evs w = Some (w', r)"
    by (rule file_snk.run_pipeline_events [OF assms(1,2,4,3)])
  from file_snk.process_events_ran [OF this assms(3,6)] obtain k ops st' where k: "k \<le> length ?evs"
    "list_all2 op_of_event (take k ?evs) ops" "stores_ran ops st w st' w'"
    "list_all (settled (re_stages env) p (fk_lines (w_sink w'))) (take k ?evs)" by blast
  have len: "length ops = k" using list_all2_lengthD [OF k(2)] k(1) by simp
  have stor: "list_all op_storable ops"
    using record_from_lines [OF cuts] assms(9) by (intro ops_storable [OF k(2)]) (meson in_set_takeD list_all_iff)
  obtain ds where ds: "wm_run ops st (w_disk w) = (st', ds)" "w_disks w' = w_disks w @ ds"
    using k(3) by (auto simp: stores_ran_def)
  have "d' \<in> set (w_disk w # ds)" using assms(12) ds(2) by simp
  from run_trace_snapshot [OF assms(8) stor assms(7) ds(1) this] obtain j where j: "j \<le> k"
    "restart_files (s_path st) opts d' = Some (spec_run (take j ops) (s_files st))" using len by auto
  define m' where "m' = mark_events (take j ?evs) (s_files st)"
  define c where "c = length (concat (take (length (events_of_path path (take j ?evs))) gs))"
  have "list_all2 op_of_event (take j (take k ?evs)) (take j ops)" using k(2) by (rule list_all2_takeI)
  from spec_run_events [OF this] have m': "spec_run (take j ops) (s_files st) = m'"
    using j(1) by (simp add: m'_def min_absorb1)
  have "list_all op_storable (take j ops)" using stor by (auto simp: list_all_iff dest: in_set_takeD)
  then have stm: "storable m'" using spec_storable [OF assms(8)] m' by metis
  have dr: "drop n (line_events path inode 0 data) = concat gs @ unread" using assms(11) gs(1) by simp
  have ra: "resume_at path inode (fs_data fsys inode) m' (n + c)"
    using resume_at_grown(1) [OF mark_events_resume [OF gs(2,3) dr assms(10)] assms(14)] by (simp add: m'_def c_def)
  obtain files l where tf: "tail_file (watcher_channel wa room) fsys (gm_get m') path gm_empty empty_log = (files, l, None)"
    "tl_events l = delivered (watcher_channel wa room) (drop (n + c) (line_events path inode 0 (fs_data fsys inode)))"
    using tail_resumes_at [OF ra assms(13)] by blast
  have pre: "take c (concat gs) = concat (take (length (events_of_path path (take j ?evs))) gs)" "c \<le> length (concat gs)"
    unfolding c_def by (rule take_concat_take)+
  then have cut: "cuts path (take c (of_path path (lines_of ins))) (take j ?evs) []"
    using cuts_take [OF gs(2,3)] gs(1) pre(1) by simp
  have "\<forall>ev \<in> set (take j ?evs). settled (re_stages env) p (fk_lines (w_sink w')) ev"
    using k(4) j(1) by (meson list_all_iff set_take_subset_set_take subsetD)
  then have settled: "\<forall>ev \<in> set (take j ?evs). case run_stages (re_stages env) p ev of
        Passed payload t \<Rightarrow> payload \<in> set (fk_lines (w_sink w')) | Refused e \<Rightarrow> False | _ \<Rightarrow> True"
    by (simp add: settled_def)
  show ?thesis
    using j(2) m' stm ra settled cut tf pre(2) gs(1)
    by (intro exI [of _ "take j ?evs"] exI [of _ m'] exI [of _ c] exI [of _ files] exI [of _ l] conjI exI [of _ j])
      (simp_all add: Let_def watcher_channel_delivers m'_def)
qed

text \<open>A line is published, the table is not yet on the disk, the file grows by a line.\<close>

theorem crash_and_restart_lose_no_line_witness:
  "\<exists>w' m' files l. run_pipeline text_env (text_pipeline LineParser) [] [InLine (text_line ''x'' 2)] parser_init (sample_world []) =
       Some (w', ok) \<and>
     restart_files ''/w'' sample_opts (\<lambda>_. None) = Some m' \<and>
     tail_file (watcher_channel (sample_watcher_of ''block'') (\<lambda>e. True)) (sample_fs [CHR ''x'', NL, CHR ''y'', NL] 7) (gm_get m')
       ''/a'' gm_empty empty_log = (files, l, None) \<and>
     tl_events l = [text_line ''x'' 2, text_line ''y'' 4]"
proof -
  let ?st = "fresh_store ''/w'' \<lparr>o_flush_interval = 1, o_flush_every = 0, o_reset_on_corrupt = False\<rparr>"
  have es: "line_events ''/a'' 7 0 [CHR ''x'', NL] = [text_line ''x'' 2]"
    "line_events ''/a'' 7 0 [CHR ''x'', NL, CHR ''y'', NL] = [text_line ''x'' 2, text_line ''y'' 4]"
    by code_simp+
  obtain w' where run: "run_pipeline text_env (text_pipeline LineParser) [] [InLine (text_line ''x'' 2)] parser_init
      (sample_world []) = Some (w', ok)" using text_run by blast
  have marks: "w_marks (sample_world []) = Some ?st" "w_disk (sample_world []) = (\<lambda>_. None)" by (simp_all add: sample_world_def)
  have h: "\<not> hibernating (w_pipe (sample_world []))" by (simp add: sample_world_def new_pipe_state_def)
  have v: "flushes_visit_all (parser_feed (pl_parser (text_pipeline LineParser))) (parser_flush (pl_parser (text_pipeline LineParser)))
      (bp_visited (pl_parser (text_pipeline LineParser))) [] [InLine (text_line ''x'' 2)] parser_init"
    by (simp add: bp_visited_def)
  have at: "resume_at ''/a'' 7 [CHR ''x'', NL] (s_files ?st) 0"
    by (simp add: resume_at_def fresh_store_def gm_empty_def gm_get_def)
  have start: "restart_files (s_path ?st) sample_opts (w_disk (sample_world [])) = Some (s_files ?st)" "storable (s_files ?st)"
    by (simp_all add: marks restart_files_def new_store_def wm_load_def fresh_store_def storable_def gm_ok_def gm_keys_def gm_empty_def)
  have ls: "list_all storable_line (lines_of [InLine (text_line ''x'' 2)])"
    "drop 0 (line_events ''/a'' 7 0 [CHR ''x'', NL]) = of_path ''/a'' (lines_of [InLine (text_line ''x'' 2)]) @ []"
    by (simp_all add: storable_line_def utf8_valid_ascii entry_in_range_def of_path_def es text_line_def)
  have fs: "readable (sample_fs [CHR ''x'', NL, CHR ''y'', NL] 7) ''/a'' 7"
    "grows_by_lines [[CHR ''x'', NL], fs_data (sample_fs [CHR ''x'', NL, CHR ''y'', NL] 7) 7]"
    by (simp_all add: readable_def has_prefix_def)
  have d: "(\<lambda>_. None) \<in> set (w_disk (sample_world []) # drop (length (w_disks (sample_world []))) (w_disks w'))"
    by (simp add: marks(2))
  from crash_and_restart_lose_no_line [OF run disjI1 [OF refl] text_env_simps(1) h v marks(1) start ls(1) at ls(2) d fs, of
      "sample_watcher_of ''block''" "\<lambda>e. True"]
  obtain m' c files l where r: "restart_files (s_path ?st) sample_opts (\<lambda>_. None) = Some m'" "resume_at ''/a'' 7 [CHR ''x'', NL, CHR ''y'', NL] m' (0 + c)"
    "tail_file (watcher_channel (sample_watcher_of ''block'') (\<lambda>e. True)) (sample_fs [CHR ''x'', NL, CHR ''y'', NL] 7) (gm_get m')
       ''/a'' gm_empty empty_log = (files, l, None)"
    "let rest = drop (0 + c) [text_line ''x'' 2, text_line ''y'' 4] in
       tl_events l = (if wa_drop (sample_watcher_of ''block'') then filter (\<lambda>e. True) rest else takeWhile (\<lambda>e. True) rest)"
    unfolding marks(2) sample_fs_simps es(2) by (elim exE conjE) (rule that; simp)
  have m': "m' = gm_empty" "s_path ?st = ''/w''" using r(1) by (simp_all add: restart_files_def new_store_def wm_load_def fresh_store_def)
  then have "c = 0" using r(2) by (auto simp: resume_at_def Let_def gm_empty_def gm_get_def split: if_splits)
  then have "tl_events l = [text_line ''x'' 2, text_line ''y'' 4]" using r(4) by simp
  then show ?thesis using run r(1,3) m' by (intro exI [of _ w'] exI [of _ m'] exI [of _ files] exI [of _ l] conjI) simp_all
qed

end
