(* ===== verification/Forwarder.thy ===== *)
theory Forwarder
  imports Metrics SinkSetup Restart FlusherProps
begin

text \<open>
  The process around the pipeline: \<open>cmd/log-forwarder/main.go\<close>, the runner that waits for watcher and
  pipeline (\<open>internal/runner\<close>), the logger (\<open>internal/logging\<close>) and the client of the controller
  (\<open>internal/atc\<close>).  \<open>main\<close> is a function of the answers it gets; its effects are a list.
\<close>

section \<open>The runner\<close>

text \<open>
  \<open>Wait\<close> receives two results, in the order in which they arrive; the answer is its error with the
  number of times it called \<open>cancel\<close>, or \<open>None\<close> while a result is missing.
\<close>

fun wait_errors :: "nat \<Rightarrow> check list \<Rightarrow> go_error option \<Rightarrow> nat \<Rightarrow> (go_error option \<times> nat) option" where
  "wait_errors 0 rs first_err calls = Some (first_err, calls)"
| "wait_errors (Suc n) [] first_err calls = None"
| "wait_errors (Suc n) (r # rs) first_err calls =
     (case r of
        Inl e \<Rightarrow>
          if \<not> is_canceled e \<and> first_err = None then wait_errors n rs (Some e) (calls + 1)
          else wait_errors n rs first_err calls
      | Inr u \<Rightarrow> wait_errors n rs first_err calls)"

definition runner_wait :: "check list \<Rightarrow> (go_error option \<times> nat) option" where
  "runner_wait rs = wait_errors 2 rs None 0"

section \<open>Logging\<close>

datatype level = LevelDebug | LevelInfo | LevelWarn | LevelError

text \<open>The levels of \<open>slog\<close> are integers; a handler writes the entries at its level or above.\<close>

definition level_value :: "level \<Rightarrow> int" where
  "level_value l = (case l of LevelDebug \<Rightarrow> - 4 | LevelInfo \<Rightarrow> 0 | LevelWarn \<Rightarrow> 4 | LevelError \<Rightarrow> 8)"

instantiation level :: linorder
begin

definition less_eq_level :: "level \<Rightarrow> level \<Rightarrow> bool" where
  "less_eq_level a b \<longleftrightarrow> level_value a \<le> level_value b"

definition less_level :: "level \<Rightarrow> level \<Rightarrow> bool" where
  "less_level a b \<longleftrightarrow> level_value a < level_value b"

instance
  by standard (auto simp: less_eq_level_def less_level_def level_value_def split: level.splits)

end

record logger =
  lg_level :: level
  lg_json :: bool
  lg_file :: "string option"

definition logger_level :: "string \<Rightarrow> level" where
  "logger_level s =
     (if s = [] \<or> s = ''info'' then LevelInfo else if s = ''debug'' then LevelDebug
      else if s = ''warn'' then LevelWarn else if s = ''error'' then LevelError else LevelInfo)"

text \<open>\<open>mkdir\<close> and \<open>openf\<close> are the answers for the directory of the log file and for the file.\<close>

definition new_logger :: "(string \<Rightarrow> check) \<Rightarrow> (string \<Rightarrow> check) \<Rightarrow> logging_config \<Rightarrow> logger result" where
  "new_logger mkdir openf c =
     bind_res (if log_file c = [] then Inr None
               else bind_res (mkdir (log_file c)) (\<lambda>_. bind_res (openf (log_file c)) (\<lambda>_. Inr (Some (log_file c))))) (\<lambda>file.
       Inr \<lparr>lg_level = logger_level (log_level c), lg_json = (log_format c = ''json''), lg_file = file\<rparr>)"

section \<open>The client of the controller\<close>

record instance_info =
  in_hostname :: string
  in_port :: int
  in_process :: nat
  in_timestamp :: string

definition instance_struct :: "instance_info \<Rightarrow> (bytes \<times> jval) list" where
  "instance_struct i = [(''hostname'', JStr (in_hostname i)), (''port'', JNum (show_int (in_port i))),
     (''process_id'', JNum (show_int (int (in_process i)))), (''timestamp'', JStr (in_timestamp i))]"

record atc_client =
  ac_url :: string
  ac_timeout :: int

definition new_atc_client :: "duration_parser \<Rightarrow> atc_config \<Rightarrow> atc_client option" where
  "new_atc_client pd c =
     (if \<not> atc_enabled c then None else Some \<lparr>ac_url = atc_endpoint_url c, ac_timeout = atc_timeout_duration pd c\<rparr>)"

definition new_instance :: "string result \<Rightarrow> nat \<Rightarrow> string \<Rightarrow> config \<Rightarrow> instance_info" where
  "new_instance hostname pid now c =
     \<lparr>in_hostname = (case hostname of Inl e \<Rightarrow> [] | Inr h \<Rightarrow> h),
      in_port = (if metrics_port (cfg_metrics c) = 0 then 8080 else metrics_port (cfg_metrics c)),
      in_process = pid, in_timestamp = now\<rparr>"

text \<open>\<open>do\<close>: the request that goes out, if it can be built, and the answer of the server.\<close>

definition atc_do :: "atc_client \<Rightarrow> string \<Rightarrow> instance_info \<Rightarrow> http_answer \<Rightarrow> (string \<times> string \<times> bytes) list \<times> check" where
  "atc_do cl verb i answer =
     (let sent = [(verb, ac_url cl, encode_struct (instance_struct i))] in
      case answer of
        RequestError e \<Rightarrow> ([], Inl (ErrWrap ''atc request: '' e))
      | ExchangeError e arrived \<Rightarrow> (sent, Inl (ErrWrap (''atc '' @ verb @ '': '') e))
      | Status code body \<Rightarrow>
          (sent, if http_ok_status code then ok
                 else failing (''atc '' @ verb @ '': status '' @ show_int code @ '': '' @ trim_space (take 1024 body))))"

definition atc_register :: "atc_client \<Rightarrow> instance_info \<Rightarrow> http_answer \<Rightarrow> (string \<times> string \<times> bytes) list \<times> check" where
  "atc_register cl i answer = atc_do cl ''PUT'' i answer"

definition atc_deregister :: "atc_client \<Rightarrow> instance_info \<Rightarrow> http_answer \<Rightarrow> (string \<times> string \<times> bytes) list \<times> check" where
  "atc_deregister cl i answer = atc_do cl ''DELETE'' i answer"

section \<open>Parts of main\<close>

text \<open>\<open>config.Load\<close> with the file and the YAML library as arguments, and \<open>loadConfig\<close>.\<close>

definition load_file ::
  "val_env \<Rightarrow> type_registry \<Rightarrow> (string \<Rightarrow> bytes result) \<Rightarrow> (bytes \<Rightarrow> config \<Rightarrow> config result) \<Rightarrow> string \<Rightarrow> string \<Rightarrow> config result" where
  "load_file env types readf unmarshal wd path =
     bind_res (wrap_error ''read config: '' (readf path)) (\<lambda>data.
     bind_res (wrap_error ''parse config: '' (unmarshal data (default_config wd))) (\<lambda>c.
     bind_res (validate_config env types c) (\<lambda>_. Inr c)))"

definition load_config ::
  "val_env \<Rightarrow> type_registry \<Rightarrow> (string \<Rightarrow> bytes result) \<Rightarrow> (bytes \<Rightarrow> config \<Rightarrow> config result) \<Rightarrow> string \<Rightarrow> string \<Rightarrow> config result" where
  "load_config env types readf unmarshal wd path =
     (if path = [] then Inr (default_config wd) else load_file env types readf unmarshal wd path)"

definition watermark_options :: "duration_parser \<Rightarrow> config \<Rightarrow> bool \<Rightarrow> wm_options" where
  "watermark_options pd c reset =
     (case persist_options pd (watch_state (cfg_watch c)) of (interval, every) \<Rightarrow>
        \<lparr>o_flush_interval = interval, o_flush_every = every,
         o_reset_on_corrupt = (state_reset_on_corrupt (watch_state (cfg_watch c)) \<or> reset)\<rparr>)"

text \<open>
  The entries main writes to the log about the controller and the watched files; the \<open>error\<close> attribute comes
  last.  \<open>logStatus\<close> writes one entry per tick, until its context is done.
\<close>

datatype log_attr = AttrString string | AttrInt int | AttrError go_error

record log_entry =
  en_level :: level
  en_message :: string
  en_attrs :: "(string \<times> log_attr) list"

definition instance_attrs :: "string \<Rightarrow> config \<Rightarrow> instance_info \<Rightarrow> (string \<times> log_attr) list" where
  "instance_attrs status c i =
     [(''status'', AttrString status), (''url'', AttrString (atc_endpoint_url (cfg_atc c))),
      (''hostname'', AttrString (in_hostname i)), (''port'', AttrInt (in_port i)),
      (''process_id'', AttrInt (int (in_process i))), (''timestamp'', AttrString (in_timestamp i))]"

definition log_atc_registration_status :: "config \<Rightarrow> check \<Rightarrow> instance_info \<Rightarrow> log_entry" where
  "log_atc_registration_status c r i =
     (if \<not> atc_enabled (cfg_atc c) then
        \<lparr>en_level = LevelInfo, en_message = ''atc registration status'', en_attrs = [(''status'', AttrString ''disabled'')]\<rparr>
      else
        (case r of
           Inl e \<Rightarrow> \<lparr>en_level = LevelWarn, en_message = ''atc registration status'',
                     en_attrs = instance_attrs ''failed'' c i @ [(''error'', AttrError e)]\<rparr>
         | Inr u \<Rightarrow> \<lparr>en_level = LevelInfo, en_message = ''atc registration status'',
                     en_attrs = instance_attrs ''registered'' c i\<rparr>))"

definition log_atc_deregistration_status :: "config \<Rightarrow> check \<Rightarrow> instance_info \<Rightarrow> log_entry" where
  "log_atc_deregistration_status c r i =
     (case r of
        Inl e \<Rightarrow> \<lparr>en_level = LevelWarn, en_message = ''atc registration status'',
                  en_attrs = instance_attrs ''deregistration_failed'' c i @ [(''error'', AttrError e)]\<rparr>
      | Inr u \<Rightarrow> \<lparr>en_level = LevelInfo, en_message = ''atc registration status'',
                  en_attrs = instance_attrs ''deregistered'' c i\<rparr>)"

datatype status_signal = StatusTick | StatusDone

fun log_status :: "(status_signal \<times> watcher) list \<Rightarrow> log_entry list" where
  "log_status [] = []"
| "log_status ((StatusDone, w) # sigs) = []"
| "log_status ((StatusTick, w) # sigs) =
     \<lparr>en_level = LevelInfo, en_message = ''forwarder status'',
      en_attrs = [(''watched_files'', AttrInt (int (file_count w)))]\<rparr> # log_status sigs"

text \<open>What the handler of a logger writes.\<close>

definition logged :: "logger \<Rightarrow> log_entry \<Rightarrow> bool" where
  "logged lg e \<longleftrightarrow> lg_level lg \<le> en_level e"

lemma registration_logged:
  assumes "new_logger mkdir openf lc = Inr lg" "atc_enabled (cfg_atc c)"
  shows "logged lg (log_atc_registration_status c r i) \<longleftrightarrow>
     log_level lc \<noteq> ''error'' \<and> (log_level lc = ''warn'' \<longrightarrow> r \<noteq> ok)"
proof -
  have "lg_level lg = logger_level (log_level lc)" using assms(1) by (auto simp: new_logger_def bind_res_eq_Inr)
  then show ?thesis
    using assms(2)
    by (auto simp: logged_def log_atc_registration_status_def less_eq_level_def level_value_def logger_level_def
        split: sum.splits)
qed

text \<open>The status in the log tells how the call ended: no two outcomes of one operation share it.\<close>

lemma registration_status_tells:
  "AttrString ''registered'' \<in> snd ` set (take 1 (en_attrs (log_atc_registration_status c r i))) \<longleftrightarrow>
     atc_enabled (cfg_atc c) \<and> r = ok"
  "en_level (log_atc_registration_status c r i) = LevelWarn \<longleftrightarrow> atc_enabled (cfg_atc c) \<and> r \<noteq> ok"
  "en_level (log_atc_deregistration_status c r i) = LevelWarn \<longleftrightarrow> r \<noteq> ok"
  by (auto simp: log_atc_registration_status_def log_atc_deregistration_status_def instance_attrs_def split: sum.splits)

text \<open>
  \<open>startPeriodicWatermarkFlush\<close>: what the goroutine does over the given ticks, with the callback that counts
  the errors.
\<close>

definition start_periodic_flush ::
  "int \<Rightarrow> persist_env list \<Rightarrow> wm_store \<Rightarrow> disk \<Rightarrow> collector option \<Rightarrow> (wm_store \<times> disk list) \<times> collector option" where
  "start_periodic_flush interval ticks s d c =
     (if interval \<le> 0 then ((s, []), c)
      else (case run_periodic_flush ticks s d of
              (s', ds, errs) \<Rightarrow> ((s', ds), (record_watermark_flush_error ^^ length errs) c)))"

text \<open>The checker of a sink, under a timeout; not every sink has one.\<close>

definition check_sink_at_startup :: "duration_parser \<Rightarrow> (int \<Rightarrow> check) option \<Rightarrow> config \<Rightarrow> check" where
  "check_sink_at_startup pd checker c = (case checker of
      None \<Rightarrow> ok
    | Some chk \<Rightarrow> chk (sink_connect_timeout pd (cfg_sink c)))"

definition build_dead_letters :: "config \<Rightarrow> string option" where
  "build_dead_letters c =
     (let path = dl_path (pb_dead_letter (publish_batch (cfg_pipeline c))) in if path = [] then None else Some path)"

definition build_readiness ::
  "duration_parser \<Rightarrow> config \<Rightarrow> (int option \<Rightarrow> check) option \<Rightarrow> snapshot \<Rightarrow> bool \<Rightarrow> readiness option" where
  "build_readiness pd c checker sn hib =
     (if \<not> metrics_enabled (cfg_metrics c) then None
      else (let rc = metrics_readiness (cfg_metrics c) in
        Some \<lparr>rd_snapshot = sn, rd_check_sink = checker, rd_hibernating = Some hib,
          rd_threshold = buffer_threshold_or_default rc, rd_require_files = ready_require_files rc,
          rd_check_enabled = sink_check_enabled rc,
          rd_check_timeout = sink_check_timeout_duration pd rc (sink_connect_timeout pd (cfg_sink c))\<rparr>))"

text \<open>The snapshot of a process: the pipeline and the watcher may not exist yet.\<close>

definition hibernating_snapshot :: "pipe_state \<Rightarrow> int" where
  "hibernating_snapshot p = (if hibernating p then 1 else 0)"

definition consecutive_dlq_snapshot :: "pipe_state \<Rightarrow> int" where
  "consecutive_dlq_snapshot p = consecutive_dlq p"

definition active_bytes :: "fstate \<Rightarrow> int" where
  "active_bytes s = b_bytes (fs_active s)"

definition publish_buffer_active_bytes :: "bool \<Rightarrow> fstate \<Rightarrow> int" where
  "publish_buffer_active_bytes has_flusher s = (if \<not> has_flusher then 0 else active_bytes s)"

definition process_snapshot :: "config \<Rightarrow> watcher option \<Rightarrow> (bool \<times> fstate) option \<Rightarrow> nat \<Rightarrow> snapshot" where
  "process_snapshot c wa pipe queued =
     \<lparr>sn_files_watched = Some (case wa of None \<Rightarrow> 0 | Some w \<Rightarrow> int (file_count w)),
      sn_buffer_depth = Some (int queued), sn_buffer_capacity = buffer_size (cfg_pipeline c),
      sn_active_bytes = Some (case pipe of None \<Rightarrow> 0 | Some (has, s) \<Rightarrow> publish_buffer_active_bytes has s),
      sn_hibernating = Some (case pipe of None \<Rightarrow> 0 | Some (has, s) \<Rightarrow> hibernating_snapshot (fs_pipe s)),
      sn_consecutive_dlq = Some (case pipe of None \<Rightarrow> 0 | Some (has, s) \<Rightarrow> consecutive_dlq_snapshot (fs_pipe s))\<rparr>"

section \<open>Main\<close>

text \<open>The answers \<open>main\<close> gets, and what it does that others can see.\<close>

record boot =
  bt_config :: "config result"
  bt_logger :: "logger result"
  bt_store :: "start_error + wm_store"
  bt_sink :: "check option"
  bt_checker :: "(int \<Rightarrow> check) option"
  bt_dead_letter :: check
  bt_metrics :: metrics_start
  bt_listen :: "string \<Rightarrow> check"
  bt_pipeline :: check
  bt_signal :: bool
  bt_results :: "check list"

datatype effect =
    RunWatcher | RunPipeline | Register | Deregister | CancelRunners | CloseLines
  | ShutdownMetrics | CloseSink | FlushWatermarks | CloseLog

datatype outcome = Exit nat | Crash | Waiting

text \<open>
  The deferred calls run, in reverse order, on a normal return and on a panic, but not when \<open>os.Exit\<close> is
  called.  \<open>deregisterFromATC\<close> does something at most once, and only with a client.
\<close>

definition deferred_from_sink :: "effect list" where
  "deferred_from_sink = [CloseSink, FlushWatermarks, CloseLog]"

definition run_runners :: "bool \<Rightarrow> boot \<Rightarrow> outcome \<times> effect list" where
  "run_runners atc b =
     (let begun = [RunWatcher, RunPipeline] @ (if atc then [Register] else []);
          dereg = (if atc then [Deregister] else []) in
      case runner_wait (bt_results b) of
        None \<Rightarrow> (Waiting, begun @ (if bt_signal b then dereg @ [CancelRunners] else []))
      | Some (err, calls) \<Rightarrow>
          (let waited = replicate calls CancelRunners;
               stopped = (if bt_signal b then dereg @ [CancelRunners] @ waited else waited @ dereg) in
           if err \<noteq> None then (Exit 1, begun @ stopped)
           else (Exit 0, begun @ stopped @ [CloseLines, ShutdownMetrics] @ deferred_from_sink)))"

definition main_run :: "duration_parser \<Rightarrow> boot \<Rightarrow> outcome \<times> effect list" where
  "main_run pd b = (case bt_config b of
      Inl e \<Rightarrow> (Exit 1, [])
    | Inr cfg \<Rightarrow> (case bt_logger b of
      Inl e \<Rightarrow> (Exit 1, [])
    | Inr lg \<Rightarrow> (case bt_store b of
      Inl e \<Rightarrow> (Exit 1, [])
    | Inr st \<Rightarrow> (case bt_sink b of
      None \<Rightarrow> (Crash, [FlushWatermarks, CloseLog])
    | Some (Inl e) \<Rightarrow> (Exit 1, [])
    | Some (Inr u) \<Rightarrow>
        (if check_sink_at_startup pd (bt_checker b) cfg \<noteq> ok \<or> bt_dead_letter b \<noteq> ok then (Exit 1, [])
         else (case bt_metrics b of
           MetricsError e shut \<Rightarrow> (Exit 1, [])
         | MetricsPanic \<Rightarrow> (Crash, (if atc_enabled (cfg_atc cfg) then [Deregister] else []) @ deferred_from_sink)
         | ms \<Rightarrow>
             if start_server (bt_listen b) ms \<noteq> ok \<or> bt_pipeline b \<noteq> ok then (Exit 1, [])
             else run_runners (atc_enabled (cfg_atc cfg)) b))))))"

section \<open>Starting and ending\<close>

definition stopped_well :: "check \<Rightarrow> bool" where
  "stopped_well r \<longleftrightarrow> (case r of Inl e \<Rightarrow> is_canceled e | Inr u \<Rightarrow> True)"

lemma wait_two:
  "runner_wait (r1 # r2 # rest) = Some
     (if \<not> stopped_well r1 then (case r1 of Inl e \<Rightarrow> Some e | Inr u \<Rightarrow> None)
      else if \<not> stopped_well r2 then (case r2 of Inl e \<Rightarrow> Some e | Inr u \<Rightarrow> None) else None,
      if stopped_well r1 \<and> stopped_well r2 then 0 else 1)"
  by (cases r1; cases r2) (simp_all add: runner_wait_def numeral_2_eq_2 stopped_well_def)

lemma wait_result:
  assumes "runner_wait rs = Some (err, calls)"
  obtains r1 r2 rest where "rs = r1 # r2 # rest" "err = None \<longleftrightarrow> stopped_well r1 \<and> stopped_well r2"
    "calls = (if err = None then 0 else 1)"
proof (cases rs)
  case Nil
  then show ?thesis using assms by (simp add: runner_wait_def numeral_2_eq_2)
next
  case (Cons r1 rs1)
  show ?thesis
  proof (cases rs1)
    case Nil
    then show ?thesis using assms Cons by (cases r1) (auto simp: runner_wait_def numeral_2_eq_2 split: if_splits)
  next
    case (Cons r2 rest)
    note w = assms [unfolded \<open>rs = r1 # rs1\<close> Cons wait_two]
    have "err = None \<longleftrightarrow> stopped_well r1 \<and> stopped_well r2" using w
      by (cases r1; cases r2) (auto simp: stopped_well_def split: if_splits)
    moreover have "calls = (if err = None then 0 else 1)" using w
      by (cases r1; cases r2) (auto simp: stopped_well_def split: if_splits)
    ultimately show ?thesis using that \<open>rs = r1 # rs1\<close> Cons by blast
  qed
qed

text \<open>\<open>main\<close> either stops before it starts anything, or all its checks passed and the runners run.\<close>

definition all_checked :: "duration_parser \<Rightarrow> boot \<Rightarrow> config \<Rightarrow> bool" where
  "all_checked pd b cfg \<longleftrightarrow> bt_config b = Inr cfg \<and> (\<exists>lg. bt_logger b = Inr lg) \<and> (\<exists>st. bt_store b = Inr st) \<and>
     bt_sink b = Some ok \<and> check_sink_at_startup pd (bt_checker b) cfg = ok \<and> bt_dead_letter b = ok \<and>
     (case bt_metrics b of MetricsOff c \<Rightarrow> True | MetricsOn c m addr \<Rightarrow> True | _ \<Rightarrow> False) \<and>
     start_server (bt_listen b) (bt_metrics b) = ok \<and> bt_pipeline b = ok"

lemma main_cases:
  assumes "main_run pd b = (out, effs)"
  obtains (stopped) "out = Exit 1" "effs = []"
  | (crashed) "out = Crash" "effs \<in> {[FlushWatermarks, CloseLog], deferred_from_sink, Deregister # deferred_from_sink}"
  | (running) cfg where "all_checked pd b cfg" "run_runners (atc_enabled (cfg_atc cfg)) b = (out, effs)"
proof (cases "bt_config b")
  case (Inl e)
  then show ?thesis using assms stopped by (simp add: main_run_def)
next
  case cfg: (Inr cfg)
  show ?thesis
  proof (cases "\<exists>lg st. bt_logger b = Inr lg \<and> bt_store b = Inr st")
    case False
    then show ?thesis using assms cfg stopped by (cases "bt_logger b"; cases "bt_store b") (auto simp: main_run_def)
  next
    case True
    then obtain lg st where ls: "bt_logger b = Inr lg" "bt_store b = Inr st" by blast
    show ?thesis
    proof (cases "bt_sink b")
      case None
      then show ?thesis using assms cfg ls crashed by (auto simp: main_run_def)
    next
      case (Some r)
      show ?thesis
      proof (cases "r = ok \<and> check_sink_at_startup pd (bt_checker b) cfg = ok \<and> bt_dead_letter b = ok")
        case False
        then show ?thesis using assms cfg ls Some stopped by (cases r) (auto simp: main_run_def)
      next
        case True
        note m = assms [unfolded main_run_def cfg ls Some]
        show ?thesis
        proof (cases "bt_metrics b")
          case MetricsPanic
          then show ?thesis using m True crashed by (auto split: if_splits)
        next
          case (MetricsError e shut)
          then show ?thesis using m True stopped by auto
        next
          case (MetricsOff c)
          then show ?thesis using m True cfg ls Some stopped running [of cfg]
            by (cases "start_server (bt_listen b) (MetricsOff c) \<noteq> ok \<or> bt_pipeline b \<noteq> ok") (auto simp: all_checked_def)
        next
          case (MetricsOn c mx addr)
          then show ?thesis using m True cfg ls Some stopped running [of cfg]
            by (cases "start_server (bt_listen b) (MetricsOn c mx addr) \<noteq> ok \<or> bt_pipeline b \<noteq> ok") (auto simp: all_checked_def)
        qed
      qed
    qed
  qed
qed

lemma running_outcome:
  assumes "run_runners atc b = (out, effs)"
  shows "RunPipeline \<in> set effs" "count_list effs Register = (if atc then 1 else 0)" "count_list effs Deregister \<le> 1"
    "out = Exit 0 \<longleftrightarrow> (\<exists>r1 r2 rest. bt_results b = r1 # r2 # rest \<and> stopped_well r1 \<and> stopped_well r2)"
    "out = Exit 0 \<Longrightarrow> \<exists>pre. effs = pre @ [CloseLines, ShutdownMetrics, CloseSink, FlushWatermarks, CloseLog]"
    "out = Exit 1 \<Longrightarrow> FlushWatermarks \<notin> set effs"
    "out \<noteq> Waiting \<Longrightarrow> count_list effs Deregister = (if atc then 1 else 0)"
proof -
  have all: "RunPipeline \<in> set effs \<and> count_list effs Register = (if atc then 1 else 0) \<and> count_list effs Deregister \<le> 1 \<and>
     (out = Exit 0 \<longleftrightarrow> (\<exists>r1 r2 rest. bt_results b = r1 # r2 # rest \<and> stopped_well r1 \<and> stopped_well r2)) \<and>
     (out = Exit 0 \<longrightarrow> (\<exists>pre. effs = pre @ [CloseLines, ShutdownMetrics, CloseSink, FlushWatermarks, CloseLog])) \<and>
     (out = Exit 1 \<longrightarrow> FlushWatermarks \<notin> set effs) \<and> (out \<noteq> Waiting \<longrightarrow> count_list effs Deregister = (if atc then 1 else 0))"
  proof (cases "runner_wait (bt_results b)")
    case None
    have "\<nexists>r1 r2 rest. bt_results b = r1 # r2 # rest" using None by (metis wait_two option.distinct(1))
    then show ?thesis using assms None by (auto simp: run_runners_def Let_def)
  next
    case (Some ec)
    obtain err calls where ec: "ec = (err, calls)" by force
    obtain r1 r2 rest where r: "bt_results b = r1 # r2 # rest" "err = None \<longleftrightarrow> stopped_well r1 \<and> stopped_well r2"
      "calls = (if err = None then 0 else 1)" using wait_result Some ec by metis
    show ?thesis
    proof (cases "err = None")
      case True
      then show ?thesis using assms Some ec r by (auto simp: run_runners_def Let_def deferred_from_sink_def)
    next
      case False
      then show ?thesis using assms Some ec r by (cases "bt_signal b"; cases atc) (auto simp: run_runners_def Let_def)
    qed
  qed
  then show "RunPipeline \<in> set effs" "count_list effs Register = (if atc then 1 else 0)" "count_list effs Deregister \<le> 1"
    "out = Exit 0 \<longleftrightarrow> (\<exists>r1 r2 rest. bt_results b = r1 # r2 # rest \<and> stopped_well r1 \<and> stopped_well r2)"
    "out = Exit 0 \<Longrightarrow> \<exists>pre. effs = pre @ [CloseLines, ShutdownMetrics, CloseSink, FlushWatermarks, CloseLog]"
    "out = Exit 1 \<Longrightarrow> FlushWatermarks \<notin> set effs"
    "out \<noteq> Waiting \<Longrightarrow> count_list effs Deregister = (if atc then 1 else 0)"
    by blast+
qed


lemma main_runs: "all_checked pd b cfg \<Longrightarrow> main_run pd b = run_runners (atc_enabled (cfg_atc cfg)) b"
  by (auto simp: all_checked_def main_run_def split: metrics_start.splits)

text \<open>A process in which everything was found good.\<close>

definition good_boot :: "bool \<Rightarrow> check list \<Rightarrow> boot" where
  "good_boot signal rs = \<lparr>bt_config = Inr (default_config ''/w''),
     bt_logger = Inr \<lparr>lg_level = LevelInfo, lg_json = False, lg_file = None\<rparr>,
     bt_store = Inr (fresh_store ''/w/s'' sample_opts), bt_sink = Some ok, bt_checker = None, bt_dead_letter = ok,
     bt_metrics = MetricsOff noop_collector, bt_listen = (\<lambda>a. ok), bt_pipeline = ok, bt_signal = signal, bt_results = rs\<rparr>"

lemma good_boot_simps [simp]: "bt_results (good_boot signal rs) = rs" "bt_signal (good_boot signal rs) = signal"
  by (simp_all add: good_boot_def)

lemma good_boot_checked: "all_checked pd (good_boot signal rs) (default_config ''/w'')"
  by (simp add: all_checked_def good_boot_def check_sink_at_startup_def start_server_def)


section \<open>What is on the disk at the end\<close>

text \<open>
  The disk after the deferred flush, if it ran; \<open>env\<close> are the answers of the operating system to it.  Its error is
  written to the log and nothing else: the exit code is decided before.
\<close>

definition exit_disk :: "persist_env \<Rightarrow> effect list \<Rightarrow> wm_store \<Rightarrow> disk \<Rightarrow> disk" where
  "exit_disk env effs s d = (if FlushWatermarks \<in> set effs then last (d # fst (snd (wm_flush env s d))) else d)"

lemma failed_flush:
  assumes "wm_flush env s d = (s', ds, r)" "r \<noteq> ok"
  shows "last (d # ds) (s_path s) = d (s_path s)"
  using assms by (auto simp: wm_flush_def persist_locked_def Let_def write_trace_def split: if_splits option.splits)

lemma good_flush:
  assumes "wm_flush env s d = (s', ds, ok)" "s_dirty s"
  shows "last (d # ds) (s_path s) = Some (encode_files (s_files s))"
  using assms by (auto simp: wm_flush_def persist_locked_def Let_def rename_disk_def split: option.splits)

lemma spec_run_no_set: "filter is_set_op ops = [] \<Longrightarrow> spec_run ops m = m"
  by (induction ops) (auto simp: spec_run_def spec_step_def is_set_op_def split: wm_op.splits if_splits)

lemma new_store_facts:
  assumes "new_store se p opts d = (Inr s, d')"
  shows "s_path s = p" "s_updates s = 0" "\<not> s_dirty s" "restart_files p opts d' = Some (s_files s)"
proof -
  have "s_path s = p \<and> s_updates s = 0 \<and> \<not> s_dirty s \<and> restart_files p opts d' = Some (s_files s)"
    using assms
    by (auto simp: new_store_def restart_files_def wm_load_def archive_corrupt_def fresh_store_def rename_disk_def Let_def
        split: option.splits if_splits load_error.splits)
  then show "s_path s = p" "s_updates s = 0" "\<not> s_dirty s" "restart_files p opts d' = Some (s_files s)" by blast+
qed

lemma flushed_on_success: "main_run pd b = (Exit 0, effs) \<Longrightarrow> FlushWatermarks \<in> set effs"
proof (erule main_cases)
  fix cfg assume "run_runners (atc_enabled (cfg_atc cfg)) b = (Exit 0, effs)"
  from running_outcome(5) [OF this] show ?thesis by auto
qed simp_all

lemma no_flush_on_failure: "main_run pd b = (Exit 1, effs) \<Longrightarrow> FlushWatermarks \<notin> set effs"
proof (erule main_cases)
  fix cfg assume "run_runners (atc_enabled (cfg_atc cfg)) b = (Exit 1, effs)"
  from running_outcome(6) [OF this] show ?thesis by simp
qed simp_all

text \<open>
  C28.
  The final flush.  The process opened its store on a disk and made a history of updates and flushes,
  with any faults; then it ends.  With exit code 0 the deferred flush ran: when it succeeds, the next process
  reads the table with every update; when it fails, the error is only logged, the code stays 0, and the
  next process misses exactly the \<open>updatesSinceFlush\<close> most recent updates.  With exit code 1 the deferred
  flush does not run, the disk is as it was, and the next process misses exactly as many.
\<close>

theorem final_flush_depends_on_the_exit_code:
  assumes "main_run pd b = (out, effs)" "bt_store b = Inr s0" "new_store se p opts d = (Inr s0, d0)"
    and "storable (s_files s0)" "list_all op_storable ops" "wm_run ops s0 d0 = (s, ds)"
    and "wm_flush env s (last (d0 # ds)) = (s', ds', r)"
  shows "(out = Exit 0 \<and> r = ok \<longrightarrow>
       restart_files p opts (exit_disk env effs s (last (d0 # ds))) = Some (spec_run ops (s_files s0))) \<and>
    (out = Exit 0 \<and> r \<noteq> ok \<or> out = Exit 1 \<longrightarrow>
       (\<exists>j \<le> length ops. restart_files p opts (exit_disk env effs s (last (d0 # ds))) = Some (spec_run (take j ops) (s_files s0)) \<and>
         int (length (filter is_set_op (drop j ops))) = s_updates s)) \<and>
    (out = Exit 1 \<longrightarrow> exit_disk env effs s (last (d0 # ds)) = last (d0 # ds))"
proof -
  let ?d = "last (d0 # ds)"
  note s0 = new_store_facts [OF assms(3)]
  have path: "s_path s = p" and files: "s_files s = spec_run ops (s_files s0)" using run_refines [OF assms(6)] s0(1) by simp_all
  obtain j where j: "j \<le> length ops" "restart_files p opts ?d = Some (spec_run (take j ops) (s_files s0))"
    "int (length (filter is_set_op (drop j ops))) = s_updates s" and dirty: "s_dirty s \<longleftrightarrow> s_updates s > 0"
    using run_counts_lost_updates [of s0 ops opts d0 s ds] assms(4,5,6) s0 by auto
  have stor: "storable (s_files s)" using spec_storable [OF assms(4,5)] files by simp
  have ran: "exit_disk env effs s ?d = last (?d # ds')" if "out = Exit 0"
    using flushed_on_success assms(1,7) that by (simp add: exit_disk_def)
  have "restart_files p opts (exit_disk env effs s ?d) = Some (spec_run ops (s_files s0))" if "out = Exit 0" "r = ok"
  proof (cases "s_dirty s")
    case True
    then show ?thesis
      using restart_encoded [OF _ stor] good_flush assms(7) that files path ran [OF that(1)] by metis
  next
    case False
    then have "length (filter is_set_op (drop j ops)) = 0" using j(3) dirty by linarith
    then have "filter is_set_op (drop j ops) = []" by simp
    then have "spec_run ops (s_files s0) = spec_run (take j ops) (s_files s0)"
      using spec_run_no_set [of "drop j ops"] by (metis append_take_drop_id foldl_append spec_run_def)
    moreover have "ds' = []" using assms(7) False by (simp add: wm_flush_def)
    ultimately show ?thesis using ran [OF that(1)] j(2) by simp
  qed
  moreover have "exit_disk env effs s ?d p = ?d p" if "out = Exit 0 \<and> r \<noteq> ok \<or> out = Exit 1"
    using that
  proof
    assume "out = Exit 0 \<and> r \<noteq> ok"
    then show ?thesis using ran failed_flush [OF assms(7)] path by simp
  next
    assume "out = Exit 1"
    then show ?thesis using no_flush_on_failure assms(1) by (simp add: exit_disk_def)
  qed
  then have "restart_files p opts (exit_disk env effs s ?d) = restart_files p opts ?d" if "out = Exit 0 \<and> r \<noteq> ok \<or> out = Exit 1"
    using that restart_cong by blast
  moreover have "exit_disk env effs s ?d = ?d" if "out = Exit 1"
    using no_flush_on_failure assms(1) that by (simp add: exit_disk_def)
  ultimately show ?thesis using j by metis
qed

text \<open>
  One update is not yet written when the watcher fails, when the process is stopped and the disk is
  full, and when it is stopped and the flush succeeds.
\<close>

theorem final_flush_witness:
  "\<exists>effs0 effs1 s. s = fst (wm_run [OpSet ''/a'' 2 7 no_fault] (fresh_store ''/w/s'' sample_opts) (\<lambda>_. None)) \<and>
     s_files s = [(''/a'', \<lparr>w_offset = 2, w_inode = 7\<rparr>)] \<and>
     main_run sample_pd (good_boot True [Inl CtxCanceled, ok]) = (Exit 0, effs0) \<and>
     restart_files ''/w/s'' sample_opts (exit_disk no_fault effs0 s (\<lambda>_. None)) = Some (s_files s) \<and>
     restart_files ''/w/s'' sample_opts
       (exit_disk (no_fault\<lparr>pe_rename := Some (ErrText ''full'')\<rparr>) effs0 s (\<lambda>_. None)) = Some [] \<and>
     main_run sample_pd (good_boot False [failing ''glob'', Inl CtxCanceled]) = (Exit 1, effs1) \<and>
     restart_files ''/w/s'' sample_opts (exit_disk no_fault effs1 s (\<lambda>_. None)) = Some []"
proof -
  let ?ops = "[OpSet ''/a'' 2 7 no_fault]" and ?s0 = "fresh_store ''/w/s'' sample_opts"
    and ?full = "no_fault\<lparr>pe_rename := Some (ErrText ''full'')\<rparr>" and ?d = "\<lambda>_. None"
  define s where "s = fst (wm_run ?ops ?s0 ?d)"
  have run: "wm_run ?ops ?s0 ?d = (s, [])" and s: "s_files s = [(''/a'', \<lparr>w_offset = 2, w_inode = 7\<rparr>)]" "s_dirty s" "s_updates s = 1"
    by (simp_all add: s_def wm_step_def wm_set_def should_persist_def fresh_store_def sample_opts_def Let_def gm_empty_def)
  obtain effs0 effs1 where m: "main_run sample_pd (good_boot True [Inl CtxCanceled, ok]) = (Exit 0, effs0)"
    "main_run sample_pd (good_boot False [failing ''glob'', Inl CtxCanceled]) = (Exit 1, effs1)"
    by (simp add: main_runs [OF good_boot_checked] run_runners_def wait_two stopped_well_def Let_def)
  have bt: "bt_store (good_boot x rs) = Inr ?s0" for x rs by (simp add: good_boot_def)
  have new: "new_store \<lparr>se_read = None, se_rename = None, se_time = []\<rparr> ''/w/s'' sample_opts ?d = (Inr ?s0, ?d)"
    by (simp add: new_store_def wm_load_def fresh_store_def)
  have stor: "storable (s_files ?s0)" "list_all op_storable ?ops"
    by (simp_all add: fresh_store_def gm_empty_def storable_def gm_ok_def gm_keys_def op_storable_def entry_in_range_def utf8_valid_ascii)
  have "snd (snd (wm_flush no_fault s ?d)) = ok" "snd (snd (wm_flush ?full s ?d)) \<noteq> ok"
    using s(2) by (simp_all add: wm_flush_def persist_locked_def no_fault_def Let_def)
  then obtain s1 ds1 s2 ds2 r2 where fl: "wm_flush no_fault s (last [?d]) = (s1, ds1, ok)"
    "wm_flush ?full s (last [?d]) = (s2, ds2, r2)" "r2 \<noteq> ok" by (metis last.simps prod.collapse)
  have sp: "spec_run ?ops (s_files ?s0) = s_files s" using run_refines [OF run] by simp
  have lost: "spec_run (take j ?ops) (s_files ?s0) = []" if "int (length (filter is_set_op (drop j ?ops))) = s_updates s" for j
    using that s(3) by (cases j) (simp_all add: is_set_op_def spec_run_def fresh_store_def gm_empty_def)
  note final = final_flush_depends_on_the_exit_code [OF _ bt new stor run]
  have "restart_files ''/w/s'' sample_opts (exit_disk no_fault effs0 s ?d) = Some (s_files s)"
    using final [OF m(1) fl(1)] sp by simp
  moreover have "restart_files ''/w/s'' sample_opts (exit_disk ?full effs0 s ?d) = Some []"
    using final [OF m(1) fl(2)] fl(3) lost by auto
  moreover have "restart_files ''/w/s'' sample_opts (exit_disk no_fault effs1 s ?d) = Some []"
    using final [OF m(2) fl(1)] lost by auto
  ultimately show ?thesis using m s(1) s_def by blast
qed

section \<open>A graceful stop\<close>

text \<open>
  Kafka and HTTP clients refuse a context that is already done; the pipeline shuts down with the
  context that was cancelled.
\<close>

definition refuses :: "'k sink \<Rightarrow> go_error \<Rightarrow> bool" where
  "refuses s e \<longleftrightarrow> (\<forall>k ps. ps \<noteq> [] \<longrightarrow> publish_to_sink s k ps = (k, Inl e))"

lemma refused_record:
  assumes "refuses s e" "is_canceled e" "\<And>n. dn n = Some CtxCanceled"
  shows "\<exists>e'. publish_and_advance s pd cfg dn [it] w = Some (w, Inl e') \<and> is_canceled e'"
proof -
  have "\<exists>e' waits. publish_batch_with_retry s (retry_policy_of pd cfg) dn [p_payload it] (w_sink w) = Some (w_sink w, waits, Inl e') \<and>
      is_canceled e'"
    unfolding publish_batch_with_retry_def
    by (subst retry_from_unfold) (use assms in \<open>auto simp: refuses_def attempts_error_def\<close>)
  then show ?thesis by (auto simp: publish_and_advance_def)
qed

text \<open>
  C40.
  A graceful stop does not publish what the parser still holds, when the sink refuses a cancelled
  context: \<open>Run\<close> flushes the parser with the context that was cancelled, the first record that would
  be published fails, no watermark moves and nothing is written; the error counts as a cancellation, so
  the process exits with code 0.
\<close>

theorem graceful_stop_leaves_the_buffered_record:
  assumes "refuses (re_sink env) e" "is_canceled e" "\<And>ev n. re_done env ev n = Some CtxCanceled"
    and "parser_flush (pl_parser p) order ps = (ps', ev # evs)" "run_stages (re_stages env) p ev = Passed payload t"
  shows "\<exists>e'. run_pipeline env p order [] ps w = Some (w, Inl e') \<and>
     (\<forall>b cfg. all_checked pd b cfg \<and> bt_results b = [Inl CtxCanceled, Inl e'] \<longrightarrow> fst (main_run pd b) = Exit 0)"
proof -
  obtain e' where e': "publish_and_advance (re_sink env) (re_durations env) (cfg_pipeline (pl_cfg p)) (re_done env ev)
      [pending_of ev payload] w = Some (w, Inl e')" "is_canceled e'"
    using refused_record [OF assms(1,2), of "re_done env ev"] assms(3) by blast
  then have "process_event env p ev w = Some (w, Inl e')" using assms(5) by (simp add: process_event_def)
  then have r: "run_pipeline env p order [] ps w = Some (w, Inl e')"
    using assms(4) by (simp add: run_shutdown_def run_flush_parser_def)
  have "fst (main_run pd b) = Exit 0" if "all_checked pd b cfg" "bt_results b = [Inl CtxCanceled, Inl e']" for b cfg
    using main_runs [OF that(1)] that(2) e'(2) by (simp add: run_runners_def wait_two stopped_well_def Let_def)
  then show ?thesis using r by blast
qed

definition refusing_sink :: "'k sink" where
  "refusing_sink = \<lparr>snk_publish = (\<lambda>k p. (k, Inl CtxCanceled)), snk_batch = Some (\<lambda>k ps. (k, Inl CtxCanceled))\<rparr>"

theorem graceful_stop_leaves_the_buffered_record_witness:
  "\<exists>(env :: (file_sink, unit, nat) run_env) ps e'. ps = fst (parser_feed (MultilineParser starts_S) parser_init (text_line ''S1'' 3)) \<and>
     run_pipeline env (text_pipeline (MultilineParser starts_S)) [''/a''] [] ps (sample_world []) =
       Some (sample_world [], Inl e') \<and> fst (main_run sample_pd (good_boot True [Inl CtxCanceled, Inl e'])) = Exit 0"
proof -
  let ?p = "text_pipeline (MultilineParser starts_S)" and ?ps = "fst (parser_feed (MultilineParser starts_S) parser_init (text_line ''S1'' 3))"
  let ?env = "text_env\<lparr>re_sink := refusing_sink, re_done := \<lambda>ev n. Some CtxCanceled\<rparr>"
  obtain pl where pl: "run_stages (re_stages ?env) ?p (text_event ''S1'' 3) = Passed pl False"
    using text_stages [of "MultilineParser starts_S" "''S1''" 3] by auto
  have f: "parser_flush (pl_parser ?p) [''/a''] ?ps = (fst (parser_flush (pl_parser ?p) [''/a''] ?ps), [text_event ''S1'' 3])"
    by (simp add: parser_feed_def parser_flush_def ml_feed_def text_line_def starts_S_def has_prefix_def parser_init_def
        gm_empty_def gm_get_def gm_del_def flush_buffer_def text_event_def)
  have "refuses (re_sink ?env) CtxCanceled" "is_canceled CtxCanceled" "\<And>ev n. re_done ?env ev n = Some CtxCanceled"
    by (simp_all add: refuses_def refusing_sink_def publish_to_sink_def)
  from graceful_stop_leaves_the_buffered_record [OF this f pl, where w = "sample_world []" and pd = sample_pd]
  obtain e' where "run_pipeline ?env ?p [''/a''] [] ?ps (sample_world []) = Some (sample_world [], Inl e')"
    "\<forall>b cfg. all_checked sample_pd b cfg \<and> bt_results b = [Inl CtxCanceled, Inl e'] \<longrightarrow> fst (main_run sample_pd b) = Exit 0"
    by blast
  then show ?thesis using good_boot_checked [of sample_pd True "[Inl CtxCanceled, Inl e']"] good_boot_simps(1) by blast
qed

section \<open>A level in capitals\<close>

text \<open>
  Validation folds the case of the level and of the format, the logger does not: a configuration with
  the level \<open>DEBUG\<close> and the format \<open>JSON\<close> is valid, and logs at the level of information in plain text.
\<close>

theorem level_in_capitals_is_ignored:
  "\<exists>c lg. validate_config sample_env builtin_types c = ok \<and> log_level (cfg_logging c) = ''DEBUG'' \<and>
     log_format (cfg_logging c) = ''JSON'' \<and> new_logger (\<lambda>p. ok) (\<lambda>p. ok) (cfg_logging c) = Inr lg \<and>
     lg_level lg = LevelInfo \<and> \<not> lg_json lg"
proof -
  let ?c = "(with_outputs ''/wx/l'')\<lparr>cfg_logging := \<lparr>log_level = ''DEBUG'', log_format = ''JSON'', log_file = [], log_status_interval = []\<rparr>\<rparr>"
  have "validate_config sample_env builtin_types ?c = ok" by code_simp
  then show ?thesis by (intro exI [of _ ?c]) (simp add: new_logger_def logger_level_def)
qed

end
