(* ===== verification/PipelineSetup.thy ===== *)
theory PipelineSetup
  imports Pipeline Validate
begin

text \<open>
  A configuration that passes \<open>Validate\<close> gives a pipeline: each check of the validation against the
  constructor it stands before.
\<close>

section \<open>What validation says about the names\<close>

lemma builtin_names:
  "known_type (parser_types builtin_types) ty \<longleftrightarrow> ty \<in> {''line'', ''multiline''}"
  "known_type (transformer_types builtin_types) ty \<longleftrightarrow> ty \<in> {''delimiter'', ''tab'', ''regex''}"
  "known_type (enricher_types builtin_types) ty \<longleftrightarrow> ty \<in> {''static'', ''host''}"
  "known_type (filter_types builtin_types) ty \<longleftrightarrow> ty \<in> {''field'', ''compound''}"
  by (simp_all add: known_type_def builtin_types_def register_all_def register_type_def gm_get_put gm_get_empty)

text \<open>
  The registries after \<open>init\<close>.  \<open>pcompile\<close> and \<open>tcompile\<close> are \<open>regexp.Compile\<close> seen by the parser and by
  the transformer; \<open>names\<close> are the orders in which Go lists the names of a registry in an error.
\<close>

definition builtin_registries ::
  "(string \<Rightarrow> (bytes \<Rightarrow> bool) result) \<Rightarrow> (string \<Rightarrow> regex_engine result) \<Rightarrow> string result \<Rightarrow> (string \<rightharpoonup> filter_factory)
     \<Rightarrow> string list \<times> string list \<times> string list \<Rightarrow> ('l, 't) time_pkg \<Rightarrow> ('l, 't) registries" where
  "builtin_registries pcompile tcompile hostname filters names tp =
     \<lparr>reg_parsers = parser_registry pcompile Map.empty, reg_transforms = transform_registry tcompile Map.empty,
      reg_enrichers = enricher_registry hostname Map.empty, reg_filters = filters,
      reg_parser_names = fst names, reg_transform_names = fst (snd names), reg_filter_names = snd (snd names), reg_time = tp\<rparr>"

lemma parser_builds:
  assumes "validate_parser env builtin_types c = ok" "\<forall>p. ve_regexp env p = ok \<longrightarrow> (\<exists>re. pcompile p = Inr re)"
  shows "\<exists>p. new_parser (parser_registry pcompile Map.empty) names (cfg_parser c) = Inr p"
proof -
  define ty where "ty = (if parser_type (cfg_parser c) = [] then ''line'' else parser_type (cfg_parser c))"
  have v: "ty = ''line'' \<or> ty = ''multiline'' \<and> ve_regexp env (parser_start_pattern (cfg_parser c)) = ok"
    using assms(1) unfolding validate_parser_def Let_def ty_def [symmetric] builtin_names
    by (auto simp: bind_ok split: if_splits)
  have n: "new_parser (parser_registry pcompile Map.empty) names (cfg_parser c) = (if ty = ''line'' then Inr LineParser
      else new_multiline_parser pcompile (cfg_parser c))" if "ty \<in> {''line'', ''multiline''}"
    using that unfolding new_parser_def ty_def [symmetric] by (auto simp: parser_registry_def)
  from v show ?thesis
  proof
    assume "ty = ''line''"
    then show ?thesis using n by simp
  next
    assume m: "ty = ''multiline'' \<and> ve_regexp env (parser_start_pattern (cfg_parser c)) = ok"
    then obtain re where "pcompile (parser_start_pattern (cfg_parser c)) = Inr re" using assms(2) by blast
    then show ?thesis using n m by (simp add: new_multiline_parser_def)
  qed
qed

lemma transformer_builds:
  assumes "validate_transform builtin_types c = ok"
  shows "(\<exists>t. new_transformer (transform_registry tcompile Map.empty) names (cfg_transform c) = Inr t) \<or>
     transform_type (cfg_transform c) = ''regex'' \<and> (\<exists>e. tcompile (transform_pattern (cfg_transform c)) = Inl e)"
proof -
  have v: "transform_type (cfg_transform c) \<in> {''delimiter'', ''tab'', ''regex''}"
    "transform_type (cfg_transform c) = ''regex'' \<longrightarrow> transform_pattern (cfg_transform c) \<noteq> []"
    using assms unfolding validate_transform_def Let_def builtin_names by (auto split: if_splits)
  then show ?thesis
    by (cases "tcompile (transform_pattern (cfg_transform c))")
      (auto simp: new_transformer_def transform_registry_def new_tab_transformer_def new_regex_transformer_def)
qed

lemma chain_builds:
  "validate_enrichers_from builtin_types i es = ok \<Longrightarrow>
     \<exists>chain. new_chain (enricher_registry hostname Map.empty) es = Inr chain \<and> length chain = length es"
proof (induction es arbitrary: i)
  case (Cons e es)
  have e: "enricher_type e \<in> {''static'', ''host''}" "validate_enrichers_from builtin_types (i + 1) es = ok"
    using Cons.prems unfolding validate_enrichers_from.simps builtin_names by (auto split: if_splits)
  then obtain chain where "new_chain (enricher_registry hostname Map.empty) es = Inr chain" "length chain = length es"
    using Cons.IH by blast
  moreover have "\<exists>f e'. enricher_registry hostname Map.empty (enricher_type e) = Some f \<and> f e = Inr e'"
    using e(1) by (auto simp: enricher_registry_def new_static_enricher_def new_host_enricher_def)
  ultimately show ?case by auto
qed simp

lemma normalizer_builds:
  assumes "validate_timestamp env c = ok" "\<forall>z. ve_zone env z = ok \<longrightarrow> (\<exists>l. tp_load tp z = Inr l)"
  shows "\<exists>n. new_normalizer tp (cfg_timestamp c) = Inr n \<and> (n = None \<longleftrightarrow> \<not> timestamp_enabled (cfg_timestamp c))"
proof (cases "timestamp_enabled (cfg_timestamp c)")
  case False
  then show ?thesis by (simp add: new_normalizer_def)
next
  case True
  then have "ve_zone env (default_timezone_or_default (cfg_timestamp c)) = ok"
    using assms(1) unfolding validate_timestamp_def Let_def by (auto simp: bind_ok split: if_splits)
  then obtain l where "tp_load tp (default_timezone_or_default (cfg_timestamp c)) = Inr l" using assms(2) by blast
  then show ?thesis using True by (simp add: new_normalizer_def)
qed

text \<open>
  C29.
  A valid configuration builds its pipeline, with one enricher per entry, a normalizer exactly when
  one is configured and batching as configured; the only way for \<open>New\<close> to fail is a \<open>transform.pattern\<close>
  that does not compile, which validation does not look at.
\<close>

theorem valid_config_builds_the_pipeline:
  assumes "validate_config env builtin_types c = ok"
    and "\<forall>p. ve_regexp env p = ok \<longrightarrow> (\<exists>re. pcompile p = Inr re)" "\<forall>z. ve_zone env z = ok \<longrightarrow> (\<exists>l. tp_load tp z = Inr l)"
  shows "(\<exists>p. new_pipeline (builtin_registries pcompile tcompile hostname filters names tp) pd c = Inr p \<and> pl_cfg p = c \<and>
        length (pl_enrichers p) = length (cfg_enrichers c) \<and>
        (pl_normalizer p = None \<longleftrightarrow> \<not> timestamp_enabled (cfg_timestamp c)) \<and>
        pl_batch_enabled p = publish_batch_enabled pd (publish_batch (cfg_pipeline c))) \<or>
     transform_type (cfg_transform c) = ''regex'' \<and> (\<exists>e. tcompile (transform_pattern (cfg_transform c)) = Inl e)"
proof -
  note v = validate_config_parts [OF assms(1)]
  obtain pr where pr: "new_parser (parser_registry pcompile Map.empty) (fst names) (cfg_parser c) = Inr pr"
    using parser_builds [OF v(3) assms(2)] by blast
  obtain chain where ch: "new_chain (enricher_registry hostname Map.empty) (cfg_enrichers c) = Inr chain"
    "length chain = length (cfg_enrichers c)"
    using chain_builds v(6) by (metis validate_enrichers_def)
  obtain n where n: "new_normalizer tp (cfg_timestamp c) = Inr n" "n = None \<longleftrightarrow> \<not> timestamp_enabled (cfg_timestamp c)"
    using normalizer_builds [OF v(5) assms(3)] by blast
  have "registry_builds (known_type (filter_types builtin_types)) filters (\<lambda>cfg r. True)"
    by (auto simp: registry_builds_def builtin_names)
  from validated_filter_builds [OF v(7) this] obtain f where f: "new_filter filters (snd (snd names)) (cfg_filter c) = Inr f" by blast
  show ?thesis
  proof (cases "\<exists>t. new_transformer (transform_registry tcompile Map.empty) (fst (snd names)) (cfg_transform c) = Inr t")
    case True
    then show ?thesis using pr ch n f by (auto simp: new_pipeline_def builtin_registries_def)
  next
    case False
    then show ?thesis using transformer_builds [OF v(4)] by blast
  qed
qed

theorem valid_config_builds_the_pipeline_witness:
  "\<exists>p. new_pipeline (builtin_registries (\<lambda>p. Inr (\<lambda>b. True)) (\<lambda>p. failing ''bad'') (Inr ''h'') Map.empty ([], [], []) sample_time) sample_pd
       (with_outputs ''/wx/l'') = Inr p \<and> length (pl_enrichers p) = 1"
proof -
  have "transform_type (cfg_transform (with_outputs ''/wx/l'')) \<noteq> ''regex''" "length (cfg_enrichers (with_outputs ''/wx/l'')) = 1"
    by code_simp+
  moreover have "\<forall>z. ve_zone sample_env z = ok \<longrightarrow> (\<exists>l. tp_load sample_time z = Inr l)" by (simp add: sample_time_def)
  ultimately show ?thesis
    using valid_config_builds_the_pipeline [OF with_outputs_valid, where pcompile = "\<lambda>p. Inr (\<lambda>b. True)" and
        tcompile = "\<lambda>p. failing ''bad''" and tp = sample_time and names = "([], [], [])" and hostname = "Inr ''h''" and filters = Map.empty and pd = sample_pd]
    by auto
qed

section \<open>The watcher\<close>

text \<open>
  Validation accepts any duration as \<open>watch.poll\<close>, but a watcher whose interval is not positive never
  reaches its loop: when nothing else fails at its start, the first scan is followed by a panic of
  \<open>time.NewTicker\<close>, which ends the process.
\<close>

theorem non_positive_poll_never_runs:
  assumes "poll_interval pd c \<le> 0"
  shows "snd (watch_run room sa ts (new_watcher pd c)) = Panicked \<or> (\<exists>e. snd (watch_run room sa ts (new_watcher pd c)) = Returned (Inl e))"
  using assms by (auto simp: watch_run_def new_watcher_def Let_def split: sum.split prod.split)

definition zero_env :: val_env where
  "zero_env = sample_env\<lparr>ve_durations := \<lambda>s. if s = ''0s'' then Inr 0 else ve_durations sample_env s\<rparr>"

definition zero_config :: config where
  "zero_config = (let c = with_outputs ''/wx/l'' in c\<lparr>cfg_watch := (cfg_watch c)\<lparr>watch_poll := ''0s''\<rparr>\<rparr>)"

definition quiet_start :: start_answers where
  "quiet_start = \<lparr>sa_notifier = ok, sa_mkdir = (\<lambda>d. ok), sa_add = (\<lambda>d. ok), sa_fs = sample_fs [] 7, sa_marks = (\<lambda>p. None)\<rparr>"

theorem non_positive_poll_never_runs_witness:
  "validate_config zero_env builtin_types zero_config = ok \<and>
   snd (watch_run (\<lambda>e. True) quiet_start [] (new_watcher (ve_durations zero_env) zero_config)) = Panicked"
proof
  show "validate_config zero_env builtin_types zero_config = ok" by code_simp
  have "poll_interval (ve_durations zero_env) zero_config \<le> 0" by code_simp
  moreover have "case snd (watch_run (\<lambda>e. True) quiet_start [] (new_watcher (ve_durations zero_env) zero_config)) of
      Returned r \<Rightarrow> False | _ \<Rightarrow> True" by code_simp
  ultimately show "snd (watch_run (\<lambda>e. True) quiet_start [] (new_watcher (ve_durations zero_env) zero_config)) = Panicked"
    using non_positive_poll_never_runs [of "ve_durations zero_env" zero_config "\<lambda>e. True" quiet_start "[]"] by auto
qed

end
