(* ===== verification/Registration.thy ===== *)
theory Registration
  imports PipelineSetup SinkSetup
begin

text \<open>
  The \<open>Register\<close> functions of the five packages with factories (parser, transform, enrich, filter, sink).
  Each package keeps a map of factories and tells \<open>internal/config\<close> the name; validation looks at the
  names, construction at the map.  Whatever a program registers, the two agree.
\<close>

section \<open>A registry and its names\<close>

type_synonym 'f registry = "(string \<rightharpoonup> 'f) \<times> type_names"

text \<open>The assignment to the map of the package, then \<open>config.Register...Type\<close>.\<close>

definition register_parser :: "string \<Rightarrow> parser_factory \<Rightarrow> parser_factory registry \<Rightarrow> parser_factory registry" where
  "register_parser name factory r = ((fst r)(name \<mapsto> factory), register_type name (snd r))"

definition register_transform :: "string \<Rightarrow> transform_factory \<Rightarrow> transform_factory registry \<Rightarrow> transform_factory registry" where
  "register_transform name factory r = ((fst r)(name \<mapsto> factory), register_type name (snd r))"

definition register_enricher :: "string \<Rightarrow> enricher_factory \<Rightarrow> enricher_factory registry \<Rightarrow> enricher_factory registry" where
  "register_enricher name factory r = ((fst r)(name \<mapsto> factory), register_type name (snd r))"

definition register_filter :: "string \<Rightarrow> filter_factory \<Rightarrow> filter_factory registry \<Rightarrow> filter_factory registry" where
  "register_filter name factory r = ((fst r)(name \<mapsto> factory), register_type name (snd r))"

definition register_sink ::
  "string \<Rightarrow> ('c, 'm) sink_factory \<Rightarrow> ('c, 'm) sink_factory registry \<Rightarrow> ('c, 'm) sink_factory registry" where
  "register_sink name factory r = ((fst r)(name \<mapsto> factory), register_type name (snd r))"

text \<open>
  The state after the \<open>init\<close> functions: that of \<open>config\<close> runs first, because the other packages import it;
  the package of the filters registers nothing, its two kinds are cases of a switch.
\<close>

definition new_line_parser :: parser_factory where
  "new_line_parser cfg = Inr LineParser"

definition init_parsers :: "(string \<Rightarrow> (bytes \<Rightarrow> bool) result) \<Rightarrow> parser_factory registry" where
  "init_parsers compile = register_parser ''multiline'' (new_multiline_parser compile)
     (register_parser ''line'' new_line_parser (Map.empty, parser_types builtin_types))"

definition init_transforms :: "(string \<Rightarrow> regex_engine result) \<Rightarrow> transform_factory registry" where
  "init_transforms compile =
     register_transform ''regex'' (\<lambda>cfg. bind_res (new_regex_transformer compile cfg) (\<lambda>t. Inr (RegexT t)))
       (register_transform ''tab'' new_tab_transformer
         (register_transform ''delimiter'' (\<lambda>cfg. Inr (DelimiterT (new_delimiter_transformer cfg)))
           (Map.empty, transformer_types builtin_types)))"

definition init_enrichers :: "string result \<Rightarrow> enricher_factory registry" where
  "init_enrichers hostname = register_enricher ''host'' (new_host_enricher hostname)
     (register_enricher ''static'' new_static_enricher (Map.empty, enricher_types builtin_types))"

definition init_filters :: "filter_factory registry" where
  "init_filters = (Map.empty, filter_types builtin_types)"

definition init_sinks :: "val_env \<Rightarrow> ('c, 'm) tls_env \<Rightarrow> ('c, 'm) sink_factory registry" where
  "init_sinks venv env = register_sink ''kafka'' (new_kafka_sink venv env)
     (register_sink ''http-noauth'' (new_http_noauth_sink venv)
       (register_sink ''file'' new_file_sink (Map.empty, sink_types builtin_types)))"

text \<open>The calls a program makes, in order.\<close>

definition register_calls :: "(string \<Rightarrow> 'f \<Rightarrow> 'f registry \<Rightarrow> 'f registry) \<Rightarrow> (string \<times> 'f) list \<Rightarrow> 'f registry \<Rightarrow> 'f registry" where
  "register_calls reg calls r = foldl (\<lambda>r c. reg (fst c) (snd c) r) r calls"

section \<open>The interface\<close>

text \<open>
  What the packages share: registering stores the factory, and makes the name known unless it is empty.
  \<open>silent\<close> are names that are known without a factory.
\<close>

locale factory_registry =
  fixes reg :: "string \<Rightarrow> 'f \<Rightarrow> 'f registry \<Rightarrow> 'f registry" and silent :: "string set"
  assumes factory_after: "fst (reg n f r) m = (if m = n then Some f else fst r m)"
    and known_after: "known_type (snd (reg n f r)) m \<longleftrightarrow> m = n \<and> n \<noteq> [] \<or> known_type (snd r) m"
begin

definition agree :: "'f registry \<Rightarrow> bool" where
  "agree r \<longleftrightarrow> (\<forall>n. n \<noteq> [] \<longrightarrow> (known_type (snd r) n \<longleftrightarrow> fst r n \<noteq> None \<or> n \<in> silent)) \<and> \<not> known_type (snd r) []"

lemma agree_reg: "agree r \<Longrightarrow> agree (reg n f r)"
  by (auto simp: agree_def factory_after known_after)

lemma agree_calls: "agree r \<Longrightarrow> agree (register_calls reg calls r)"
  unfolding register_calls_def by (induction calls arbitrary: r) (simp_all add: agree_reg)

lemma last_call_wins:
  "fst (register_calls reg calls r) n = (case map_of (rev calls) n of Some f \<Rightarrow> Some f | None \<Rightarrow> fst r n)"
  unfolding register_calls_def
  by (induction calls arbitrary: r) (auto simp: factory_after map_add_def split: option.splits)

end

lemma known_register: "known_type (register_type n ts) m \<longleftrightarrow> m = n \<and> n \<noteq> [] \<or> known_type ts m"
  by (simp add: known_type_def register_type_def gm_get_put)

interpretation pr: factory_registry register_parser "{}"
  by unfold_locales (simp_all add: register_parser_def known_register)

interpretation tr: factory_registry register_transform "{}"
  by unfold_locales (simp_all add: register_transform_def known_register)

interpretation er: factory_registry register_enricher "{}"
  by unfold_locales (simp_all add: register_enricher_def known_register)

interpretation fr: factory_registry register_filter "{''field'', ''compound''}"
  by unfold_locales (simp_all add: register_filter_def known_register)

interpretation sr: factory_registry register_sink "{}"
  by unfold_locales (simp_all add: register_sink_def known_register)

lemmas init_simps = init_parsers_def init_transforms_def init_enrichers_def init_filters_def init_sinks_def
  register_parser_def register_transform_def register_enricher_def register_filter_def register_sink_def
  known_register builtin_names builtin_sink_types

lemma agree_init:
  "pr.agree (init_parsers pcompile)" "tr.agree (init_transforms tcompile)" "er.agree (init_enrichers hostname)"
  "fr.agree init_filters" "sr.agree (init_sinks venv env)"
  by (auto simp: pr.agree_def tr.agree_def er.agree_def fr.agree_def sr.agree_def init_simps)

text \<open>The registries the constructors were stated over.\<close>

lemma init_registries:
  "fst (init_parsers pcompile) = parser_registry pcompile Map.empty"
  "fst (init_transforms tcompile) = transform_registry tcompile Map.empty"
  "fst (init_enrichers hostname) = enricher_registry hostname Map.empty"
  "fst (init_sinks venv env) = sink_registry venv env Map.empty"
  by (auto simp: init_simps parser_registry_def transform_registry_def enricher_registry_def sink_registry_def
      new_line_parser_def fun_eq_iff)

definition last_or :: "(string \<times> 'f) list \<Rightarrow> (string \<Rightarrow> 'f option) \<Rightarrow> string \<Rightarrow> 'f option" where
  "last_or calls g n = (case map_of (rev calls) n of Some f \<Rightarrow> Some f | None \<Rightarrow> g n)"

text \<open>
  C31.
  Validation and construction agree on the names: after any sequence of registrations, a nonempty
  type name passes validation exactly when a factory is stored under it (filters have two built-in
  kinds besides), the empty name never does, and the last registration of a name is the one in force.
\<close>

theorem known_names_have_factories:
  fixes env :: "('c, 'm) tls_env"
  assumes P: "P = register_calls register_parser ps (init_parsers pcompile)"
    and T: "T = register_calls register_transform ts (init_transforms tcompile)"
    and E: "E = register_calls register_enricher es (init_enrichers hostname)"
    and F: "F = register_calls register_filter fs init_filters"
    and S: "S = register_calls register_sink ss (init_sinks venv env)"
  shows "(n \<noteq> [] \<longrightarrow>
     (known_type (snd P) n \<longleftrightarrow> fst P n \<noteq> None) \<and> (known_type (snd T) n \<longleftrightarrow> fst T n \<noteq> None) \<and>
     (known_type (snd E) n \<longleftrightarrow> fst E n \<noteq> None) \<and> (known_type (snd S) n \<longleftrightarrow> fst S n \<noteq> None) \<and>
     (known_type (snd F) n \<longleftrightarrow> fst F n \<noteq> None \<or> n \<in> {''field'', ''compound''})) \<and>
     (\<not> known_type (snd P) [] \<and> \<not> known_type (snd T) [] \<and> \<not> known_type (snd E) [] \<and>
     \<not> known_type (snd F) [] \<and> \<not> known_type (snd S) []) \<and>
     fst P n = last_or ps (fst (init_parsers pcompile)) n \<and> fst T n = last_or ts (fst (init_transforms tcompile)) n \<and>
     fst E n = last_or es (fst (init_enrichers hostname)) n \<and> fst F n = last_or fs (fst init_filters) n \<and>
     fst S n = last_or ss (fst (init_sinks venv env)) n"
proof -
  have "pr.agree P" "tr.agree T" "er.agree E" "fr.agree F" "sr.agree S"
    unfolding P T E F S
    by (rule pr.agree_calls tr.agree_calls er.agree_calls fr.agree_calls sr.agree_calls, rule agree_init)+
  note a = this [unfolded pr.agree_def tr.agree_def er.agree_def fr.agree_def sr.agree_def]
  have "fst P n = last_or ps (fst (init_parsers pcompile)) n \<and> fst T n = last_or ts (fst (init_transforms tcompile)) n \<and>
     fst E n = last_or es (fst (init_enrichers hostname)) n \<and> fst F n = last_or fs (fst init_filters) n \<and>
     fst S n = last_or ss (fst (init_sinks venv env)) n"
    unfolding P T E F S last_or_def
    by (intro conjI pr.last_call_wins tr.last_call_wins er.last_call_wins fr.last_call_wins sr.last_call_wins)
  with a show ?thesis by simp
qed

theorem known_names_have_factories_witness:
  "known_type (snd (register_calls register_transform [(''upper'', new_tab_transformer)] (init_transforms (\<lambda>p. failing ''bad'')))) ''upper''"
proof -
  let ?T = "register_calls register_transform [(''upper'', new_tab_transformer)] (init_transforms (\<lambda>p. failing ''bad''))"
  have "known_type (snd ?T) ''upper'' \<longleftrightarrow> fst ?T ''upper'' \<noteq> None"
    using known_names_have_factories [OF refl refl refl refl refl, where n = "''upper''" and ss = "[]" and ps = "[]" and
        es = "[]" and fs = "[]" and ts = "[(''upper'', new_tab_transformer)]" and tcompile = "\<lambda>p. failing ''bad''" and
        env = sample_tls and venv = sample_env and hostname = "Inr ''h''" and pcompile = "\<lambda>p. failing ''bad''"]
    by blast
  then show ?thesis by (simp add: register_calls_def register_transform_def)
qed

end
