(* ===== verification/Custom.thy ===== *)
theory Custom
  imports Forwarder Registration
begin

text \<open>
  The forwarder with extensions of \<open>examples/custom/main.go\<close>: a transformer and an enricher registered by
  the program, and a \<open>main\<close> without metrics, controller and log file.  The record that leaves the two
  stages is stated field by field; the process is compared with the one of \<open>cmd/log-forwarder\<close>.
\<close>

section \<open>The extensions\<close>

text \<open>\<open>uppercaseTab.Transform\<close>.\<close>

definition uppercase_tab :: "val_env \<Rightarrow> transformer \<Rightarrow> bytes \<Rightarrow> go_record result" where
  "uppercase_tab env base line =
     bind_res (transform_line base line) (\<lambda>r.
       Inr (case gm_get r ''message'' of
              Some (VStr msg) \<Rightarrow> gm_put r ''message'' (VStr (to_upper env msg))
            | _ \<Rightarrow> r))"

text \<open>The factory asks the registry for the transformer \<open>tab\<close>, which the registration does not change;
  \<open>names\<close> would be listed if it were not found.\<close>

definition uppercase_tab_factory :: "val_env \<Rightarrow> (string \<rightharpoonup> transform_factory) \<Rightarrow> string list \<Rightarrow> transform_factory" where
  "uppercase_tab_factory env reg names cfg =
     bind_res (new_transformer reg names \<lparr>transform_type = ''tab'', transform_delimiter = [],
         transform_columns = transform_columns cfg, transform_pattern = [], transform_on_error = []\<rparr>)
       (\<lambda>base. Inr (CustomT (uppercase_tab env base)))"

definition region_of :: "enricher_config \<Rightarrow> string" where
  "region_of cfg = (let region = (case gm_get (enricher_fields cfg) ''region'' of None \<Rightarrow> [] | Some r \<Rightarrow> r) in
     if region = [] then ''unknown'' else region)"

definition region_enrich :: "string \<Rightarrow> go_record \<Rightarrow> go_record" where
  "region_enrich region r = gm_put r ''region'' (VStr region)"

definition region_factory :: enricher_factory where
  "region_factory cfg = Inr (CustomE (region_enrich (region_of cfg)))"

text \<open>\<open>init\<close> runs after those of the packages.\<close>

definition custom_transforms :: "val_env \<Rightarrow> string list \<Rightarrow> (string \<Rightarrow> regex_engine result) \<Rightarrow> transform_factory registry" where
  "custom_transforms env names compile =
     register_transform ''uppercase_tab'' (uppercase_tab_factory env (fst (init_transforms compile)) names) (init_transforms compile)"

definition custom_enrichers :: "string result \<Rightarrow> enricher_factory registry" where
  "custom_enrichers hostname = register_enricher ''region'' region_factory (init_enrichers hostname)"

section \<open>What the extensions do to a record\<close>

definition uppercase_value :: "val_env \<Rightarrow> gval \<Rightarrow> gval" where
  "uppercase_value env v = (case v of VStr s \<Rightarrow> VStr (to_upper env s) | _ \<Rightarrow> v)"

lemma uppercase_tab_get:
  assumes "uppercase_tab env base line = Inr r" "transform_line base line = Inr r0"
  shows "gm_get r k = (if k = ''message'' then map_option (uppercase_value env) (gm_get r0 k) else gm_get r0 k)"
  using assms by (auto simp: uppercase_tab_def uppercase_value_def gm_get_put split: option.splits gval.splits)

lemma uppercase_tab_result:
  "uppercase_tab env base line = Inr r \<Longrightarrow> \<exists>r0. transform_line base line = Inr r0"
  "transform_line base line = Inl e \<Longrightarrow> uppercase_tab env base line = Inl e"
  by (cases "transform_line base line"; simp add: uppercase_tab_def)+

text \<open>
  The registered stages, end to end: an error of the tab transformer is passed on; otherwise the record has
  the fields of the tab transformer, with \<open>message\<close> in upper case, and the region of the configuration, or
  \<open>unknown\<close>.
\<close>

theorem custom_stages_fields:
  assumes "transform_type tcfg = ''uppercase_tab''" "new_transformer (fst (custom_transforms env names compile)) names' tcfg = Inr t"
    and "enricher_type ecfg = ''region''" "new_chain (fst (custom_enrichers hostname)) [ecfg] = Inr chain"
    and base: "new_tab_transformer \<lparr>transform_type = ''tab'', transform_delimiter = [],
         transform_columns = transform_columns tcfg, transform_pattern = [], transform_on_error = []\<rparr> = Inr tab"
  shows "transform_line tab line = Inl e \<Longrightarrow> transform_line t line = Inl e"
    and "transform_line tab line = Inr r0 \<Longrightarrow> \<exists>r. transform_line t line = Inr r \<and>
       (\<forall>k. gm_get (apply_chain chain r) k =
          (if k = ''region'' then Some (VStr (region_of ecfg))
           else if k = ''message'' then map_option (uppercase_value env) (gm_get r0 k) else gm_get r0 k))"
proof -
  have t: "t = CustomT (uppercase_tab env tab)"
    using assms(1,2) base
    by (simp add: new_transformer_def custom_transforms_def register_transform_def init_registries transform_registry_def
        uppercase_tab_factory_def)
  have ch: "chain = [CustomE (region_enrich (region_of ecfg))]"
    using assms(3,4) by (simp add: custom_enrichers_def register_enricher_def region_factory_def)
  show "transform_line t line = Inl e" if "transform_line tab line = Inl e"
    using uppercase_tab_result(2) [OF that] t by (simp add: transform_line_def)
  show "\<exists>r. transform_line t line = Inr r \<and> (\<forall>k. gm_get (apply_chain chain r) k =
      (if k = ''region'' then Some (VStr (region_of ecfg))
       else if k = ''message'' then map_option (uppercase_value env) (gm_get r0 k) else gm_get r0 k))"
    if r0: "transform_line tab line = Inr r0"
  proof -
    obtain r where r: "uppercase_tab env tab line = Inr r" using r0 by (simp add: uppercase_tab_def)
    then have "transform_line t line = Inr r" using t by (simp add: transform_line_def)
    moreover have "gm_get (apply_chain chain r) k =
      (if k = ''region'' then Some (VStr (region_of ecfg))
       else if k = ''message'' then map_option (uppercase_value env) (gm_get r0 k) else gm_get r0 k)" for k
      using uppercase_tab_get [OF r r0] by (simp add: ch apply_chain_def enrich_one_def region_enrich_def gm_get_put)
    ultimately show ?thesis by blast
  qed
qed

section \<open>The process\<close>

text \<open>
  The answers are those of \<open>main\<close>; the signals cancel the context of the runners themselves, the periodic
  flush is started but has no effect the others see, and \<open>os.Exit\<close> skips the deferred calls.
\<close>

definition custom_main :: "duration_parser \<Rightarrow> boot \<Rightarrow> outcome \<times> effect list" where
  "custom_main pd b = (case bt_config b of
      Inl e \<Rightarrow> (Exit 1, [])
    | Inr cfg \<Rightarrow> (case bt_store b of
      Inl e \<Rightarrow> (Exit 1, [])
    | Inr st \<Rightarrow> (case bt_sink b of
      None \<Rightarrow> (Crash, [FlushWatermarks])
    | Some (Inl e) \<Rightarrow> (Exit 1, [])
    | Some (Inr u) \<Rightarrow>
        (if check_sink_at_startup pd (bt_checker b) cfg \<noteq> ok \<or> bt_pipeline b \<noteq> ok then (Exit 1, [])
         else
           (let begun = [RunWatcher, RunPipeline] @ (if bt_signal b then [CancelRunners] else []) in
            case runner_wait (bt_results b) of
              None \<Rightarrow> (Waiting, begun)
            | Some (err, calls) \<Rightarrow>
                (let stopped = begun @ replicate calls CancelRunners in
                 if err \<noteq> None then (Exit 1, stopped)
                 else (Exit 0, stopped @ [CloseLines, CloseSink, FlushWatermarks])))))))"

text \<open>\<open>watermarkOptions\<close> of the example, which has no flag for the reset.\<close>

definition custom_watermark_options :: "duration_parser \<Rightarrow> config \<Rightarrow> wm_options" where
  "custom_watermark_options pd c =
     (case persist_options pd (watch_state (cfg_watch c)) of (interval, every) \<Rightarrow>
        \<lparr>o_flush_interval = interval, o_flush_every = every,
         o_reset_on_corrupt = state_reset_on_corrupt (watch_state (cfg_watch c))\<rparr>)"

lemma custom_watermark_options_eq: "custom_watermark_options pd c = watermark_options pd c False"
  by (simp add: custom_watermark_options_def watermark_options_def split: prod.split)

text \<open>What \<open>main\<close> has and the example has not.\<close>

definition shared_effect :: "effect \<Rightarrow> bool" where
  "shared_effect e \<longleftrightarrow> e \<notin> {Register, Deregister, ShutdownMetrics, CloseLog}"

lemma shared_effects [simp]:
  "shared_effect RunWatcher" "shared_effect RunPipeline" "shared_effect CancelRunners" "shared_effect CloseLines"
  "shared_effect CloseSink" "shared_effect FlushWatermarks" "\<not> shared_effect Register" "\<not> shared_effect Deregister"
  "\<not> shared_effect ShutdownMetrics" "\<not> shared_effect CloseLog"
  by (simp_all add: shared_effect_def)




text \<open>
  The example does not test the directory of dead letters: a configuration whose directory cannot be
  written stops the forwarder at its start, and runs the example.
\<close>

lemma custom_skips_dead_letter_check:
  assumes "all_checked pd b cfg"
  shows "main_run pd (b\<lparr>bt_dead_letter := Inl e\<rparr>) = (Exit 1, []) \<and>
     custom_main pd (b\<lparr>bt_dead_letter := Inl e\<rparr>) = custom_main pd b"
  using assms by (auto simp: main_run_def custom_main_def all_checked_def)

end
