(* ===== verification/Accounting.thy ===== *)
theory Accounting
  imports Metrics Pipeline
begin

text \<open>
  The metrics of a pipeline without batching: \<open>process\<close>, \<open>publishAndAdvance\<close> and
  \<open>publishBatchWithRetry\<close> with the calls they make on the collector, in the order of the code.  Leaving
  the collector out gives back the functions of \<open>Pipeline\<close> and \<open>Publish\<close>; and the counters add up.
\<close>

section \<open>The functions with their metrics\<close>

definition finish_counted ::
  "('l, 't) stage_env \<Rightarrow> 'l pipeline \<Rightarrow> event \<Rightarrow> go_record \<Rightarrow> collector option \<Rightarrow> fate \<times> collector option" where
  "finish_counted env p ev r c =
     (case normalize (se_time env) (se_now env ev) (pl_normalizer p) (gm_put r ''_path'' (VStr (ev_path ev))) of
        (r2, failed) \<Rightarrow>
          (let c1 = (if failed then record_timestamp_parse_failure c else c) in
           if \<not> predicate_match (se_equal_fold env) (pl_filter p) r2 then (Filtered, record_line_filtered c1)
           else
             (let r3 = apply_chain (pl_enrichers p) r2; pc = cfg_pipeline (pl_cfg p) in
              case marshal_publish_payload r3 (se_visit env r3) (max_publish_bytes pc)
                  (truncate_field_or_default pc) (truncate_suffix_or_default pc) of
                Inl e \<Rightarrow> (Refused e, c1)
              | Inr v \<Rightarrow> (Passed (fst v) (snd v), if snd v then record_publish_truncation c1 else c1))))"

definition stages_counted ::
  "('l, 't) stage_env \<Rightarrow> 'l pipeline \<Rightarrow> event \<Rightarrow> collector option \<Rightarrow> fate \<times> collector option" where
  "stages_counted env p ev c =
     (case transform_line (pl_transformer p) (ev_data ev) of
        Inr r \<Rightarrow> finish_counted env p ev r c
      | Inl e \<Rightarrow>
          (let c1 = record_transform_error c; pol = transform_on_error (cfg_transform (pl_cfg p)) in
           if pol = ''skip'' then (Skipped, record_line_skipped c1)
           else if pol = ''wrap'' then finish_counted env p ev (wrap_record ev e) c1
           else (Refused e, c1)))"

text \<open>\<open>took n\<close> is the time that attempt \<open>n\<close> takes.\<close>

partial_function (option) retry_counted ::
  "(nat \<Rightarrow> int) \<Rightarrow> 'k sink \<Rightarrow> retry_policy \<Rightarrow> (nat \<Rightarrow> go_error option) \<Rightarrow> bytes list \<Rightarrow> nat \<Rightarrow> 64 word \<Rightarrow> 64 word list \<Rightarrow>
     'k \<Rightarrow> collector option \<Rightarrow> (('k \<times> 64 word list \<times> check) \<times> collector option) option" where
  "retry_counted took s rp dn ps n b waits k c =
     (case publish_to_sink s k ps of
        (k', Inr u) \<Rightarrow> Some ((k', waits, ok), record_publish_duration (took (n + 1)) c)
      | (k', Inl e) \<Rightarrow>
          if out_of_attempts rp n then
            Some ((k', waits, Inl (attempts_error n e)), record_publish_failure (record_publish_duration (took (n + 1)) c))
          else
            (case dn (n + 1) of
               Some ce \<Rightarrow> Some ((k', waits, Inl ce), record_publish_failure (record_publish_duration (took (n + 1)) c))
             | None \<Rightarrow> retry_counted took s rp dn ps (n + 1) (next_backoff (rp_max rp) b) (waits @ [b]) k'
                 (record_publish_retry (record_publish_failure (record_publish_duration (took (n + 1)) c)))))"

definition publish_counted ::
  "(nat \<Rightarrow> int) \<Rightarrow> 'k sink \<Rightarrow> duration_parser \<Rightarrow> pipeline_config \<Rightarrow> (nat \<Rightarrow> go_error option) \<Rightarrow> pending list \<Rightarrow>
     'k world \<Rightarrow> collector option \<Rightarrow> (('k world \<times> check) \<times> collector option) option" where
  "publish_counted took s pd cfg dn items w c =
     (if length items = 0 then Some ((w, ok), c)
      else
        (case retry_counted took s (retry_policy_of pd cfg) dn (map p_payload items) 0 (rp_initial (retry_policy_of pd cfg)) []
            (w_sink w) c of
           None \<Rightarrow> None
         | Some ((k, waits, Inl e), c1) \<Rightarrow> Some ((w\<lparr>w_sink := k\<rparr>, Inl e), c1)
         | Some ((k, waits, Inr u), c1) \<Rightarrow>
             Some (advance_watermarks items (w\<lparr>w_sink := k\<rparr>), (record_line_published ^^ length items) c1)))"

definition process_counted ::
  "(event \<Rightarrow> nat \<Rightarrow> int) \<Rightarrow> ('k, 'l, 't) run_env \<Rightarrow> 'l pipeline \<Rightarrow> event \<Rightarrow> 'k world \<Rightarrow> collector option \<Rightarrow>
     (('k world \<times> check) \<times> collector option) option" where
  "process_counted took env p ev w c =
     (case stages_counted (re_stages env) p ev c of (fate, c1) \<Rightarrow>
        (case fate of
           Refused e \<Rightarrow> Some ((w, Inl e), c1)
         | Passed payload truncated \<Rightarrow>
             publish_counted (took ev) (re_sink env) (re_durations env) (cfg_pipeline (pl_cfg p)) (re_done env ev)
               [pending_of ev payload] w c1
         | Skipped \<Rightarrow> Some (set_mark (ev_path ev) (int (ev_offset ev)) (ev_inode ev) w, c1)
         | Filtered \<Rightarrow> Some (set_mark (ev_path ev) (int (ev_offset ev)) (ev_inode ev) w, c1)))"

fun events_counted ::
  "(event \<Rightarrow> nat \<Rightarrow> int) \<Rightarrow> ('k, 'l, 't) run_env \<Rightarrow> 'l pipeline \<Rightarrow> event list \<Rightarrow> 'k world \<Rightarrow> collector option \<Rightarrow>
     (('k world \<times> check) \<times> collector option) option" where
  "events_counted took env p [] w c = Some ((w, ok), c)"
| "events_counted took env p (ev # evs) w c =
     (case process_counted took env p ev w c of
        None \<Rightarrow> None
      | Some ((w1, Inl e), c1) \<Rightarrow> Some ((w1, Inl e), c1)
      | Some ((w1, Inr u), c1) \<Rightarrow> events_counted took env p evs w1 c1)"

section \<open>The metrics change nothing\<close>

lemma finish_counted_fst: "fst (finish_counted env p ev r c) = finish_stages env p ev r"
  by (simp add: finish_counted_def finish_stages_def Let_def split: prod.split sum.split)

lemma stages_counted_fst: "fst (stages_counted env p ev c) = run_stages env p ev"
  by (simp add: stages_counted_def run_stages_def finish_counted_fst Let_def split: sum.split)

text \<open>What the loop records, from its number of retries and its result.\<close>

fun count_attempts :: "(nat \<Rightarrow> int) \<Rightarrow> nat \<Rightarrow> nat \<Rightarrow> bool \<Rightarrow> collector option \<Rightarrow> collector option" where
  "count_attempts took n 0 good c =
     (let c1 = record_publish_duration (took (n + 1)) c in if good then c1 else record_publish_failure c1)"
| "count_attempts took n (Suc j) good c =
     count_attempts took (n + 1) j good (record_publish_retry (record_publish_failure (record_publish_duration (took (n + 1)) c)))"

lemma retry_counted_of:
  assumes "retry_from s rp dn ps n b waits k = Some res"
  shows "\<exists>j. length (fst (snd res)) = length waits + j \<and>
     (\<forall>c. retry_counted took s rp dn ps n b waits k c = Some (res, count_attempts took n j (snd (snd res) = ok) c))"
  using assms
proof (induction rule: retry_induct)
  case (sent n b waits k k')
  then show ?case by (intro exI [of _ 0]) (simp add: retry_counted.simps)
next
  case (limit n b waits k k' e)
  then show ?case by (intro exI [of _ 0]) (simp add: retry_counted.simps)
next
  case (cancelled n b waits k k' e ce)
  then show ?case by (intro exI [of _ 0]) (simp add: retry_counted.simps)
next
  case (again n b waits k k' e res)
  then obtain j where "length (fst (snd res)) = length (waits @ [b]) + j"
    "\<forall>c. retry_counted took s rp dn ps (n + 1) (next_backoff (rp_max rp) b) (waits @ [b]) k' c =
       Some (res, count_attempts took (n + 1) j (snd (snd res) = ok) c)" by blast
  then show ?case using again(1-3)
    by (intro exI [of _ "Suc j"]) (subst retry_counted.simps, simp)
qed

lemma retry_of_counted:
  assumes "retry_counted took s rp dn ps n b waits k c = Some res"
  shows "retry_from s rp dn ps n b waits k = Some (fst res)"
proof (rule retry_counted.raw_induct [of "\<lambda>took s rp dn ps n b waits k c y. retry_from s rp dn ps n b waits k = Some (fst y)",
      OF _ assms], goal_cases)
  case (1 f took s rp dn ps n b waits k c y)
  show ?case
    using 1(2) by (subst retry_from_unfold) (auto split: prod.splits sum.splits if_splits option.splits dest: 1(1))
qed

lemma retry_counted_eq:
  "map_option fst (retry_counted took s rp dn ps n b waits k c) = retry_from s rp dn ps n b waits k"
proof (cases "retry_from s rp dn ps n b waits k")
  case None
  then have "retry_counted took s rp dn ps n b waits k c = None"
    using retry_of_counted [of took s rp dn ps n b waits k c] by (cases "retry_counted took s rp dn ps n b waits k c") auto
  then show ?thesis using None by simp
next
  case (Some res)
  then obtain c' where "retry_counted took s rp dn ps n b waits k c = Some (res, c')"
    using retry_counted_of [OF Some, of took] by blast
  then show ?thesis using Some by simp
qed

lemma publish_counted_eq:
  "map_option fst (publish_counted took s pd cfg dn items w c) = publish_and_advance s pd cfg dn items w"
  unfolding publish_counted_def publish_and_advance_def publish_batch_with_retry_def retry_counted_eq [symmetric, of _ _ _ _ _ _ _ _ took c]
  by (auto split: option.splits prod.splits sum.splits)

lemma process_counted_eq: "map_option fst (process_counted took env p ev w c) = process_event env p ev w"
proof -
  obtain fate c1 where st: "stages_counted (re_stages env) p ev c = (fate, c1)" by force
  then have "run_stages (re_stages env) p ev = fate" using stages_counted_fst by (metis fst_conv)
  then show ?thesis using st publish_counted_eq
    by (cases fate) (simp_all add: process_counted_def process_event_def)
qed

lemma events_counted_eq: "map_option fst (events_counted took env p evs w c) = process_events env p evs w"
proof (induction evs arbitrary: w c)
  case (Cons ev evs)
  show ?case
    using process_counted_eq [of took env p ev w c, symmetric] Cons.IH
    by (auto split: option.splits prod.splits sum.splits)
qed simp

section \<open>The counters add up\<close>

text \<open>Published, skipped, filtered, failed attempts, retries.\<close>

definition totals :: "collector \<Rightarrow> int option list" where
  "totals c = [c_lines_published c, c_lines_skipped c, c_lines_filtered c, c_publish_failures c, c_publish_retries c]"

definition add_totals :: "int list \<Rightarrow> int option list \<Rightarrow> int option list" where
  "add_totals ns ts = map (\<lambda>(n, t). add_count n t) (zip ns ts)"

text \<open>The effect of a call: on nothing nothing, on a collector an amount for each of the totals.\<close>

definition counts :: "int list \<Rightarrow> collector option \<Rightarrow> collector option \<Rightarrow> bool" where
  "counts ns c c' \<longleftrightarrow> (case c of None \<Rightarrow> c' = None
     | Some x \<Rightarrow> (\<exists>x'. c' = Some x' \<and> totals x' = add_totals ns (totals x)))"

lemma add_count_add [simp]: "add_count m (add_count n t) = add_count (n + m) t" "add_count 0 t = t"
  by (cases t; simp add: add_count_def)+

lemmas record_simps = record_transform_error_def record_line_skipped_def record_line_filtered_def
  record_timestamp_parse_failure_def record_publish_truncation_def record_line_published_def record_publish_duration_def
  record_publish_failure_def record_publish_retry_def

lemma counts_record:
  "counts [0, 0, 0, 0, 0] c (record_transform_error c)" "counts [0, 1, 0, 0, 0] c (record_line_skipped c)"
  "counts [0, 0, 1, 0, 0] c (record_line_filtered c)" "counts [0, 0, 0, 0, 0] c (record_timestamp_parse_failure c)"
  "counts [0, 0, 0, 0, 0] c (record_publish_truncation c)" "counts [1, 0, 0, 0, 0] c (record_line_published c)"
  "counts [0, 0, 0, 0, 0] c (record_publish_duration d c)" "counts [0, 0, 0, 1, 0] c (record_publish_failure c)"
  "counts [0, 0, 0, 0, 1] c (record_publish_retry c)" "counts [0, 0, 0, 0, 0] c c"
  by (cases c; simp add: counts_def totals_def add_totals_def record_simps)+

lemma counts_trans:
  "\<lbrakk>counts [a, b, d, f, g] c c'; counts [a', b', d', f', g'] c' c''\<rbrakk> \<Longrightarrow>
     counts [a + a', b + b', d + d', f + f', g + g'] c c''"
  by (cases c; cases c'; auto simp: counts_def totals_def add_totals_def)

lemma count_attempts_counts:
  "counts [0, 0, 0, int j + (if good then 0 else 1), int j] c (count_attempts took n j good c)"
proof (induction took n j good c rule: count_attempts.induct)
  case (1 took n good c)
  then show ?case
    using counts_record(7) [of c "took (n + 1)"] counts_trans [OF counts_record(7) counts_record(8), of c "took (n + 1)"]
    by simp
next
  case (2 took n j good c)
  from counts_trans [OF counts_trans [OF counts_trans [OF counts_record(7) counts_record(8)] counts_record(9)] 2]
  show ?case by (simp add: algebra_simps)
qed

lemma finish_counts:
  "finish_counted env p ev r c = (fate, c') \<Longrightarrow> counts [0, 0, if fate = Filtered then 1 else 0, 0, 0] c c' \<and> fate \<noteq> Skipped"
  using counts_trans [OF counts_record(4) counts_record(3), of c] counts_trans [OF counts_record(4) counts_record(5), of c]
    counts_record [of c]
  by (auto simp: finish_counted_def Let_def split: prod.splits sum.splits if_splits)

lemma stages_counts:
  assumes "stages_counted env p ev c = (fate, c')"
  shows "counts [0, if fate = Skipped then 1 else 0, if fate = Filtered then 1 else 0, 0, 0] c c'"
proof (cases "transform_line (pl_transformer p) (ev_data ev)")
  case (Inr r)
  then show ?thesis using assms finish_counts [of env p ev r c fate c'] by (auto simp: stages_counted_def)
next
  case (Inl e)
  let ?c1 = "record_transform_error c"
  consider (on) "counts [0, 0, if fate = Filtered then 1 else 0, 0, 0] ?c1 c'" "fate \<noteq> Skipped"
    | (skip) "fate = Skipped" "c' = record_line_skipped ?c1" | (refuse) "fate \<noteq> Skipped" "fate \<noteq> Filtered" "c' = ?c1"
  proof -
    let ?pol = "transform_on_error (cfg_transform (pl_cfg p))"
    have s: "(fate, c') = (if ?pol = ''skip'' then (Skipped, record_line_skipped ?c1)
        else if ?pol = ''wrap'' then finish_counted env p ev (wrap_record ev e) ?c1 else (Refused e, ?c1))"
      using assms Inl by (simp only: stages_counted_def Let_def sum.case)
    show thesis
    proof (cases "?pol = ''skip''")
      case True
      then show thesis using s skip by simp
    next
      case no: False
      show thesis
      proof (cases "?pol = ''wrap''")
        case True
        then have "finish_counted env p ev (wrap_record ev e) ?c1 = (fate, c')" using s no by simp
        then show thesis using finish_counts on by blast
      next
        case False
        then show thesis using s no refuse by simp
      qed
    qed
  qed
  then show ?thesis
  proof cases
    case on
    from counts_trans [OF counts_record(1) on(1)] show ?thesis using on(2) by simp
  next
    case skip
    from counts_trans [OF counts_record(1) counts_record(2), of c] show ?thesis using skip by simp
  next
    case refuse
    then show ?thesis using counts_record(1) by simp
  qed
qed

definition passes :: "('l, 't) stage_env \<Rightarrow> 'l pipeline \<Rightarrow> event \<Rightarrow> bool" where
  "passes env p ev \<longleftrightarrow> (case run_stages env p ev of Passed payload t \<Rightarrow> True | _ \<Rightarrow> False)"

lemma passes_iff: "passes env p ev \<longleftrightarrow> (\<exists>pl t. run_stages env p ev = Passed pl t)"
  by (auto simp: passes_def split: fate.splits)

text \<open>
  One record: with an error at most one of the first three goes up, without one exactly one, and then every
  failed attempt was retried.
\<close>

lemma process_counts:
  assumes "process_counted took env p ev w c = Some ((w', r), c')"
  shows "\<exists>a b d f g. counts [a, b, d, f, g] c c' \<and> {a, b, d} \<subseteq> {0, 1} \<and> a + b + d \<le> 1 \<and> 0 \<le> g \<and> g \<le> f \<and>
    (r = ok \<longrightarrow> a + b + d = 1 \<and> f = g \<and> a = (if passes (re_stages env) p ev then 1 else 0) \<and>
       d = (if run_stages (re_stages env) p ev = Filtered then 1 else 0))"
proof -
  obtain fate c1 where st: "stages_counted (re_stages env) p ev c = (fate, c1)" by force
  have rs: "run_stages (re_stages env) p ev = fate" using st stages_counted_fst by (metis fst_conv)
  note s = stages_counts [OF st]
  show ?thesis
  proof (cases fate)
    case (Refused e)
    then have h: "r \<noteq> ok" "c' = c1" using assms st by (auto simp: process_counted_def)
    show ?thesis
      by (rule exI [of _ 0], rule exI [of _ 0], rule exI [of _ 0], rule exI [of _ 0], rule exI [of _ 0], (use h s Refused in simp))
  next
    case Skipped
    then have h: "c' = c1" using assms st by (auto simp: process_counted_def)
    show ?thesis
      by (rule exI [of _ 0], rule exI [of _ 1], rule exI [of _ 0], rule exI [of _ 0], rule exI [of _ 0], (use h s Skipped rs in \<open>simp add: passes_def\<close>))
  next
    case Filtered
    then have h: "c' = c1" using assms st by (auto simp: process_counted_def)
    show ?thesis
      by (rule exI [of _ 0], rule exI [of _ 0], rule exI [of _ 1], rule exI [of _ 0], rule exI [of _ 0], (use h s Filtered rs in \<open>simp add: passes_def\<close>))
  next
    case (Passed pl t)
    let ?it = "[pending_of ev pl]" and ?rp = "retry_policy_of (re_durations env) (cfg_pipeline (pl_cfg p))"
    have pc: "publish_counted (took ev) (re_sink env) (re_durations env) (cfg_pipeline (pl_cfg p)) (re_done env ev) ?it w c1 =
        Some ((w', r), c')" using assms st Passed by (simp add: process_counted_def)
    then obtain res c2 where rc: "retry_counted (took ev) (re_sink env) ?rp (re_done env ev) (map p_payload ?it) 0 (rp_initial ?rp) []
        (w_sink w) c1 = Some (res, c2)"
      by (auto simp: publish_counted_def split: option.splits)
    obtain j where c2: "c2 = count_attempts (took ev) 0 j (snd (snd res) = ok) c1"
      using retry_counted_of [OF retry_of_counted [OF rc], of "took ev"] rc by auto
    obtain k waits r1 where res: "res = (k, waits, r1)" by (cases res)
    have s0: "counts [0, 0, 0, 0, 0] c c1" using s Passed by simp
    note c02 = counts_trans [OF s0 count_attempts_counts [where j = j and good = "r1 = ok" and took = "took ev" and n = 0]]
    show ?thesis
    proof (cases r1)
      case (Inl e)
      then have "c' = c2" "r \<noteq> ok" using pc rc res by (auto simp: publish_counted_def)
      then have h: "counts [0, 0, 0, int j + 1, int j] c c'" using c02 c2 res Inl by simp
      show ?thesis
      by (rule exI [of _ 0], rule exI [of _ 0], rule exI [of _ 0], rule exI [of _ "int j + 1"], rule exI [of _ "int j"], (use h \<open>r \<noteq> ok\<close> in simp))
    next
      case (Inr u)
      then have "c' = record_line_published c2" using pc rc res by (auto simp: publish_counted_def)
      then have h: "counts [1, 0, 0, int j, int j] c c'"
        using counts_trans [OF c02 counts_record(6)] c2 res Inr by simp
      show ?thesis
      by (rule exI [of _ 1], rule exI [of _ 0], rule exI [of _ 0], rule exI [of _ "int j"], rule exI [of _ "int j"], (use h rs Passed in \<open>simp add: passes_def\<close>))
    qed
  qed
qed

lemma events_counts:
  assumes "events_counted took env p evs w c = Some ((w', r), c')"
  shows "\<exists>a b d f g. counts [a, b, d, f, g] c c' \<and> 0 \<le> a \<and> 0 \<le> b \<and> 0 \<le> d \<and> 0 \<le> g \<and> a + b + d \<le> int (length evs) \<and> g \<le> f \<and>
    (r = ok \<longrightarrow> a + b + d = int (length evs) \<and> f = g \<and>
       a = int (length (filter (passes (re_stages env) p) evs)) \<and>
       d = int (length (filter (\<lambda>ev. run_stages (re_stages env) p ev = Filtered) evs)))"
  using assms
proof (induction evs arbitrary: w c)
  case Nil
  then have h: "c' = c" by simp
  show ?case
    by (rule exI [of _ 0], rule exI [of _ 0], rule exI [of _ 0], rule exI [of _ 0], rule exI [of _ 0], (use h counts_record(10) [of c] in simp))
next
  case (Cons ev evs)
  obtain w1 r1 c1 where 1: "process_counted took env p ev w c = Some ((w1, r1), c1)"
    using Cons.prems by (auto split: option.splits prod.splits)
  obtain a b d f g where n: "counts [a, b, d, f, g] c c1" "{a, b, d} \<subseteq> {0, 1}" "a + b + d \<le> 1" "0 \<le> g" "g \<le> f"
    "r1 = ok \<longrightarrow> a + b + d = 1 \<and> f = g \<and> a = (if passes (re_stages env) p ev then 1 else 0) \<and>
       d = (if run_stages (re_stages env) p ev = Filtered then 1 else 0)"
    using process_counts [OF 1] by (elim exE conjE) (rule that; assumption)
  show ?case
  proof (cases r1)
    case (Inl e)
    then have h: "r \<noteq> ok" "c' = c1" using Cons.prems 1 by auto
    have s: "0 \<le> a" "0 \<le> b" "0 \<le> d" "a + b + d \<le> int (length (ev # evs))" using n(2,3) by auto
    show ?thesis
      by (rule exI [of _ a], rule exI [of _ b], rule exI [of _ d], rule exI [of _ f], rule exI [of _ g], (use h s n(1,4,5) in simp))
  next
    case (Inr u)
    then have "events_counted took env p evs w1 c1 = Some ((w', r), c')" using Cons.prems 1 by simp
    from Cons.IH [OF this] obtain a' b' d' f' g' where m: "counts [a', b', d', f', g'] c1 c'" "0 \<le> a'" "0 \<le> b'" "0 \<le> d'" "0 \<le> g'"
      "a' + b' + d' \<le> int (length evs)" "g' \<le> f'"
      "r = ok \<longrightarrow> a' + b' + d' = int (length evs) \<and> f' = g' \<and> a' = int (length (filter (passes (re_stages env) p) evs)) \<and>
       d' = int (length (filter (\<lambda>ev. run_stages (re_stages env) p ev = Filtered) evs))"
      by (elim exE conjE) (rule that; assumption)
    have "0 \<le> a" "0 \<le> b" "0 \<le> d" using n(2) by auto
    then have s: "0 \<le> a + a'" "0 \<le> b + b'" "0 \<le> d + d'" "a + a' + (b + b') + (d + d') \<le> int (length (ev # evs))"
      "0 \<le> g + g'" "g + g' \<le> f + f'" using n(3-5) m(2-7) by simp_all
    have e: "r1 = ok" using Inr by simp
    have k: "r = ok \<longrightarrow> a + a' + (b + b') + (d + d') = int (length (ev # evs)) \<and> f + f' = g + g' \<and>
       a + a' = int (length (filter (passes (re_stages env) p) (ev # evs))) \<and>
       d + d' = int (length (filter (\<lambda>ev. run_stages (re_stages env) p ev = Filtered) (ev # evs)))"
    proof
      assume "r = ok"
      then have "a' + b' + d' = int (length evs)" "f' = g'" "a' = int (length (filter (passes (re_stages env) p) evs))"
        "d' = int (length (filter (\<lambda>ev. run_stages (re_stages env) p ev = Filtered) evs))" using m(8) by blast+
      then show "a + a' + (b + b') + (d + d') = int (length (ev # evs)) \<and> f + f' = g + g' \<and>
         a + a' = int (length (filter (passes (re_stages env) p) (ev # evs))) \<and>
         d + d' = int (length (filter (\<lambda>ev. run_stages (re_stages env) p ev = Filtered) (ev # evs)))"
        using n(6) [rule_format, OF e] by auto
    qed
    show ?thesis
      by (rule exI [of _ "a + a'"], rule exI [of _ "b + b'"], rule exI [of _ "d + d'"], rule exI [of _ "f + f'"],
          rule exI [of _ "g + g'"], intro conjI counts_trans [OF n(1) m(1)] s k)
  qed
qed



section \<open>The metrics of a flush\<close>

text \<open>
  \<open>flushItems\<close> and \<open>handleDeadLetterFlush\<close> with their metrics; \<open>reason\<close> is what triggered the flush.  The lines
  are counted as published after \<open>publishBatchWithRetry\<close> returned nil, and nowhere else.
\<close>

definition flushed_as :: "string \<Rightarrow> string \<Rightarrow> pending list \<Rightarrow> collector option \<Rightarrow> collector option" where
  "flushed_as reason outcome items =
     record_publish_batch_flush reason outcome (int (length items)) (int (sum_list (map (\<lambda>it. length (p_payload it)) items)))"

definition dead_letter_counted ::
  "string \<Rightarrow> pipeline_config \<Rightarrow> string \<Rightarrow> pending list \<Rightarrow> go_error \<Rightarrow> 'k world \<Rightarrow> collector option \<Rightarrow>
     ('k world \<times> check) \<times> collector option" where
  "dead_letter_counted reason cfg stype items err w c =
     (case write_batch (next_dl w) (dl_path (pb_dead_letter (publish_batch cfg))) (map p_payload items)
         \<lparr>wi_failure_reason = err_msg err, wi_sink_type = stype,
          wi_batch_attempts = max_attempts_or_default (publish_batch cfg) (publish_retry cfg)\<rparr> (w_disk w) of
        (ds, r) \<Rightarrow>
          (let w1 = add_disks ds (w\<lparr>w_dl := drop 1 (w_dl w)\<rparr>) in
           case r of
             Inl e \<Rightarrow> ((w1, Inl (ErrWrap ''write dead letter batch: '' e)), flushed_as reason ''error'' items c)
           | Inr v \<Rightarrow>
               (case advance_watermarks items w1 of
                  (w2, Inl e) \<Rightarrow> ((w2, Inl e), c)
                | (w2, Inr u) \<Rightarrow>
                    (let (p1, n) = increment_consecutive_dlq (w_pipe w2);
                         c1 = flushed_as reason ''dead_letter'' items (record_dead_letter_batch c);
                         mx = max_consecutive_batches_or_default (pb_dead_letter (publish_batch cfg))
                     in if n \<ge> mx then
                          ((w2\<lparr>w_pipe := fst (enter_hibernate (hib_wake_enabled (pb_hibernate (publish_batch cfg)))
                                           (limit_error mx err) [] p1)\<rparr>, ok), flushed_as reason ''hibernate'' items c1)
                        else ((w2\<lparr>w_pipe := p1\<rparr>, ok), c1)))))"

definition failed_counted ::
  "string \<Rightarrow> duration_parser \<Rightarrow> pipeline_config \<Rightarrow> string \<Rightarrow> pending list \<Rightarrow> go_error \<Rightarrow> 'k world \<Rightarrow> collector option \<Rightarrow>
     ('k world \<times> check) \<times> collector option" where
  "failed_counted reason pd cfg stype items err w c =
     (let pol = on_flush_failure_or_default (publish_batch cfg) in
      if pol = ''hibernate'' \<and> publish_batch_enabled pd (publish_batch cfg) then
        ((w\<lparr>w_pipe := fst (enter_hibernate (hib_wake_enabled (pb_hibernate (publish_batch cfg))) err items (w_pipe w))\<rparr>, ok),
         flushed_as reason ''hibernate'' items c)
      else if pol = ''dead_letter'' \<and> dead_letter_enabled pd cfg then
        dead_letter_counted reason cfg stype items err w c
      else ((w, Inl err), flushed_as reason ''error'' items c))"

definition flush_counted ::
  "(nat \<Rightarrow> int) \<Rightarrow> string \<Rightarrow> 'k sink \<Rightarrow> duration_parser \<Rightarrow> pipeline_config \<Rightarrow> string \<Rightarrow> (nat \<Rightarrow> go_error option) \<Rightarrow>
     pending list \<Rightarrow> 'k world \<Rightarrow> collector option \<Rightarrow> (('k world \<times> check) \<times> collector option) option" where
  "flush_counted took reason s pd cfg stype dn items w c =
     (if length items = 0 then Some ((w, ok), c)
      else
        (case retry_counted took s (retry_policy_of pd cfg) dn (map p_payload items) 0 (rp_initial (retry_policy_of pd cfg)) []
            (w_sink w) c of
           None \<Rightarrow> None
         | Some ((k, waits, Inl e), c1) \<Rightarrow> Some (failed_counted reason pd cfg stype items e (w\<lparr>w_sink := k\<rparr>) c1)
         | Some ((k, waits, Inr u), c1) \<Rightarrow>
             (let c2 = (record_line_published ^^ length items) c1 in
              case advance_watermarks items (w\<lparr>w_sink := k\<rparr>) of
                (w1, Inl e) \<Rightarrow> Some ((w1, Inl e), flushed_as reason ''error'' items c2)
              | (w1, Inr u) \<Rightarrow> Some ((w1\<lparr>w_pipe := exit_hibernate (reset_consecutive_dlq (w_pipe w1))\<rparr>, ok),
                   flushed_as reason ''success'' items c2))))"

lemma dead_letter_counted_fst: "fst (dead_letter_counted reason cfg stype items err w c) = handle_dead_letter_flush cfg stype items err w"
  by (simp add: dead_letter_counted_def handle_dead_letter_flush_def Let_def case_prod_beta split: sum.split)

lemma failed_counted_fst: "fst (failed_counted reason pd cfg stype items err w c) = flush_failed pd cfg stype items err w"
  by (simp add: failed_counted_def flush_failed_def Let_def dead_letter_counted_fst)

lemma flush_counted_eq:
  "map_option fst (flush_counted took reason s pd cfg stype dn items w c) = flush_items s pd cfg stype dn items w"
  unfolding flush_counted_def flush_items_def publish_batch_with_retry_def retry_counted_eq [symmetric, of _ _ _ _ _ _ _ _ took c]
  by (auto simp: failed_counted_fst flush_published_def Let_def split: option.splits prod.splits sum.splits)

lemma counts_flushed [simp]:
  "counts [0, 0, 0, 0, 0] c (flushed_as reason outcome items c)" "counts [0, 0, 0, 0, 0] c (record_dead_letter_batch c)"
  by (cases c; simp add: counts_def totals_def add_totals_def flushed_as_def record_publish_batch_flush_def record_dead_letter_batch_def)+

lemma counts_none: "\<lbrakk>counts [a, b, d, f, g] c c'; counts [0, 0, 0, 0, 0] c' c''\<rbrakk> \<Longrightarrow> counts [a, b, d, f, g] c c''"
  using counts_trans [of a b d f g c c' 0 0 0 0 0 c''] by simp

lemma counts_published: "counts [int n, 0, 0, 0, 0] c ((record_line_published ^^ n) c)"
proof (induction n)
  case (Suc n)
  from counts_trans [OF Suc counts_record(6)] show ?case by (simp add: algebra_simps)
qed (simp add: counts_record(10))

lemma failed_counts: "counts [0, 0, 0, 0, 0] c (snd (failed_counted reason pd cfg stype items err w c))"
  using counts_none [OF counts_flushed(2) counts_flushed(1)] counts_none [OF counts_none [OF counts_flushed(2) counts_flushed(1)] counts_flushed(1)]
  by (auto simp: failed_counted_def dead_letter_counted_def Let_def case_prod_beta counts_record(10) split: sum.split)

text \<open>A flush counts its records as published exactly when the publish succeeded.\<close>

lemma flush_counts:
  assumes "flush_counted took reason s pd cfg stype dn items w c = Some ((w', r), c')" "items \<noteq> []"
  shows "\<exists>k waits q f g. publish_batch_with_retry s (retry_policy_of pd cfg) dn (map p_payload items) (w_sink w) = Some (k, waits, q) \<and>
     counts [if q = ok then int (length items) else 0, 0, 0, f, g] c c'"
proof -
  obtain k waits q c1 where rc: "retry_counted took s (retry_policy_of pd cfg) dn (map p_payload items) 0
      (rp_initial (retry_policy_of pd cfg)) [] (w_sink w) c = Some ((k, waits, q), c1)"
    using assms by (auto simp: flush_counted_def split: option.splits)
  obtain j where "c1 = count_attempts took 0 j (q = ok) c"
    using retry_counted_of [OF retry_of_counted [OF rc], of took] rc by auto
  then have c1: "counts [0, 0, 0, int j + (if q = ok then 0 else 1), int j] c c1" using count_attempts_counts by simp
  have pub: "publish_batch_with_retry s (retry_policy_of pd cfg) dn (map p_payload items) (w_sink w) = Some (k, waits, q)"
    using retry_of_counted [OF rc] by (simp add: publish_batch_with_retry_def)
  have "counts [if q = ok then int (length items) else 0, 0, 0, int j + (if q = ok then 0 else 1), int j] c c'"
  proof (cases q)
    case (Inl e)
    then have "c' = snd (failed_counted reason pd cfg stype items e (w\<lparr>w_sink := k\<rparr>) c1)"
      using assms rc by (simp add: flush_counted_def)
    then show ?thesis using counts_none [OF c1 failed_counts] Inl by simp
  next
    case (Inr u)
    then obtain outcome where "c' = flushed_as reason outcome items ((record_line_published ^^ length items) c1)"
      using assms rc by (auto simp: flush_counted_def Let_def split: prod.splits sum.splits)
    then show ?thesis using counts_none [OF counts_trans [OF c1 counts_published] counts_flushed(1)] Inr by simp
  qed
  with pub show ?thesis by blast
qed

text \<open>
  A record stored as a dead letter is never counted as published: the flush below returns nil, the
  record is settled, its watermark has moved, and the line counters are all zero, while the guide's
  equation has no term for dead letters.
\<close>

theorem dead_letters_are_not_counted:
  "\<exists>w' x. flush_counted (\<lambda>n. 5) ''interval'' the_file_sink sample_pd once_config ''file'' (\<lambda>_. None) [sample_item]
       (sample_world [Some (0, ErrText ''full'')]) (Some fresh_collector) = Some ((w', ok), Some x) \<and>
     files_of w' = Some [(''/a'', \<lparr>w_offset = 3, w_inode = 7\<rparr>)] \<and> hibernate_batch (w_pipe w') = [] \<and>
     c_lines_published x = Some 0 \<and> c_lines_skipped x = Some 0 \<and> c_lines_filtered x = Some 0"
proof -
  obtain w' where w': "flush_items the_file_sink sample_pd once_config ''file'' (\<lambda>_. None) [sample_item]
       (sample_world [Some (0, ErrText ''full'')]) = Some (w', ok)" "files_of w' = Some [(''/a'', \<lparr>w_offset = 3, w_inode = 7\<rparr>)]"
       "hibernate_batch (w_pipe w') = []"
    using sample_flush by blast
  then obtain c' where c: "flush_counted (\<lambda>n. 5) ''interval'' the_file_sink sample_pd once_config ''file'' (\<lambda>_. None) [sample_item]
       (sample_world [Some (0, ErrText ''full'')]) (Some fresh_collector) = Some ((w', ok), c')"
    using flush_counted_eq [of "\<lambda>n. 5" "''interval''" the_file_sink sample_pd once_config "''file''" "\<lambda>_. None" "[sample_item]"
        "sample_world [Some (0, ErrText ''full'')]" "Some fresh_collector"] by auto
  have "w_sink (sample_world [Some (0, ErrText ''full'')]) = new_file [Some (0, ErrText ''full'')]" by (simp add: sample_world_def)
  with flush_counts [OF c] sample_attempt obtain f g where "counts [0, 0, 0, f, g] (Some fresh_collector) c'"
    by (auto simp: sample_item_def)
  with c w' show ?thesis by (auto simp: counts_def totals_def add_totals_def fresh_collector_def add_count_def)
qed

section \<open>From the files to the counters\<close>

text \<open>What the watcher counted, less what became of it.\<close>

definition log_balance :: "tail_log \<Rightarrow> int" where
  "log_balance l = int (tl_read l) + int (tl_replayed l) - int (length (tl_events l)) - int (tl_dropped l)"

lemma send_balance:
  "never_gives_up ch \<Longrightarrow> send_line_event ch e (record_line_ingested st l) = (b, l') \<Longrightarrow> log_balance l' = log_balance l \<and> b"
  by (auto simp: send_line_event_def record_line_ingested_def log_balance_def never_gives_up_def split: if_splits)

lemma read_balance:
  "\<lbrakk>never_gives_up ch; read_new_lines ch fin st data l = (st', l', e)\<rbrakk> \<Longrightarrow> log_balance l' = log_balance l"
proof (induction ch fin st data l arbitrary: st' l' e rule: read_new_lines.induct)
  case (1 ch fin st data l)
  show ?case
  proof (cases "data = []")
    case True
    then show ?thesis using 1(3) by (simp add: read_new_lines.simps)
  next
    case False
    let ?line = "fst (read_bytes data)"
    let ?st = "st\<lparr>f_offset := f_offset st + length ?line\<rparr>"
    define sent where "sent = (if trim_eol ?line \<noteq> [] then
        send_line_event ch (event_at ?st (trim_eol ?line)) (record_line_ingested ?st l) else (True, l))"
    have s: "fst sent" "log_balance (snd sent) = log_balance l"
      using send_balance [OF 1(2), of "event_at ?st (trim_eol ?line)" ?st l "fst sent" "snd sent"]
      by (auto simp: sent_def split: if_splits)
    show ?thesis
    proof (cases "delimited ?line")
      case True
      then have "read_new_lines ch fin ?st (snd (read_bytes data)) (snd sent) = (st', l', e)"
        using 1(3) False s(1) by (subst (asm) read_new_lines.simps) (simp add: Let_def sent_def)
      then show ?thesis using 1(1) [OF False refl refl refl refl] 1(2) s True
        by (simp add: sent_def [symmetric])
    next
      case no: False
      then show ?thesis using 1(3) False s
        by (subst (asm) read_new_lines.simps) (auto simp: Let_def sent_def)
    qed
  qed
qed

lemma tail_file_balance:
  "\<lbrakk>never_gives_up ch; tail_file ch w marks path files l = (files', l', e)\<rbrakk> \<Longrightarrow> log_balance l' = log_balance l"
  by (auto simp: tail_file_def read_state_def dest: read_balance split: sum.splits option.splits if_splits prod.splits)

lemma scan_matches_balance:
  "never_gives_up ch \<Longrightarrow> log_balance (sc_log (scan_matches ch w marks ms s)) = log_balance (sc_log s)"
proof (induction ms arbitrary: s)
  case (Cons m ms)
  obtain files l e where t: "tail_file ch w marks m (sc_files s) (sc_log s) = (files, l, e)"
    by (cases "tail_file ch w marks m (sc_files s) (sc_log s)")
  show ?case using Cons tail_file_balance [OF Cons.prems t] by (simp add: t)
qed simp

lemma scan_patterns_balance:
  "never_gives_up ch \<Longrightarrow> log_balance (sc_log (fst (scan_patterns ch w marks dir ps s))) = log_balance (sc_log s)"
  by (induction ps arbitrary: s) (simp_all add: scan_matches_balance split: sum.split)

lemma scan_sources_balance:
  "never_gives_up ch \<Longrightarrow> log_balance (sc_log (fst (scan_sources ch w marks srcs s))) = log_balance (sc_log s)"
proof (induction srcs arbitrary: s)
  case (Cons src srcs)
  show ?case
  proof (cases "fs_abs w (src_path src)")
    case (Inr dir)
    obtain s' r where p: "scan_patterns ch w marks dir (src_patterns src) s = (s', r)" by force
    then have "log_balance (sc_log s') = log_balance (sc_log s)"
      using scan_patterns_balance [OF Cons.prems, of w marks dir "src_patterns src" s] by simp
    then show ?thesis using Cons Inr p by (simp split: sum.split)
  qed simp
qed simp

lemma scan_balance: "never_gives_up ch \<Longrightarrow> log_balance (wa_log (fst (scan ch w marks wa))) = log_balance (wa_log wa)"
  using scan_sources_balance [of ch w marks "watch_entries (wa_cfg wa)"
      "\<lparr>sc_files = wa_files wa, sc_log = wa_log wa, sc_seen = [], sc_errors = []\<rparr>"]
  by (auto simp: scan_def split: prod.split)

lemma watch_loop_balance: "never_gives_up ch \<Longrightarrow> log_balance (wa_log (fst (watch_loop ch ts wa))) = log_balance (wa_log wa)"
proof (induction ts arbitrary: wa)
  case (Cons t ts)
  then show ?case by (cases t) (simp_all add: scan_balance close_all_def)
qed simp

lemma watch_run_balance:
  "wa_drop wa \<or> (\<forall>e. room e) \<Longrightarrow> log_balance (wa_log (fst (watch_run room sa ts wa))) = log_balance (wa_log wa)"
  using scan_balance [of "watcher_channel wa room" "sa_fs sa" "sa_marks sa" wa] watch_loop_balance [of "watcher_channel wa room" ts]
  by (auto simp: watch_run_def Let_def watcher_never_gives_up split: sum.split prod.split)

text \<open>
  C32.
  The line accounting of the monitoring guide, exactly, under four conditions: batching is off, the
  parser is the line parser, the pipeline processed everything it got without an error, and no send was
  given up at a shutdown (with \<open>on_full: drop\<close> none ever is).  Then the lines read and replayed are the
  ones published, skipped, filtered and dropped at a full buffer.  With batching the equation of the
  guide is false, because a record stored as a dead letter is not counted as published
  (\<open>dead_letters_are_not_counted\<close>), and with the multiline parser the counters count records
  (\<open>multiline_records_break_the_accounting\<close>).
\<close>

theorem lines_read_are_accounted_for:
  assumes "\<not> pl_batch_enabled p" "pl_parser p = LineParser"
    and "wa_drop (new_watcher pd cfg) \<or> (\<forall>e. room e)" "watch_run room sa ts (new_watcher pd cfg) = (wa, fin)"
    and "events_counted took env p (parser_run (parser_feed (pl_parser p)) (parser_flush (pl_parser p)) order
        (map InLine (tl_events (wa_log wa))) parser_init) w (Some fresh_collector) = Some ((w', ok), c)"
  shows "\<exists>x pub skip filt. c = Some x \<and> c_lines_published x = Some pub \<and> c_lines_skipped x = Some skip \<and>
    c_lines_filtered x = Some filt \<and>
    int (tl_read (wa_log wa)) + int (tl_replayed (wa_log wa)) = pub + filt + skip + int (tl_dropped (wa_log wa))"
proof -
  have run: "parser_run (parser_feed LineParser) (parser_flush LineParser) order (map InLine ls) s = map event_of_line ls" for ls s
    by (induction ls arbitrary: s) (simp_all add: parser_feed_def parser_flush_def line_feed_def line_flush_def)
  have "log_balance (wa_log wa) = 0"
    using watch_run_balance [OF assms(3), of sa ts] assms(4)
    by (simp add: new_watcher_def empty_log_def log_balance_def Let_def)
  moreover obtain a b d f g where n: "counts [a, b, d, f, g] (Some fresh_collector) c" "a + b + d = int (length (tl_events (wa_log wa)))"
    using events_counts [OF assms(5) [unfolded assms(2) run]] by auto
  ultimately show ?thesis
    by (auto simp: counts_def totals_def add_totals_def fresh_collector_def add_count_def log_balance_def)
qed

lemma one_record_counted:
  "\<exists>w' x. events_counted (\<lambda>ev n. 5) text_env (text_pipeline pr) [text_event s n] (sample_world []) (Some fresh_collector) =
       Some ((w', ok), Some x) \<and> c_lines_published x = Some 1 \<and> c_lines_skipped x = Some 0 \<and> c_lines_filtered x = Some 0"
proof -
  have "sample_world [] = (sample_world [])\<lparr>w_sink := new_file []\<rparr>" by (simp add: sample_world_def)
  then obtain w' where "process_event text_env (text_pipeline pr) (text_event s n) (sample_world []) = Some (w', ok)"
    using text_event_works [of "new_file []" pr s n] by auto
  then have "process_events text_env (text_pipeline pr) [text_event s n] (sample_world []) = Some (w', ok)" by simp
  then obtain c' where e: "events_counted (\<lambda>ev n. 5) text_env (text_pipeline pr) [text_event s n] (sample_world []) (Some fresh_collector) =
      Some ((w', ok), c')"
    using events_counted_eq [of "\<lambda>ev n. 5" text_env "text_pipeline pr" "[text_event s n]" "sample_world []" "Some fresh_collector"] by auto
  have p: "passes (re_stages text_env) (text_pipeline pr) (text_event s n)"
    "run_stages (re_stages text_env) (text_pipeline pr) (text_event s n) \<noteq> Filtered"
    using text_stages [of pr s n] by (auto simp: passes_def)
  obtain a b d f g where "counts [a, b, d, f, g] (Some fresh_collector) c'" "a = 1" "b = 0" "d = 0"
    using events_counts [OF e] p by auto
  then show ?thesis using e
    by (auto simp: counts_def totals_def add_totals_def fresh_collector_def add_count_def)
qed

text \<open>A watcher that starts on one file.\<close>

definition one_file :: "bytes \<Rightarrow> start_answers" where
  "one_file data = \<lparr>sa_notifier = ok, sa_mkdir = (\<lambda>d. ok), sa_add = (\<lambda>d. ok),
     sa_fs = (sample_fs data 7)\<lparr>fs_glob := \<lambda>d p. Inr [''/a'']\<rparr>, sa_marks = (\<lambda>p. None)\<rparr>"

definition sample_watcher :: watcher where
  "sample_watcher = new_watcher sample_pd (default_config ''/w'')"

lemma one_file_read:
  "tl_events (wa_log (fst (watch_run (\<lambda>e. True) (one_file [CHR ''x'', NL]) [] sample_watcher))) = [text_line ''x'' 2]"
  "tl_read (wa_log (fst (watch_run (\<lambda>e. True) (one_file [CHR ''x'', NL]) [] sample_watcher))) = 1"
  "tl_replayed (wa_log (fst (watch_run (\<lambda>e. True) (one_file [CHR ''x'', NL]) [] sample_watcher))) = 0"
  "tl_dropped (wa_log (fst (watch_run (\<lambda>e. True) (one_file [CHR ''x'', NL]) [] sample_watcher))) = 0"
  "tl_events (wa_log (fst (watch_run (\<lambda>e. True) (one_file [CHR ''S'', NL, CHR ''t'', NL]) [] sample_watcher))) = [text_line ''S'' 2, text_line ''t'' 4]"
  "tl_read (wa_log (fst (watch_run (\<lambda>e. True) (one_file [CHR ''S'', NL, CHR ''t'', NL]) [] sample_watcher))) = 2"
  "tl_replayed (wa_log (fst (watch_run (\<lambda>e. True) (one_file [CHR ''S'', NL, CHR ''t'', NL]) [] sample_watcher))) = 0"
  "tl_dropped (wa_log (fst (watch_run (\<lambda>e. True) (one_file [CHR ''S'', NL, CHR ''t'', NL]) [] sample_watcher))) = 0"
  by code_simp+

theorem lines_read_are_accounted_for_witness:
  "\<exists>wa fin w' x. watch_run (\<lambda>e. True) (one_file [CHR ''x'', NL]) [] sample_watcher = (wa, fin) \<and>
     events_counted (\<lambda>ev n. 5) text_env (text_pipeline LineParser) (map event_of_line (tl_events (wa_log wa))) (sample_world [])
       (Some fresh_collector) = Some ((w', ok), Some x) \<and>
     int (tl_read (wa_log wa)) + int (tl_replayed (wa_log wa)) = the (c_lines_published x) + int (tl_dropped (wa_log wa))"
proof -
  obtain wa fin where r: "watch_run (\<lambda>e. True) (one_file [CHR ''x'', NL]) [] sample_watcher = (wa, fin)" by force
  note ev = one_file_read(1-4) [unfolded r fst_conv]
  obtain w' x where e: "events_counted (\<lambda>ev n. 5) text_env (text_pipeline LineParser) [text_event ''x'' 2] (sample_world [])
      (Some fresh_collector) = Some ((w', ok), Some x)" "c_lines_skipped x = Some 0" "c_lines_filtered x = Some 0"
    using one_record_counted by blast
  have "parser_run (parser_feed LineParser) (parser_flush LineParser) [] (map InLine (tl_events (wa_log wa))) parser_init =
      [text_event ''x'' 2]" by (simp add: ev parser_feed_def parser_flush_def line_feed_def line_flush_def)
  with lines_read_are_accounted_for [OF _ _ _ r [unfolded sample_watcher_def], of "text_pipeline LineParser" "\<lambda>ev n. 5" text_env "[]"
      "sample_world []" w' "Some x"] e
  obtain pub skip filt where "c_lines_published x = Some pub" "c_lines_skipped x = Some skip" "c_lines_filtered x = Some filt"
    "int (tl_read (wa_log wa)) + int (tl_replayed (wa_log wa)) = pub + filt + skip + int (tl_dropped (wa_log wa))"
    by (auto simp: text_pipeline_def)
  then show ?thesis using r e ev by auto
qed

text \<open>
  With the multiline parser the accounting of the monitoring guide fails: its counters of published,
  skipped and filtered lines count records.  Two lines that are one record are read, one is published, and
  nothing is waiting anywhere.
\<close>

theorem multiline_records_break_the_accounting:
  "\<exists>wa fin ps evs w' x. watch_run (\<lambda>e. True) (one_file [CHR ''S'', NL, CHR ''t'', NL]) [] sample_watcher = (wa, fin) \<and>
     evs = parser_run (parser_feed (MultilineParser starts_S)) (parser_flush (MultilineParser starts_S)) [''/a'']
       (map InLine (tl_events (wa_log wa))) parser_init \<and>
     events_counted (\<lambda>ev n. 5) text_env (text_pipeline (MultilineParser starts_S)) evs (sample_world []) (Some fresh_collector) =
       Some ((w', ok), Some x) \<and>
     int (tl_read (wa_log wa)) = 2 \<and> tl_replayed (wa_log wa) = 0 \<and> tl_dropped (wa_log wa) = 0 \<and>
     c_lines_published x = Some 1 \<and> c_lines_skipped x = Some 0 \<and> c_lines_filtered x = Some 0"
proof -
  obtain wa fin where r: "watch_run (\<lambda>e. True) (one_file [CHR ''S'', NL, CHR ''t'', NL]) [] sample_watcher = (wa, fin)" by force
  note ev = one_file_read(5-8) [unfolded r fst_conv]
  have "parser_run (parser_feed (MultilineParser starts_S)) (parser_flush (MultilineParser starts_S)) [''/a'']
      (map InLine [text_line ''S'' 2, text_line ''t'' 4]) parser_init = [text_event (''S'' @ [NL] @ ''t'') 4]"
    by code_simp
  then show ?thesis using r ev one_record_counted [of "MultilineParser starts_S" "''S'' @ [NL] @ ''t''" 4] by auto
qed

end
