(* ===== verification/IdleTimer.thy ===== *)
theory IdleTimer
  imports Pipeline Automaton
begin

text \<open>
  The idle timer of \<open>Run\<close> (\<open>internal/pipeline/pipeline.go\<close>) on a clock: a line that is taken from the
  channel arms it, and when it fires the parser is flushed.  What the run does is a run of \<open>Pipeline\<close>; the
  clock adds when the flushes happen, measured from the moment the last line was taken.
\<close>

section \<open>The timer\<close>

text \<open>
  A \<open>time.Timer\<close> has a deadline while it is armed, and a value in its channel after it fired.  The runtime
  moves it from the one to the other; times are nanoseconds.
\<close>

record idle_timer =
  it_deadline :: "int option"
  it_ready :: bool

definition fire :: "int \<Rightarrow> idle_timer \<Rightarrow> idle_timer" where
  "fire now t = (case it_deadline t of
      None \<Rightarrow> t
    | Some d \<Rightarrow> if d \<le> now then \<lparr>it_deadline = None, it_ready = True\<rparr> else t)"

definition stop_timer :: "idle_timer \<Rightarrow> idle_timer \<times> bool" where
  "stop_timer t = (t\<lparr>it_deadline := None\<rparr>, it_deadline t \<noteq> None)"

text \<open>The timer is nil when the interval is not positive.\<close>

definition new_idle_timer :: "int \<Rightarrow> int \<Rightarrow> idle_timer option" where
  "new_idle_timer interval now =
     (if interval > 0 then Some \<lparr>it_deadline = Some (now + interval), it_ready = False\<rparr> else None)"

definition stop_parser_idle :: "idle_timer option \<Rightarrow> idle_timer option" where
  "stop_parser_idle = map_option (\<lambda>t0. case stop_timer t0 of (t, active) \<Rightarrow>
     if \<not> active then t\<lparr>it_ready := False\<rparr> else t)"

definition reset_parser_idle :: "int \<Rightarrow> int \<Rightarrow> idle_timer option \<Rightarrow> idle_timer option" where
  "reset_parser_idle interval now = map_option (\<lambda>t0. case stop_timer t0 of (t, active) \<Rightarrow>
     (if \<not> active then t\<lparr>it_ready := False\<rparr> else t)\<lparr>it_deadline := Some (now + interval)\<rparr>)"

section \<open>The run on a clock\<close>

text \<open>
  The goroutine between two rounds of its \<open>select\<close>: the time, the timer, the lines waiting in the channel,
  the buffers of the parser and the records given out.  Two fields are for the statements only: when the
  timer was armed last, and what the run has handled.
\<close>

record clock_state =
  cs_now :: int
  cs_timer :: "idle_timer option"
  cs_queue :: "line_event list"
  cs_parser :: ml_state
  cs_records :: "event list"
  cs_armed :: int
  cs_inputs :: "run_input list"

definition clock_start :: "int \<Rightarrow> clock_state" where
  "clock_start interval = \<lparr>cs_now = 0, cs_timer = new_idle_timer interval 0, cs_queue = [], cs_parser = parser_init,
     cs_records = [], cs_armed = 0, cs_inputs = []\<rparr>"

definition advance :: "int \<Rightarrow> clock_state \<Rightarrow> clock_state" where
  "advance d s = s\<lparr>cs_now := cs_now s + d, cs_timer := map_option (fire (cs_now s + d)) (cs_timer s)\<rparr>"

text \<open>
  A line arrives in the channel; time passes; a line is taken, and its records take the given time to
  process; the timer is taken, and so do the records of the flush.  When a line and the timer are both
  there, the \<open>select\<close> may take either.
\<close>

datatype clock_label = Arrive line_event | Pass int | TakeLine int | TakeIdle "string list" int

definition idle_ready :: "clock_state \<Rightarrow> bool" where
  "idle_ready s \<longleftrightarrow> (case cs_timer s of None \<Rightarrow> False | Some t \<Rightarrow> it_ready t)"

fun clock_step :: "builtin_parser \<Rightarrow> int \<Rightarrow> clock_label \<Rightarrow> clock_state \<Rightarrow> clock_state option" where
  "clock_step pr interval (Arrive e) s = Some (s\<lparr>cs_queue := cs_queue s @ [e]\<rparr>)"
| "clock_step pr interval (Pass d) s = (if d < 0 then None else Some (advance d s))"
| "clock_step pr interval (TakeLine d) s =
     (case cs_queue s of
        [] \<Rightarrow> None
      | e # q \<Rightarrow>
          if d < 0 then None
          else (case parser_feed pr (cs_parser s) e of (ps, evs) \<Rightarrow>
            Some (advance d (s\<lparr>cs_timer := reset_parser_idle interval (cs_now s) (cs_timer s), cs_queue := q,
              cs_parser := ps, cs_records := cs_records s @ evs, cs_armed := cs_now s,
              cs_inputs := cs_inputs s @ [InLine e]\<rparr>))))"
| "clock_step pr interval (TakeIdle order d) s =
     (if \<not> idle_ready s \<or> d < 0 then None
      else (case parser_flush pr order (cs_parser s) of (ps, evs) \<Rightarrow>
        (let s1 = advance d (s\<lparr>cs_timer := map_option (\<lambda>t. t\<lparr>it_ready := False\<rparr>) (cs_timer s),
             cs_parser := ps, cs_records := cs_records s @ evs, cs_inputs := cs_inputs s @ [InIdle order]\<rparr>) in
         Some (s1\<lparr>cs_timer := stop_parser_idle (cs_timer s1)\<rparr>))))"

section \<open>The invariant\<close>

definition idle_last :: "run_input list \<Rightarrow> bool" where
  "idle_last ins \<longleftrightarrow> (\<exists>order. ins \<noteq> [] \<and> last ins = InIdle order)"

lemma idle_last_simps [simp]: "\<not> idle_last []" "\<not> idle_last (ins @ [InLine e])" "idle_last (ins @ [InIdle order])"
  by (simp_all add: idle_last_def)

text \<open>Armed, fired, or taken since the last line; the timer exists when the interval is positive.\<close>

definition timer_fits :: "int \<Rightarrow> clock_state \<Rightarrow> bool" where
  "timer_fits interval s \<longleftrightarrow> (cs_timer s = None \<longleftrightarrow> interval \<le> 0) \<and> cs_armed s \<le> cs_now s \<and>
     (\<forall>t. cs_timer s = Some t \<longrightarrow>
        (it_deadline t = Some (cs_armed s + interval) \<and> \<not> it_ready t \<and> cs_now s < cs_armed s + interval \<and> \<not> idle_last (cs_inputs s)) \<or>
        (it_deadline t = None \<and> it_ready t \<and> cs_armed s + interval \<le> cs_now s \<and> \<not> idle_last (cs_inputs s)) \<or>
        (it_deadline t = None \<and> \<not> it_ready t \<and> cs_armed s + interval \<le> cs_now s \<and> idle_last (cs_inputs s)))"

lemma timer_fits_start: "timer_fits interval (clock_start interval)"
  by (auto simp: timer_fits_def clock_start_def new_idle_timer_def)

lemma timer_fits_advance:
  assumes "timer_fits interval s" "0 \<le> d"
  shows "timer_fits interval (advance d s)"
proof -
  have "timer_fits interval (advance d s)" if "cs_timer s = Some t" for t
    using assms that by (auto simp: timer_fits_def advance_def fire_def split: option.splits)
  then show ?thesis using assms by (cases "cs_timer s") (auto simp: timer_fits_def advance_def)
qed

lemma timer_fits_take_line:
  assumes "timer_fits interval s"
  shows "timer_fits interval (s\<lparr>cs_timer := reset_parser_idle interval (cs_now s) (cs_timer s), cs_queue := q, cs_parser := ps,
     cs_records := es, cs_armed := cs_now s, cs_inputs := cs_inputs s @ [InLine e]\<rparr>)"
proof (cases "cs_timer s")
  case None
  then show ?thesis using assms by (simp add: timer_fits_def reset_parser_idle_def)
next
  case (Some t)
  then have "it_deadline t = None \<or> \<not> it_ready t" "0 < interval" using assms by (auto simp: timer_fits_def)
  then show ?thesis using assms Some
    by (auto simp: timer_fits_def reset_parser_idle_def stop_timer_def split: if_splits)
qed

lemma timer_fits_take_idle:
  assumes "timer_fits interval s" "idle_ready s" "0 \<le> d"
    and "s1 = advance d (s\<lparr>cs_timer := map_option (\<lambda>t. t\<lparr>it_ready := False\<rparr>) (cs_timer s), cs_parser := ps,
      cs_records := es, cs_inputs := cs_inputs s @ [InIdle order]\<rparr>)"
  shows "timer_fits interval (s1\<lparr>cs_timer := stop_parser_idle (cs_timer s1)\<rparr>)"
proof (cases "cs_timer s")
  case None
  then show ?thesis using assms by (simp add: idle_ready_def)
next
  case (Some t)
  then have "it_deadline t = None" "0 < interval" "cs_armed s + interval \<le> cs_now s"
    using assms by (auto simp: timer_fits_def idle_ready_def)
  then show ?thesis using assms Some
    by (auto simp: timer_fits_def advance_def fire_def stop_parser_idle_def stop_timer_def)
qed

lemma timer_fits_step:
  assumes "timer_fits interval s" "clock_step pr interval l s = Some s'"
  shows "timer_fits interval s'"
proof (cases l)
  case (Arrive e)
  then show ?thesis using assms by (auto simp: timer_fits_def)
next
  case (Pass d)
  then show ?thesis using assms timer_fits_advance by (auto split: if_splits)
next
  case (TakeLine d)
  then show ?thesis using assms timer_fits_advance [OF timer_fits_take_line [OF assms(1)]]
    by (auto split: list.splits if_splits prod.splits)
next
  case (TakeIdle order d)
  then show ?thesis using assms timer_fits_take_idle [OF assms(1) _ _ refl]
    by (auto simp: Let_def split: if_splits prod.splits)
qed

text \<open>The records are those of the parser on the inputs handled so far.\<close>

fun parser_after :: "builtin_parser \<Rightarrow> run_input list \<Rightarrow> ml_state \<Rightarrow> ml_state \<times> event list" where
  "parser_after pr [] s = (s, [])"
| "parser_after pr (i # ins) s =
     (case (case i of InLine l \<Rightarrow> parser_feed pr s l | InIdle order \<Rightarrow> parser_flush pr order s) of
        (s1, es) \<Rightarrow> (case parser_after pr ins s1 of (s2, es') \<Rightarrow> (s2, es @ es')))"

lemma parser_after_snoc:
  "parser_after pr (ins @ [i]) s = (case parser_after pr ins s of (s1, es) \<Rightarrow>
     (case (case i of InLine l \<Rightarrow> parser_feed pr s1 l | InIdle order \<Rightarrow> parser_flush pr order s1) of (s2, es') \<Rightarrow> (s2, es @ es')))"
  by (induction ins arbitrary: s) (simp_all split: prod.splits)

lemma parser_run_after:
  "parser_run (parser_feed pr) (parser_flush pr) order ins s =
     (case parser_after pr ins s of (s1, es) \<Rightarrow> es @ snd (parser_flush pr order s1))"
proof (induction ins arbitrary: s)
  case (Cons i ins)
  then show ?case by (cases i) (simp_all split: prod.splits)
qed simp

definition records_fit :: "builtin_parser \<Rightarrow> clock_state \<Rightarrow> bool" where
  "records_fit pr s \<longleftrightarrow> parser_after pr (cs_inputs s) parser_init = (cs_parser s, cs_records s)"

lemma records_fit_step:
  assumes "records_fit pr s" "clock_step pr interval l s = Some s'"
  shows "records_fit pr s'"
  using assms
  by (cases l) (auto simp: records_fit_def advance_def parser_after_snoc Let_def split: list.splits if_splits prod.splits)

definition clock_inv :: "builtin_parser \<Rightarrow> int \<Rightarrow> clock_state \<Rightarrow> bool" where
  "clock_inv pr interval s \<longleftrightarrow> timer_fits interval s \<and> records_fit pr s"

interpretation clk: invariant_of "clock_step pr interval" "\<lambda>l. True" "\<lambda>s. s = clock_start interval" "clock_inv pr interval"
  for pr interval
proof
  show "s = clock_start interval \<Longrightarrow> clock_inv pr interval s" for s
    using timer_fits_start [of interval] by (simp add: clock_inv_def records_fit_def clock_start_def)
  show "\<lbrakk>clock_inv pr interval s; True; clock_step pr interval l s = Some s'\<rbrakk> \<Longrightarrow> clock_inv pr interval s'" for s l s'
    using timer_fits_step records_fit_step by (metis clock_inv_def)
qed

lemma clock_inv_run:
  "run_steps (clock_step pr interval) ls (clock_start interval) = Some s \<Longrightarrow> clock_inv pr interval s"
  using clk.inv_run [of pr interval ls "clock_start interval" s] clk.inv_start [OF refl] by (simp add: list_all_iff)

section \<open>When the flush happens\<close>

lemma idle_enabled: "0 \<le> d \<Longrightarrow> clock_step pr interval (TakeIdle order d) s \<noteq> None \<longleftrightarrow> idle_ready s"
  by (simp add: Let_def split: prod.splits)

text \<open>A flush that visits every buffer leaves nothing for the next one.\<close>

lemma ml_flush_get: "gm_get (fst (ml_flush order s)) p = (if p \<in> set order then None else gm_get s p)"
  by (induction order s rule: ml_flush.induct) (auto simp: gm_get_del split: option.splits prod.splits)

lemma ml_flush_nothing: "\<forall>p. gm_get s p = None \<Longrightarrow> ml_flush order s = (s, [])"
  by (induction order s rule: ml_flush.induct) auto

lemma flush_empties:
  assumes "bp_visited pr order s" "parser_flush pr order s = (ps, evs)"
  shows "snd (parser_flush pr order' ps) = []"
proof (cases pr)
  case LineParser
  then show ?thesis by (simp add: parser_flush_def line_flush_def)
next
  case (MultilineParser start)
  then have "gm_get ps p = None" for p
    using assms ml_flush_get [of order s p] by (auto simp: bp_visited_def visits_all_def gm_keys_get parser_flush_def)
  then show ?thesis using MultilineParser ml_flush_nothing by (simp add: parser_flush_def)
qed

text \<open>
  C18.
  The idle flush of the parser: it never happens before the interval has passed since the last line
  was taken from the channel, and not twice without a line between; once the interval has passed it is
  due, unless it was done, and it leaves nothing behind; and the records of a run on the clock are those
  of the run without clock on the same lines and flushes.
\<close>

theorem idle_flush_is_timely:
  assumes "run_steps (clock_step pr interval) ls (clock_start interval) = Some s"
  shows "(clock_step pr interval (TakeIdle order 0) s \<noteq> None \<longleftrightarrow>
        0 < interval \<and> cs_armed s + interval \<le> cs_now s \<and> \<not> idle_last (cs_inputs s)) \<and>
      (\<forall>s' order'. clock_step pr interval (TakeIdle order 0) s = Some s' \<longrightarrow> bp_visited pr order (cs_parser s) \<longrightarrow>
        snd (parser_flush pr order' (cs_parser s')) = []) \<and>
      cs_records s @ snd (parser_flush pr order (cs_parser s)) =
        parser_run (parser_feed pr) (parser_flush pr) order (cs_inputs s) parser_init"
proof (intro conjI allI impI)
  note i = clock_inv_run [OF assms, unfolded clock_inv_def]
  show "clock_step pr interval (TakeIdle order 0) s \<noteq> None \<longleftrightarrow>
      0 < interval \<and> cs_armed s + interval \<le> cs_now s \<and> \<not> idle_last (cs_inputs s)"
    using i unfolding idle_enabled [OF order.refl] by (auto simp: timer_fits_def idle_ready_def split: option.splits)
  show "snd (parser_flush pr order' (cs_parser s')) = []"
    if "clock_step pr interval (TakeIdle order 0) s = Some s'" "bp_visited pr order (cs_parser s)" for s' order'
    using that(1) flush_empties [OF that(2)]
    by (auto simp: Let_def advance_def split: if_splits prod.splits)
  show "cs_records s @ snd (parser_flush pr order (cs_parser s)) =
      parser_run (parser_feed pr) (parser_flush pr) order (cs_inputs s) parser_init"
    using i by (simp add: parser_run_after records_fit_def)
qed

text \<open>Three lines of a file, of which the first two begin records.\<close>

definition waiting_lines :: "line_event list" where
  "waiting_lines = [text_line ''S0'' 3, text_line ''S1'' 6, text_line ''t'' 8]"

definition busy_schedule :: "clock_label list" where
  "busy_schedule = map Arrive waiting_lines @ [TakeLine 0, TakeLine 200, TakeIdle [''/a''] 0, TakeLine 0]"

theorem idle_flush_is_timely_witness:
  "\<exists>s. run_steps (clock_step (MultilineParser starts_S) 100) (take 5 busy_schedule) (clock_start 100) = Some s \<and>
     0 < (100 :: int) \<and> cs_armed s + 100 \<le> cs_now s \<and> \<not> idle_last (cs_inputs s)"
proof -
  let ?step = "clock_step (MultilineParser starts_S) 100"
  have "\<exists>s. run_steps ?step (take 5 busy_schedule) (clock_start 100) = Some s \<and> ?step (TakeIdle [''/a''] 0) s \<noteq> None"
    by (rule exI [of _ "the (run_steps ?step (take 5 busy_schedule) (clock_start 100))"]) code_simp
  then obtain s where s: "run_steps ?step (take 5 busy_schedule) (clock_start 100) = Some s"
    "?step (TakeIdle [''/a''] 0) s \<noteq> None" by blast
  then show ?thesis using idle_flush_is_timely [OF s(1), of "[''/a'']"] by blast
qed

text \<open>
  A schedule in which the idle flush cuts a record whose next line was already waiting: the second line
  is taken, the record before it takes longer to publish than the interval, and the \<open>select\<close> takes the
  timer although the third line has been in the channel from the start.  The third line becomes a record
  of its own, where the parser would have joined the second and the third.
\<close>

theorem busy_pipeline_splits_a_waiting_record:
  "\<exists>s. run_steps (clock_step (MultilineParser starts_S) 100) busy_schedule (clock_start 100) = Some s \<and>
     busy_schedule = map Arrive waiting_lines @ drop 3 busy_schedule \<and>
     cs_records s = [text_event ''S0'' 3, text_event ''S1'' 6, text_event ''t'' 8] \<and>
     map event_of (chunks_from starts_S [] waiting_lines) = [text_event ''S0'' 3, text_event (''S1'' @ [NL] @ ''t'') 8]"
  by (rule exI [of _ "the (run_steps (clock_step (MultilineParser starts_S) 100) busy_schedule (clock_start 100))"]) code_simp

end
