(* ===== verification/Spec2Isabelle.thy ===== *)
theory Spec2Isabelle
  imports BatchPipeline FlusherBugs Custom Accounting IdleTimer
begin

text \<open>
  log-forwarder: a verification of its core.

  The program (\<open>cmd/log-forwarder/main.go\<close>, packages under \<open>internal\<close>) tails log files, turns each line
  into a JSON record and publishes the records to a file, an HTTP endpoint or Kafka.  A \<^emph>\<open>watcher\<close> polls
  directories, reads the complete lines of every matching file and puts them into a channel.  The
  \<^emph>\<open>pipeline\<close> takes them out, groups them into logical records with a \<^emph>\<open>parser\<close>, and sends each record
  through transform, enrich, timestamp, filter, marshal and truncate.  The payload is published at
  once, or collected into a byte-bounded batch that a \<^emph>\<open>flusher\<close> publishes in a goroutine of its own.  The
  \<^emph>\<open>watermark store\<close> remembers, per file, the offset behind the last record that was dealt with, so that a
  restart resumes there.  A batch that cannot be published stops the pipeline, hibernates it (a
  wake loop retries) or goes to a \<^emph>\<open>dead-letter\<close> directory.  An HTTP server reports metrics, readiness and
  dead letters.  The promise of the program is that no line is lost: the watermark of a file moves only
  over lines that were delivered, stored, filtered or skipped.  Most of what follows serves to say
  where that promise holds, and on which schedules it does not.


  \<^bold>\<open>Theories, and the code they model\<close> (paths below \<open>src/internal\<close> unless they start with \<open>src\<close>)

  Foundations.
    \<^item> \<open>Prelude\<close>: byte strings, errors as values, the result type \<open>error + 'a\<close>, decimals, list facts.
    \<^item> \<open>GoMap\<close>: \<open>map[string]V\<close>; locale \<open>go_map\<close>, interpretation \<open>gm\<close>.
    \<^item> \<open>Utf8\<close>, \<open>Json\<close>, \<open>JsonParse\<close>: what the code uses of \<open>unicode/utf8\<close> and \<open>encoding/json\<close>; the parser
      reads back what the encoder writes.
    \<^item> \<open>Paths\<close>: \<open>path/filepath\<close>, and \<open>pathInside\<close> and \<open>logFileMatchesWatchPattern\<close> of \<open>config/logging.go\<close>.
    \<^item> \<open>Automaton\<close>: runs of a step function that may refuse a label, the inductive \<open>reaches\<close>, and the locale
      \<open>invariant_of\<close>, whose interpretations carry the invariants of the flusher and the idle timer.

  Configuration.
    \<^item> \<open>Config\<close>: every struct of \<open>config/*.go\<close> as a record, with defaults and accessors.
    \<^item> \<open>Validate\<close>: \<open>Validate\<close> with every check in the order of the code; \<open>PipelineSetup\<close>: a valid configuration
      against \<open>pipeline.New\<close>; \<open>Registration\<close>: the five registries of factories against the names that
      validation knows (locale \<open>factory_registry\<close>, five interpretations).

  The stages of a record.
    \<^item> \<open>Parser\<close> (\<open>parser\<close>): line and multiline; locale \<open>record_parser\<close>, interpretations \<open>lp\<close>, \<open>ml\<close>, and \<open>bp\<close> in
      \<open>Pipeline\<close>.
    \<^item> \<open>Transform\<close> (\<open>transform\<close>), \<open>Enrich\<close> (\<open>enrich\<close>, \<open>timestamp\<close>), \<open>RecordFilter\<close> (\<open>filter\<close>,
      \<open>config/filters.go\<close>), \<open>Truncate\<close> (\<open>pipeline/truncate.go\<close>).

  Reading and remembering.
    \<^item> \<open>Tail\<close> (\<open>watcher/watcher.go\<close>): \<open>tailFile\<close>, \<open>readNewLines\<close>, \<open>scan\<close>, \<open>Run\<close>, the channel.  A file system is
      the answers it gives at one moment.  \<open>watcher_channel\<close> is the channel as a running watcher uses it, with its
      \<open>on_full\<close> policy and a run context: a send without room drops the line, or waits until a shutdown ends it.
    \<^item> \<open>WatermarkFile\<close>, \<open>Watermark\<close> (\<open>state\<close>): the JSON of the table; the table, its persistence policy, the
      write to a temporary file and rename with every fault, start-up with a corrupt file.  A persisting
      operation returns the disks it goes through: a crash leaves one of them.

  Publishing.
    \<^item> \<open>Sinks\<close>, \<open>SinkSetup\<close> (\<open>sink\<close>): the three sinks and their construction; locale \<open>sink_contract\<close>,
      interpretations \<open>file_snk\<close> and \<open>http_snk\<close>.
    \<^item> \<open>Publish\<close> (\<open>pipeline/publish.go\<close>, \<open>publish_buffer.go\<close>): the buffer, the retry loop with its backoff at
      64 bits.
    \<^item> \<open>DeadLetter\<close> (\<open>deadletter\<close>, \<open>pipeline/deadletter.go\<close>): writing, metadata, listing.
    \<^item> \<open>Flush\<close>: one flush, seen alone: publish, then move the watermarks, or hibernate, or write a dead
      letter, or fail (\<open>flushItems\<close>, \<open>publishAndAdvance\<close>, \<open>hibernate.go\<close>).
    \<^item> \<open>Flusher\<close> (\<open>pipeline/publish_flusher.go\<close>, \<open>hibernate.go\<close>): the same with its goroutines.  \<open>fstep\<close> is a
      step function over three threads of control (the goroutine of \<open>Run\<close>, the flush it started, the wake
      loop), cut where one of them blocks, releases a mutex or sees what another did (\<open>MSwapped\<close> is the gap in
      \<open>swapAndStartFlushLocked\<close>, \<open>Clearing\<close> and \<open>LimitHit\<close> those between the two mutexes at the end of a flush); a
      label carries what the outside answers, so that all interleavings and all faults are runs.  A flush or
      wake loop started beside another would be in \<open>fs_others\<close> and \<open>fs_extra_wakes\<close>.  The fields \<open>fs_accepted\<close>,
      \<open>fs_delivered\<close>, \<open>fs_dead\<close>, \<open>fs_started\<close> and \<open>fs_advanced\<close> are not in the code: they record what happened.
      \<open>FlusherInv\<close> holds the invariants, \<open>FlusherLive\<close> the bound that makes a cancelled run end,
      \<open>FlusherProps\<close> the properties, \<open>FlusherSamples\<close> and \<open>FlusherBugs\<close> runs that are evaluated.

  The whole.
    \<^item> \<open>Pipeline\<close> (\<open>pipeline/pipeline.go\<close>): \<open>process\<close>, \<open>Run\<close>, \<open>exitErr\<close>, \<open>shutdown\<close> without batching;
      \<open>BatchPipeline\<close>: with batching, where \<open>process\<close> feeds the flusher.
    \<^item> \<open>Restart\<close>: watcher, pipeline and store across a crash.
    \<^item> \<open>IdleTimer\<close>: the idle timer of \<open>Run\<close> on a clock.
    \<^item> \<open>Metrics\<close> (\<open>metrics\<close>): collector, server, routes, handlers; \<open>Accounting\<close>: the pipeline with the calls it
      makes on the collector.
    \<^item> \<open>Forwarder\<close> (\<open>src/cmd/log-forwarder/main.go\<close>, \<open>runner\<close>, \<open>logging\<close>, \<open>atc\<close>): the process, as a function of the
      answers it gets; \<open>Custom\<close> (\<open>src/examples/custom/main.go\<close>): the example with its own stages.


  \<^bold>\<open>How state and operations correspond\<close>

  A struct is a record whose fields carry a prefix and the name of the Go field, an enum or an error a
  datatype, and each method a function that returns the changed state.  An \<open>error\<close> result is the left
  summand of \<open>error + 'a\<close> (or \<open>error option\<close>); a panic is a value of its own where the code can panic
  (\<open>Panicked\<close> in \<open>Tail\<close>, \<open>MetricsPanic\<close> in \<open>Metrics\<close>, \<open>None\<close> in \<open>SinkSetup\<close>).  Offsets, lengths and Go's \<open>int\<close> counters are \<open>nat\<close> or \<open>int\<close>; the backoff,
  which is doubled without end, is a 64-bit word.  Code outside the repository is an argument: the clock, the
  host name, \<open>time.ParseDuration\<close> and layouts, \<open>regexp\<close>, \<open>net/url\<close>, \<open>strings.EqualFold\<close>, the operating
  system, the HTTP server's answer, the Kafka client.  Go's order of ranging over a map is an argument
  wherever it can be observed.


  \<^bold>\<open>What is shown\<close>

    \<^item> End to end: every line the watcher delivered is in the sink, filtered, skipped, stored or still to be
      read after a restart.  Without batching, into the file sink: when \<open>Run\<close> returns nil
      (\<open>every_line_is_accounted_for\<close>), and at any crash of such a run, or of any run with the line parser
      (\<open>crash_and_restart_lose_no_line\<close>).  With batching, in every interleaving: when \<open>Run\<close> returns nil, dead letters
      are on and every dead letter and watermark can be written (\<open>batched_lines_are_accounted_for\<close>), or when
      every publish succeeds (\<open>batched_lines_are_delivered_once\<close>).
    \<^item> Flusher: accepted records are partitioned into batches, the watermark table is the initial one moved
      by positions of delivered, stored, filtered and skipped records, healthy sinks deliver in order, no
      second flush or wake loop is ever started, a cancelled run returns within an explicit number of steps,
      a hibernating pipeline wakes up.
    \<^item> Watcher: each line is read once over any number of polls; resuming reads exactly the rest.
    \<^item> Store: every crash leaves a snapshot; how many updates a restart misses; round trip; corrupt files.
    \<^item> Stages: the multiline parser equals a reference; truncation keeps the longest prefix that fits;
      a validated filter means its rules.
    \<^item> Publishing: the retry loop returns within its limit and only then; one flush on every branch; the
      dead-letter file is absent or complete; the endpoint lists the directory.
    \<^item> Configuration and process: valid configurations build, keep outputs out of watched directories; the
      process checks before it reads and closes in order; the last flush and what its failure means;
      readiness names the first obstacle; the counters add up, as a refinement of the pipeline without them
      (a run without batching and without an error, the line parser, no send given up; the counters of
      \<open>flushItems\<close> and of dead letters are modelled per flush, \<open>flush_counted\<close>).
    \<^item> Defects, as theorems about concrete runs: \<open>shutdown_skips_the_failed_record\<close>,
      \<open>hibernated_batch_is_lost\<close>, \<open>graceful_stop_leaves_the_buffered_record\<close>,
      \<open>final_flush_depends_on_the_exit_code\<close>, \<open>torn_line_becomes_two_events\<close>,
      \<open>rotation_reads_only_the_new_file\<close>, \<open>torn_write_corrupts_the_retry\<close>,
      \<open>async_flush_error_is_swallowed\<close>, \<open>wake_loop_misses_new_hibernation\<close>, \<open>asleep_for_good\<close>,
      \<open>wake_loop_outlives_run\<close>, \<open>drain_repeats_the_wake_batch\<close>,
      \<open>filtered_line_overtakes_buffered_record\<close>, \<open>torn_metadata_blocks_the_listing\<close>,
      \<open>non_positive_poll_never_runs\<close>, \<open>busy_pipeline_splits_a_waiting_record\<close>,
      \<open>multiline_records_break_the_accounting\<close>, \<open>dead_letters_are_not_counted\<close>, \<open>level_in_capitals_is_ignored\<close>.


  \<^bold>\<open>Bounds and fuel\<close>

  The JSON parser takes fuel; \<open>json_parse\<close> gives it twice the length of the text and one more, which is
  enough because two nested calls consume a byte at least (\<open>json_parse_fuel\<close>).  The retry loop is a \<open>partial_function (option)\<close>, since without an attempt limit it
  need not return; \<open>retry_attempts_bounded\<close> says when it does.  Every other loop is structural or has a
  measure.  The runs of the flusher and of the clock are arbitrary finite lists of labels; nothing is
  bounded there, and that a cancelled run ends is a theorem over a bound computed from the state.


  \<^bold>\<open>Not modelled\<close>

    \<^item> The parsing of YAML and of the command line, which libraries do; their results are arguments.
    \<^item> What is logged along the way: the calls of \<open>slog\<close> (the entries of \<open>logATCRegistrationStatus\<close>,
      \<open>logATCDeregistrationStatus\<close> and \<open>logStatus\<close> are modelled, in \<open>Forwarder\<close>, with the order of the levels).
    \<^item> The internals of OpenTelemetry, Prometheus (\<open>PrometheusHandler\<close> only calls it), \<open>net/http\<close>, TLS, SCRAM
      and the Kafka client; they are known by their answers.  Routes are matched literally, without
      the wildcards of \<open>http.ServeMux\<close>.
    \<^item> The order in which \<open>registeredNames\<close> lists the names at the end of some errors (an argument), and the escapes
      of \<open>%q\<close> in errors.
    \<^item> Data races: steps are as atomic as the mutexes of the code make them.  The one field without a
      mutex, \<open>runCtx\<close>, is not in the model; the wake loop may end or go on once the context is done.
    \<^item> Comments in \<open>doc.go\<close> files.
\<close>

end
